(* ===== verification/Prelude.thy ===== *)
theory Prelude
  imports Main "HOL-Library.Word" "HOL-Library.Monad_Syntax"
begin

text \<open>
  Shared vocabulary of the development: the Go types that every component uses, the
  checked slice accesses of Go, big-endian integers, decimal printing, the collections of
  rewrite rules, and the two codec interfaces that the message formats instantiate.

  A Go computation that can hit a runtime panic (an index or slice bound out of range) has
  type \<open>'a go\<close>: \<open>None\<close> is the panic, \<open>Some x\<close> is the normal result. The bounds are those
  of the length of the slice. Go checks a slice expression against the capacity, which is
  at least the length, so a program that never panics here never panics in Go either.
\<close>

unbundle bit_operations_syntax

subsection \<open>Types\<close>

type_synonym byte = "8 word"
type_synonym u16 = "16 word"
type_synonym u32 = "32 word"
type_synonym u64 = "64 word"
type_synonym bytes = "byte list"
type_synonym 'a go = "'a option"

text \<open>Milliseconds or nanoseconds since the Unix epoch, as the clock returns them.\<close>

type_synonym time = int

named_theorems go_simps \<open>unfolding rules of the checked Go accesses\<close>
named_theorems be_simps \<open>big-endian integers and bytes\<close>

subsection \<open>Checked slice accesses\<close>

definition go_at :: "'a list \<Rightarrow> nat \<Rightarrow> 'a go" where
  "go_at xs i = (if i < length xs then Some (xs ! i) else None)"

definition go_slice :: "'a list \<Rightarrow> nat \<Rightarrow> nat \<Rightarrow> 'a list go" where
  "go_slice xs a b = (if a \<le> b \<and> b \<le> length xs then Some (take (b - a) (drop a xs)) else None)"

text \<open>The write \<open>b[i] = v\<close>.\<close>

definition go_set :: "'a list \<Rightarrow> nat \<Rightarrow> 'a \<Rightarrow> 'a list go" where
  "go_set b i v = (if i < length b then Some (b[i := v]) else None)"

text \<open>\<open>copy(dst[off:], src)\<close>: as many bytes as fit are overwritten.\<close>

definition go_copy :: "'a list \<Rightarrow> nat \<Rightarrow> 'a list \<Rightarrow> 'a list" where
  "go_copy dst off src =
     take off dst @ take (length dst - off) src @ drop (off + length src) dst"

lemma go_at_Some [go_simps]: "i < length xs \<Longrightarrow> go_at xs i = Some (xs ! i)"
  by (simp add: go_at_def)

lemma go_at_None [go_simps]: "length xs \<le> i \<Longrightarrow> go_at xs i = None"
  by (simp add: go_at_def)

lemma go_slice_Some [go_simps]:
  "a \<le> b \<Longrightarrow> b \<le> length xs \<Longrightarrow> go_slice xs a b = Some (take (b - a) (drop a xs))"
  by (simp add: go_slice_def)

lemma length_go_copy [simp]:
  "off \<le> length dst \<Longrightarrow> length (go_copy dst off src) = length dst"
  by (auto simp: go_copy_def)

lemma nth_go_copy_in [go_simps]:
  "off \<le> i \<Longrightarrow> i < off + length src \<Longrightarrow> i < length dst \<Longrightarrow>
   go_copy dst off src ! i = src ! (i - off)"
  by (auto simp: go_copy_def nth_append)

lemma nth_go_copy_out [go_simps]:
  "i < length dst \<Longrightarrow> off \<le> length dst \<Longrightarrow> i < off \<or> off + length src \<le> i \<Longrightarrow>
   go_copy dst off src ! i = dst ! i"
  by (auto simp: go_copy_def nth_append min_def)

lemma list4: "length xs = 4 \<Longrightarrow> \<exists>a b c d. xs = [a, b, c, d]"
  by (auto simp: length_Suc_conv numeral_eq_Suc)

lemma list16:
  "length xs = 16 \<Longrightarrow> \<exists>a b c d e f g h i j k l m n p q. xs = [a, b, c, d, e, f, g, h, i, j, k, l, m, n, p, q]"
  by (auto simp: length_Suc_conv numeral_eq_Suc)

subsection \<open>Big-endian integers\<close>

text \<open>\<open>binary.BigEndian.Uint16(b)\<close> on two bytes, and the two bytes \<open>PutUint16\<close> stores.\<close>

definition be16 :: "byte \<Rightarrow> byte \<Rightarrow> u16" where
  "be16 hi lo = (push_bit 8 (ucast hi)) OR ucast lo"

definition hi8 :: "u16 \<Rightarrow> byte" where
  "hi8 x = ucast (drop_bit 8 x)"

definition lo8 :: "u16 \<Rightarrow> byte" where
  "lo8 x = ucast x"

definition put16 :: "bytes \<Rightarrow> nat \<Rightarrow> u16 \<Rightarrow> bytes go" where
  "put16 b off v = (if off + 2 \<le> length b then Some (b[off := hi8 v, Suc off := lo8 v]) else None)"

definition uint16_at :: "bytes \<Rightarrow> nat \<Rightarrow> u16 go" where
  "uint16_at b off = do { hi \<leftarrow> go_at b off; lo \<leftarrow> go_at b (Suc off); Some (be16 hi lo) }"

lemma be16_hi8_lo8 [be_simps, simp]: "be16 (hi8 x) (lo8 x) = x"
  unfolding be16_def hi8_def lo8_def
  by (rule bit_word_eqI) (auto simp: bit_simps)

lemma hi8_be16 [be_simps, simp]: "hi8 (be16 h l) = h"
  unfolding be16_def hi8_def
  by (rule bit_word_eqI) (auto simp: bit_simps dest: bit_imp_le_length)

lemma lo8_be16 [be_simps, simp]: "lo8 (be16 h l) = l"
  unfolding be16_def lo8_def
  by (rule bit_word_eqI) (auto simp: bit_simps)

lemma put16_Some [go_simps]:
  "off + 2 \<le> length b \<Longrightarrow> put16 b off v = Some (b[off := hi8 v, Suc off := lo8 v])"
  by (simp add: put16_def)

lemma uint16_at_Some [go_simps]:
  "Suc off < length b \<Longrightarrow> uint16_at b off = Some (be16 (b ! off) (b ! Suc off))"
  by (simp add: uint16_at_def go_at_def)

lemma unat_byte [simp]: "unat (b :: byte) < 256"
  using unsigned_less [of b, where ?'a = nat] by simp

lemma unat_u16 [simp]: "unat (x :: u16) < 65536"
  using unsigned_less [of x, where ?'a = nat] by simp

lemma unat_be16 [be_simps]: "unat (be16 h l) = unat h * 256 + unat l"
proof -
  have "be16 h l = ucast h * 256 + ucast l"
  proof -
    have "push_bit 8 (ucast h) + (ucast l :: u16) = push_bit 8 (ucast h) OR ucast l"
      by (rule disjunctive_add) (auto simp: bit_simps dest: bit_imp_le_length)
    then show ?thesis by (simp add: be16_def push_bit_eq_mult)
  qed
  moreover have "unat (ucast h :: u16) = unat h" "unat (ucast l :: u16) = unat l"
    by (simp_all add: unsigned_ucast_eq take_bit_nat_eq_self_iff order.strict_trans2 [OF unat_byte])
  moreover have "unat h * 256 + unat l < 65536"
    using unat_byte [of h] unat_byte [of l] by linarith
  ultimately show ?thesis
    by (simp add: unat_word_ariths)
qed

subsection \<open>Decimal numbers\<close>

definition digit_char :: "nat \<Rightarrow> char" where
  "digit_char d = char_of (48 + d)"

definition is_digit :: "char \<Rightarrow> bool" where
  "is_digit c \<longleftrightarrow> 48 \<le> (of_char c :: nat) \<and> (of_char c :: nat) \<le> 57"

definition digit_val :: "char \<Rightarrow> nat" where
  "digit_val c = of_char c - 48"

text \<open>Decimal text of a number, as \<open>fmt\<close> prints \<open>%d\<close> and \<open>netip\<close> prints an octet.\<close>

fun dec_string :: "nat \<Rightarrow> string" where
  "dec_string n = (if n < 10 then [digit_char n] else dec_string (n div 10) @ [digit_char (n mod 10)])"

declare dec_string.simps [simp del]

text \<open>Reading decimal digits, most significant first, on top of an accumulator.\<close>

fun dec_value_from :: "nat \<Rightarrow> string \<Rightarrow> nat" where
  "dec_value_from acc [] = acc"
| "dec_value_from acc (c # cs) = dec_value_from (acc * 10 + digit_val c) cs"

lemma of_char_digit [simp]: "d < 10 \<Longrightarrow> (of_char (digit_char d) :: nat) = 48 + d"
  by (simp add: digit_char_def)

lemma digit_val_char [simp]: "d < 10 \<Longrightarrow> digit_val (digit_char d) = d"
  by (simp add: digit_val_def)

lemma digit_char_0: "digit_char 0 = CHR ''0''"
  by code_simp

lemma is_digit_char [simp]: "d < 10 \<Longrightarrow> is_digit (digit_char d)"
  by (simp add: is_digit_def)

lemma dec_string_nonempty [simp]: "dec_string n \<noteq> []"
  by (subst dec_string.simps) simp

lemma dec_value_from_append:
  "dec_value_from acc (xs @ ys) = dec_value_from (dec_value_from acc xs) ys"
  by (induction xs arbitrary: acc) auto

lemma dec_value_dec_string [simp]: "dec_value_from 0 (dec_string n) = n"
proof (induction n rule: dec_string.induct)
  case (1 n)
  then show ?case
    by (subst dec_string.simps) (auto simp: dec_value_from_append)
qed

lemma dec_string_digits: "c \<in> set (dec_string n) \<Longrightarrow> is_digit c"
proof (induction n rule: dec_string.induct)
  case (1 n)
  then show ?case
    by (subst (asm) dec_string.simps) (auto split: if_splits)
qed

lemma dec_string_inj: "dec_string m = dec_string n \<Longrightarrow> m = n"
  by (metis dec_value_dec_string)

lemma dec_string_1: "n < 10 \<Longrightarrow> dec_string n = [digit_char n]"
  by (subst dec_string.simps) simp

lemma dec_string_2:
  "10 \<le> n \<Longrightarrow> n < 100 \<Longrightarrow> dec_string n = [digit_char (n div 10), digit_char (n mod 10)]"
  by (subst dec_string.simps) (simp add: dec_string_1)

lemma dec_string_3:
  "100 \<le> n \<Longrightarrow> n < 1000 \<Longrightarrow>
   dec_string n = [digit_char (n div 100), digit_char (n div 10 mod 10), digit_char (n mod 10)]"
  by (subst dec_string.simps) (simp add: dec_string_2 div_mult2_eq [symmetric])

end
