(* ===== verification/Net_IP.thy ===== *)
theory Net_IP
  imports Prelude
begin

text \<open>
  Go's \<open>net.IP\<close> as the program uses it: a byte slice of length 4 or 16 (or malformed, any
  other length), with \<open>To4\<close>, \<open>To16\<close> and \<open>Equal\<close> of the standard library. A nil result is
  \<open>None\<close>. The addresses the netstack hands to the program have length 4 or 16 (\<open>wf_ip\<close>).
\<close>

type_synonym ip = bytes

definition wf_ip :: "ip \<Rightarrow> bool" where
  "wf_ip a \<longleftrightarrow> length a = 4 \<or> length a = 16"

text \<open>The 12 bytes in front of an IPv4 address in its IPv4-in-IPv6 form.\<close>

definition v4_prefix :: bytes where
  "v4_prefix = replicate 10 0 @ [0xff, 0xff]"

definition To4 :: "ip \<Rightarrow> ip option" where
  "To4 a = (if length a = 4 then Some a
            else if length a = 16 \<and> take 12 a = v4_prefix then Some (drop 12 a)
            else None)"

definition To16 :: "ip \<Rightarrow> ip option" where
  "To16 a = (if length a = 4 then Some (v4_prefix @ a)
             else if length a = 16 then Some a
             else None)"

text \<open>\<open>a.Equal(b)\<close>: an IPv4 address and its IPv4-in-IPv6 form are equal.\<close>

definition ip_equal :: "ip \<Rightarrow> ip \<Rightarrow> bool" where
  "ip_equal a b =
     (if length a = length b then a = b
      else if length a = 4 \<and> length b = 16 then take 12 b = v4_prefix \<and> a = drop 12 b
      else if length a = 16 \<and> length b = 4 then take 12 a = v4_prefix \<and> drop 12 a = b
      else False)"

lemma length_v4_prefix [simp]: "length v4_prefix = 12"
  by (simp add: v4_prefix_def)

lemma To4_length: "To4 a = Some b \<Longrightarrow> length b = 4"
  by (auto simp: To4_def split: if_splits)

lemma To16_length: "To16 a = Some b \<Longrightarrow> length b = 16"
  by (auto simp: To16_def split: if_splits)

lemma To4_None_wf: "wf_ip a \<Longrightarrow> To4 a = None \<Longrightarrow> length a = 16"
  by (auto simp: wf_ip_def To4_def split: if_splits)

lemma To16_wf: "wf_ip a \<Longrightarrow> \<exists>b. To16 a = Some b"
  by (auto simp: wf_ip_def To16_def)

lemma To4_To16: "To4 a = Some b \<Longrightarrow> To16 a = Some (v4_prefix @ b)"
  by (auto simp: To4_def To16_def split: if_splits) (metis append_take_drop_id)

text \<open>The normal form of an address: IPv4 where it has one, the 16 bytes otherwise.\<close>

definition ip_norm :: "ip \<Rightarrow> ip" where
  "ip_norm a = (case To4 a of Some b \<Rightarrow> b | None \<Rightarrow> a)"

lemma ip_equal_iff_To16:
  assumes "wf_ip a" and "wf_ip b"
  shows "ip_equal a b \<longleftrightarrow> To16 a = To16 b"
  using assms
  by (auto simp: ip_equal_def To16_def wf_ip_def) (metis append_take_drop_id append_eq_conv_conj length_v4_prefix)+

lemma ip_equal_iff_norm:
  assumes "wf_ip a" and "wf_ip b"
  shows "ip_equal a b \<longleftrightarrow> ip_norm a = ip_norm b"
  using assms
  by (auto simp: ip_equal_def ip_norm_def To4_def wf_ip_def)
    (metis append_take_drop_id)+

lemma ip_equal_refl [simp]: "ip_equal a a"
  by (simp add: ip_equal_def)

end
