(* ===== verification/Codec.thy ===== *)
theory Codec
  imports Prelude
begin

text \<open>
  The interfaces of the encoders of the program. A \<open>text_form\<close> prints values that a parser
  reads back up to a normal form; a \<open>codec\<close> reads back the value itself; a
  \<open>prefix_codec\<close> also leaves the bytes that follow the message untouched, which is what a
  protocol on a stream needs. The message formats of the other theories interpret them.
\<close>

locale text_form =
  fixes enc :: "'a \<Rightarrow> 'b list"
    and dec :: "'b list \<Rightarrow> 'c option"
    and norm :: "'a \<Rightarrow> 'c"
    and ok :: "'a \<Rightarrow> bool"
  assumes dec_enc: "ok x \<Longrightarrow> dec (enc x) = Some (norm x)"
    and enc_cong: "ok x \<Longrightarrow> ok y \<Longrightarrow> norm x = norm y \<Longrightarrow> enc x = enc y"
begin

lemma enc_eq_iff: "ok x \<Longrightarrow> ok y \<Longrightarrow> enc x = enc y \<longleftrightarrow> norm x = norm y"
  by (metis dec_enc enc_cong option.inject)

end

locale codec =
  fixes enc :: "'a \<Rightarrow> 'b list"
    and dec :: "'b list \<Rightarrow> 'a option"
    and ok :: "'a \<Rightarrow> bool"
  assumes roundtrip: "ok x \<Longrightarrow> dec (enc x) = Some x"
begin

lemma enc_inj: "inj_on enc {x. ok x}"
  by (rule inj_onI) (metis mem_Collect_eq option.inject roundtrip)

end

sublocale codec \<subseteq> text_form enc dec "\<lambda>x. x" ok
  by unfold_locales (auto simp: roundtrip)

locale prefix_codec =
  fixes enc :: "'a \<Rightarrow> 'b list"
    and dec :: "'b list \<Rightarrow> ('a \<times> 'b list) option"
    and ok :: "'a \<Rightarrow> bool"
  assumes dec_enc_append: "ok x \<Longrightarrow> dec (enc x @ rest) = Some (x, rest)"
begin

lemma unique_split:
  assumes "ok x" and "ok y" and "enc x @ r = enc y @ s"
  shows "x = y \<and> r = s"
proof -
  have "Some (x, r) = Some (y, s)"
    using assms dec_enc_append by metis
  then show ?thesis by simp
qed

lemma prefix_free: "ok x \<Longrightarrow> ok y \<Longrightarrow> enc x = enc y @ s \<Longrightarrow> s = []"
  using unique_split [of x y "[]" s] by (simp del: append_self_conv append_self_conv2)

end

sublocale prefix_codec \<subseteq> whole: codec enc
  "\<lambda>bs. case dec bs of Some (x, []) \<Rightarrow> Some x | _ \<Rightarrow> None" ok
proof unfold_locales
  fix x assume "ok x"
  from dec_enc_append [OF this, of "[]"]
  show "(case dec (enc x) of Some (x, []) \<Rightarrow> Some x | _ \<Rightarrow> None) = Some x" by simp
qed

end
