(* ===== verification/Net_IP_Text.thy ===== *)
theory Net_IP_Text
  imports Net_IP Codec
begin

text \<open>
  The text form of addresses in Go's standard library: \<open>net.IP.String\<close> (dotted decimal for
  an address with an IPv4 form, the compressed hexadecimal form of RFC 5952 otherwise) and
  \<open>net.ParseIP\<close>. The cache keys of the program are made of these texts, and the SOCKS5
  client prints a destination and parses it again, so both depend on the round trip proved
  here: parsing the text of an address gives its 16-byte form.
\<close>

subsection \<open>Printing IPv4\<close>

definition v4_string :: "ip \<Rightarrow> string" where
  "v4_string a = dec_string (unat (a ! 0)) @ ''.'' @ dec_string (unat (a ! 1)) @ ''.'' @
                 dec_string (unat (a ! 2)) @ ''.'' @ dec_string (unat (a ! 3))"

subsection \<open>Printing IPv6\<close>

definition hex_char :: "nat \<Rightarrow> char" where
  "hex_char d = (if d < 10 then char_of (48 + d) else char_of (87 + d))"

text \<open>\<open>appendHex\<close>: the digits of a 16-bit group without leading zeros.\<close>

definition hex_string :: "nat \<Rightarrow> string" where
  "hex_string x = (if x \<ge> 0x1000 then [hex_char (x div 0x1000)] else []) @
                  (if x \<ge> 0x100 then [hex_char (x div 0x100 mod 16)] else []) @
                  (if x \<ge> 0x10 then [hex_char (x div 0x10 mod 16)] else []) @
                  [hex_char (x mod 16)]"

text \<open>The 16-bit groups of the address.\<close>

fun groups :: "bytes \<Rightarrow> nat list" where
  "groups (h # l # bs) = (unat h * 256 + unat l) # groups bs"
| "groups _ = []"

fun group_bytes :: "nat list \<Rightarrow> bytes" where
  "group_bytes [] = []"
| "group_bytes (g # gs) = word_of_nat (g div 256) # word_of_nat (g mod 256) # group_bytes gs"

text \<open>Length of the run of zero groups that starts at \<open>i\<close>.\<close>

definition zero_run :: "nat list \<Rightarrow> nat \<Rightarrow> nat" where
  "zero_run gs i = length (takeWhile (\<lambda>g. g = 0) (drop i gs))"

text \<open>
  The first longest run of at least two zero groups, as start and length; length 0 when
  there is none (the source starts from an empty run at 255).
\<close>

fun best_run :: "nat list \<Rightarrow> nat list \<Rightarrow> nat \<times> nat \<Rightarrow> nat \<times> nat" where
  "best_run gs [] best = best"
| "best_run gs (i # is) (s, l) =
     best_run gs is (if 2 \<le> zero_run gs i \<and> l < zero_run gs i then (i, zero_run gs i) else (s, l))"

fun colon_join :: "nat list \<Rightarrow> string" where
  "colon_join [] = []"
| "colon_join [g] = hex_string g"
| "colon_join (g # gs) = hex_string g @ '':'' @ colon_join gs"

definition v6_string :: "nat list \<Rightarrow> string" where
  "v6_string gs =
     (case best_run gs [0..<8] (255, 0) of (s, l) \<Rightarrow>
        if l = 0 then colon_join gs
        else colon_join (take s gs) @ ''::'' @ colon_join (drop (s + l) gs))"

text \<open>\<open>net.IP.String\<close>\<close>

definition ip_string :: "ip \<Rightarrow> string" where
  "ip_string a =
     (if a = [] then ''<nil>''
      else if \<not> wf_ip a then ''?'' @ concat (map (\<lambda>b. [hex_char (unat b div 16), hex_char (unat b mod 16)]) a)
      else case To4 a of Some b \<Rightarrow> v4_string b | None \<Rightarrow> v6_string (groups a))"

subsection \<open>Parsing\<close>

text \<open>
  \<open>parseIPv4Fields\<close>: \<open>sep\<close> is true at the start and after a dot, \<open>val\<close> and \<open>n\<close> are the value
  and the digit count of the current field, \<open>fs\<close> the fields read so far.
\<close>

fun parse_v4 :: "bool \<Rightarrow> nat \<Rightarrow> nat \<Rightarrow> bytes \<Rightarrow> string \<Rightarrow> bytes option" where
  "parse_v4 sep val n fs [] = (if length fs < 3 then None else Some (fs @ [word_of_nat val]))"
| "parse_v4 sep val n fs (c # cs) =
     (if is_digit c then
        if n = 1 \<and> val = 0 then None
        else let v = val * 10 + digit_val c in
             if v > 255 then None else parse_v4 False v (Suc n) fs cs
      else if c = CHR ''.'' then
        if sep \<or> cs = [] then None
        else if length fs = 3 then None
        else parse_v4 True 0 0 (fs @ [word_of_nat val]) cs
      else None)"

definition hex_val :: "char \<Rightarrow> nat option" where
  "hex_val c = (let x = of_char c in
     if 48 \<le> x \<and> x \<le> 57 then Some (x - 48)
     else if 97 \<le> x \<and> x \<le> 102 then Some (x - 87)
     else if 65 \<le> x \<and> x \<le> 70 then Some (x - 55)
     else None)"

text \<open>The hexadecimal digits at the front: their values and the rest.\<close>

fun hex_span :: "string \<Rightarrow> nat list \<times> string" where
  "hex_span [] = ([], [])"
| "hex_span (c # cs) =
     (case hex_val c of None \<Rightarrow> ([], c # cs)
      | Some d \<Rightarrow> (case hex_span cs of (ds, r) \<Rightarrow> (d # ds, r)))"

definition hex_value :: "nat list \<Rightarrow> nat" where
  "hex_value ds = foldl (\<lambda>acc d. acc * 16 + d) 0 ds"

text \<open>
  The group loop of \<open>parseIPv6\<close>: \<open>ell\<close> is the position of the ellipsis, \<open>a\<close> the bytes stored
  so far. The result is the final ellipsis, bytes and unread text.
\<close>

function parse_groups :: "nat option \<Rightarrow> bytes \<Rightarrow> string \<Rightarrow> (nat option \<times> bytes \<times> string) option" where
  "parse_groups ell a s =
     (if 16 \<le> length a then Some (ell, a, s)
      else case hex_span s of (ds, r) \<Rightarrow>
        if ds = [] \<or> 4 < length ds then None
        else (case r of
          [] \<Rightarrow> Some (ell, a @ group_bytes [hex_value ds], [])
        | c # r1 \<Rightarrow>
            (if c = CHR ''.'' then
               if (ell = None \<and> length a \<noteq> 12) \<or> 16 < length a + 4 then None
               else (case parse_v4 True 0 0 [] s of None \<Rightarrow> None | Some fs \<Rightarrow> Some (ell, a @ fs, []))
             else if c \<noteq> CHR '':'' then None
             else (case r1 of
               [] \<Rightarrow> None
             | c1 # r2 \<Rightarrow>
                 (if c1 = CHR '':'' then
                    if ell \<noteq> None then None
                    else if r2 = [] then Some (Some (length a + 2), a @ group_bytes [hex_value ds], [])
                    else parse_groups (Some (length a + 2)) (a @ group_bytes [hex_value ds]) r2
                  else parse_groups ell (a @ group_bytes [hex_value ds]) r1)))))"
  by pat_completeness auto
termination
  by (relation "measure (\<lambda>(ell, a, s). 16 - length a)") auto

declare parse_groups.simps [simp del]

definition expand :: "(nat option \<times> bytes \<times> string) option \<Rightarrow> ip option" where
  "expand res =
     (case res of None \<Rightarrow> None
      | Some (ell, a, s) \<Rightarrow>
          if s \<noteq> [] then None
          else if length a < 16 then
            (case ell of None \<Rightarrow> None
             | Some e \<Rightarrow> Some (take e a @ replicate (16 - length a) 0 @ drop e a))
          else if ell \<noteq> None then None
          else Some a)"

definition parse_v6 :: "string \<Rightarrow> ip option" where
  "parse_v6 s =
     (case s of
        c0 # c1 # s' \<Rightarrow>
          if c0 = CHR '':'' \<and> c1 = CHR '':'' then
            if s' = [] then Some (replicate 16 0) else expand (parse_groups (Some 0) [] s')
          else expand (parse_groups None [] s)
      | _ \<Rightarrow> expand (parse_groups None [] s))"

text \<open>
  \<open>net.ParseIP\<close>: the first of \<open>.\<close>, \<open>:\<close> and \<open>%\<close> decides the form; the result has 16 bytes.
  An IPv6 zone (after \<open>%\<close>) makes \<open>ParseIP\<close> return nil, as the parser here does, for which
  \<open>%\<close> is no character of an address.
\<close>

definition ParseIP :: "string \<Rightarrow> ip option" where
  "ParseIP s =
     (case dropWhile (\<lambda>c. c \<noteq> CHR ''.'' \<and> c \<noteq> CHR '':'' \<and> c \<noteq> CHR ''%'') s of
        [] \<Rightarrow> None
      | c # _ \<Rightarrow>
          if c = CHR ''.'' then map_option ((@) v4_prefix) (parse_v4 True 0 0 [] s)
          else if c = CHR '':'' then parse_v6 s
          else None)"

subsection \<open>Reading back what was printed\<close>

lemma parse_v4_octet:
  assumes "b < 256"
  shows "parse_v4 sep 0 0 fs (dec_string b @ r) = parse_v4 False b (length (dec_string b)) fs r"
proof -
  consider "b < 10" | "10 \<le> b" "b < 100" | "100 \<le> b" by linarith
  then show ?thesis
  proof cases
    case 1
    then show ?thesis by (simp add: dec_string_1)
  next
    case 2
    then have "b div 10 \<noteq> 0" "b div 10 * 10 + b mod 10 = b" "b div 10 \<le> 9" by auto
    with 2 show ?thesis by (simp add: dec_string_2 Let_def)
  next
    case 3
    have q: "b div 100 = b div 10 div 10" by (simp add: div_mult2_eq [symmetric])
    have "b div 10 \<le> 25" using assms by linarith
    with q 3 have *: "b div 100 \<noteq> 0" "(b div 100 * 10 + b div 10 mod 10) * 10 + b mod 10 = b"
      "b div 100 \<le> 2" "b div 10 mod 10 \<le> 9" "b div 100 * 10 + b div 10 mod 10 \<le> 25"
      by auto
    then show ?thesis using 3 assms
      by (simp add: dec_string_3 Let_def)
  qed
qed

lemma dot_not_digit [simp]: "\<not> is_digit CHR ''.''"
  by (simp add: is_digit_def)

lemma parse_v4_string:
  assumes "length a = 4"
  shows "parse_v4 True 0 0 [] (v4_string a) = Some a"
proof -
  obtain b0 b1 b2 b3 where a: "a = [b0, b1, b2, b3]"
    using assms by (auto simp: length_Suc_conv numeral_eq_Suc)
  have last: "parse_v4 s 0 0 fs (dec_string (unat b)) = parse_v4 False (unat b) (length (dec_string (unat b))) fs []" for s fs and b :: byte
    using parse_v4_octet [OF unat_byte, where r = "[]"] by simp
  show ?thesis
    by (simp add: a v4_string_def parse_v4_octet [OF unat_byte] last)
qed

lemma hex_val_char [simp]: "d < 16 \<Longrightarrow> hex_val (hex_char d) = Some d"
  by (auto simp: hex_val_def hex_char_def Let_def)

lemma hex_span_string:
  assumes "x < 65536" and "r = [] \<or> hex_val (hd r) = None"
  obtains ds where "hex_span (hex_string x @ r) = (ds, r)" and "hex_value ds = x"
    and "ds \<noteq> []" and "length ds \<le> 4"
proof -
  have r: "hex_span r = ([], r)"
    using assms(2) by (cases r) auto
  have *: "x div 4096 < 16" "x div 256 mod 16 < 16" "x div 16 mod 16 < 16" "x mod 16 < 16"
    using assms(1) by auto
  consider "x < 16" | "16 \<le> x" "x < 256" | "256 \<le> x" "x < 4096" | "4096 \<le> x" by linarith
  then show ?thesis
  proof cases
    case 1
    show ?thesis by (rule that [of "[x]"]) (use 1 r in \<open>auto simp: hex_string_def hex_value_def\<close>)
  next
    case 2
    then have "x div 16 mod 16 = x div 16" by simp
    then show ?thesis
      by (intro that [of "[x div 16, x mod 16]"]) (use 2 r in \<open>auto simp: hex_string_def hex_value_def\<close>)
  next
    case 3
    then have "x div 256 mod 16 = x div 256" by simp
    moreover have "x div 256 = x div 16 div 16" by (simp add: div_mult2_eq [symmetric])
    then have "(x div 256 * 16 + x div 16 mod 16) * 16 + x mod 16 = x" by simp
    ultimately show ?thesis
      by (intro that [of "[x div 256, x div 16 mod 16, x mod 16]"]) (use 3 r in \<open>auto simp: hex_string_def hex_value_def\<close>)
  next
    case 4
    have "x div 4096 = x div 16 div 16 div 16" "x div 256 = x div 16 div 16"
      by (simp_all add: div_mult2_eq [symmetric])
    then have "((x div 4096 * 16 + x div 256 mod 16) * 16 + x div 16 mod 16) * 16 + x mod 16 = x" by simp
    with 4 show ?thesis
      by (intro that [of "[x div 4096, x div 256 mod 16, x div 16 mod 16, x mod 16]"]) (use * r in \<open>auto simp: hex_string_def hex_value_def\<close>)
  qed
qed


lemma hex_val_seps [simp]: "hex_val CHR '':'' = None" "hex_val CHR ''.'' = None"
  by (auto simp: hex_val_def)

lemma hex_string_nonempty [simp]: "hex_string x \<noteq> []"
  by (simp add: hex_string_def)

lemma group_bytes_append [simp]: "group_bytes (xs @ ys) = group_bytes xs @ group_bytes ys"
  by (induction xs) auto

lemma length_group_bytes [simp]: "length (group_bytes gs) = 2 * length gs"
  by (induction gs) auto

lemma parse_groups_last:
  assumes "g < 65536" and "length a < 16"
  shows "parse_groups ell a (hex_string g) = Some (ell, a @ group_bytes [g], [])"
proof -
  obtain ds where "hex_span (hex_string g @ []) = (ds, [])" "hex_value ds = g" "ds \<noteq> []" "length ds \<le> 4"
    using hex_span_string [OF assms(1), where r = "[]"] by blast
  then show ?thesis using assms(2)
    by (subst parse_groups.simps) (simp del: group_bytes.simps)
qed

lemma parse_groups_colon:
  assumes "g < 65536" and "length a < 16" and "s \<noteq> []" and "hd s \<noteq> CHR '':''"
  shows "parse_groups ell a (hex_string g @ '':'' @ s) = parse_groups ell (a @ group_bytes [g]) s"
proof -
  obtain ds where "hex_span (hex_string g @ '':'' @ s) = (ds, '':'' @ s)" "hex_value ds = g"
      "ds \<noteq> []" "length ds \<le> 4"
    using hex_span_string [OF assms(1), where r = "'':'' @ s"] by auto
  moreover obtain c s' where "s = c # s'" "c \<noteq> CHR '':''"
    using assms(3,4) by (cases s) auto
  ultimately show ?thesis using assms(2)
    by (subst parse_groups.simps) (simp del: group_bytes.simps)
qed

lemma parse_groups_ellipsis:
  assumes "g < 65536" and "length a < 16"
  shows "parse_groups None a (hex_string g @ ''::'' @ s) =
     (if s = [] then Some (Some (length a + 2), a @ group_bytes [g], [])
      else parse_groups (Some (length a + 2)) (a @ group_bytes [g]) s)"
proof -
  obtain ds where "hex_span (hex_string g @ ''::'' @ s) = (ds, ''::'' @ s)" "hex_value ds = g"
      "ds \<noteq> []" "length ds \<le> 4"
    using hex_span_string [OF assms(1), where r = "''::'' @ s"] by auto
  then show ?thesis using assms(2)
    by (subst parse_groups.simps) (simp del: group_bytes.simps split: list.split)
qed

lemma hex_char_plain: "d < 16 \<Longrightarrow> hex_char d \<noteq> CHR '':'' \<and> hex_char d \<noteq> CHR ''.'' \<and> hex_char d \<noteq> CHR ''%''"
proof -
  assume "d < 16"
  then have "hex_val (hex_char d) = Some d" by simp
  moreover have "hex_val CHR ''%'' = None" by (simp add: hex_val_def)
  ultimately show ?thesis by (metis hex_val_seps option.distinct(1))
qed

lemma hex_string_chars:
  assumes "x < 65536" and "c \<in> set (hex_string x)"
  obtains d where "d < 16" and "c = hex_char d"
proof -
  from assms(2) have "c \<in> hex_char ` {x div 4096, x div 256 mod 16, x div 16 mod 16, x mod 16}"
    by (auto simp: hex_string_def split: if_splits)
  moreover have "{x div 4096, x div 256 mod 16, x div 16 mod 16, x mod 16} \<subseteq> {..<16}"
    using assms(1) by auto
  ultimately show ?thesis using that by blast
qed

lemma hex_string_plain:
  "x < 65536 \<Longrightarrow> c \<in> set (hex_string x) \<Longrightarrow> c \<noteq> CHR '':'' \<and> c \<noteq> CHR ''.'' \<and> c \<noteq> CHR ''%''"
  by (metis hex_string_chars hex_char_plain)

lemma colon_join_Cons: "gs \<noteq> [] \<Longrightarrow> colon_join (g # gs) = hex_string g @ '':'' @ colon_join gs"
  by (cases gs) auto

lemma hd_colon_join: "gs \<noteq> [] \<Longrightarrow> hd (colon_join gs) = hd (hex_string (hd gs))"
  by (cases gs rule: colon_join.cases) auto

lemma colon_join_hd_plain:
  assumes "gs \<noteq> []" and "\<forall>g \<in> set gs. g < 65536"
  shows "hd (colon_join gs) \<noteq> CHR '':''"
proof -
  have "hd gs < 65536" using assms by simp
  then have "hd (hex_string (hd gs)) \<noteq> CHR '':''"
    using hex_string_plain list.set_sel(1) hex_string_nonempty by metis
  with assms(1) show ?thesis by (simp add: hd_colon_join)
qed

lemma colon_join_nonempty [simp]: "colon_join gs = [] \<longleftrightarrow> gs = []"
  by (cases gs rule: colon_join.cases) auto

lemma parse_groups_join:
  "gs \<noteq> [] \<Longrightarrow> \<forall>g \<in> set gs. g < 65536 \<Longrightarrow> length a + 2 * length gs \<le> 16 \<Longrightarrow>
   parse_groups ell a (colon_join gs) = Some (ell, a @ group_bytes gs, [])"
proof (induction gs arbitrary: a rule: colon_join.induct)
  case (3 g g' gs)
  have h: "hd (colon_join (g' # gs)) \<noteq> CHR '':''"
    using "3.prems" by (intro colon_join_hd_plain) auto
  have "parse_groups ell a (colon_join (g # g' # gs)) =
        parse_groups ell (a @ group_bytes [g]) (colon_join (g' # gs))"
    using "3.prems" h by (simp only: colon_join.simps(3)) (rule parse_groups_colon; simp)
  also have "\<dots> = Some (ell, (a @ group_bytes [g]) @ group_bytes (g' # gs), [])"
    using "3.prems" by (intro "3.IH") auto
  finally show ?case by simp
qed (auto simp: parse_groups_last)

lemma parse_groups_join_ellipsis:
  "gs \<noteq> [] \<Longrightarrow> \<forall>g \<in> set gs. g < 65536 \<Longrightarrow> length a + 2 * length gs \<le> 16 \<Longrightarrow>
   parse_groups None a (colon_join gs @ ''::'' @ s) =
     (if s = [] then Some (Some (length a + 2 * length gs), a @ group_bytes gs, [])
      else parse_groups (Some (length a + 2 * length gs)) (a @ group_bytes gs) s)"
proof (induction gs arbitrary: a rule: colon_join.induct)
  case (2 g)
  then show ?case using parse_groups_ellipsis [of g a s] by simp
next
  case (3 g g' gs)
  have "hd (colon_join (g' # gs)) \<noteq> CHR '':''"
    using "3.prems" by (intro colon_join_hd_plain) auto
  then have h: "hd (colon_join (g' # gs) @ ''::'' @ s) \<noteq> CHR '':''" by simp
  have "parse_groups None a (colon_join (g # g' # gs) @ ''::'' @ s) =
        parse_groups None (a @ group_bytes [g]) (colon_join (g' # gs) @ ''::'' @ s)"
    using "3.prems" h parse_groups_colon [of g a "colon_join (g' # gs) @ ''::'' @ s" None] by simp
  also have "\<dots> = (if s = [] then Some (Some (length (a @ group_bytes [g]) + 2 * length (g' # gs)), (a @ group_bytes [g]) @ group_bytes (g' # gs), [])
      else parse_groups (Some (length (a @ group_bytes [g]) + 2 * length (g' # gs))) ((a @ group_bytes [g]) @ group_bytes (g' # gs)) s)"
    using "3.prems" by (intro "3.IH") auto
  finally show ?case by simp
qed auto


subsection \<open>The zero run\<close>

text \<open>What the compression needs of the run it elides: two groups at least, all zero.\<close>

definition run_ok :: "nat list \<Rightarrow> nat \<times> nat \<Rightarrow> bool" where
  "run_ok gs b = (case b of (s, l) \<Rightarrow>
     l = 0 \<or> (2 \<le> l \<and> s + l \<le> length gs \<and> take l (drop s gs) = replicate l 0))"

lemma zero_run_zeros: "take (zero_run gs i) (drop i gs) = replicate (zero_run gs i) 0"
  unfolding zero_run_def
  by (metis (mono_tags, lifting) replicate_eqI set_takeWhileD takeWhile_eq_take length_takeWhile_le)

lemma zero_run_le: "i \<le> length gs \<Longrightarrow> i + zero_run gs i \<le> length gs"
  unfolding zero_run_def
  using length_takeWhile_le [of "\<lambda>g. g = 0" "drop i gs"] by simp

lemma best_run_ok:
  "run_ok gs b \<Longrightarrow> \<forall>i \<in> set is. i \<le> length gs \<Longrightarrow> run_ok gs (best_run gs is b)"
proof (induction gs "is" b rule: best_run.induct)
  case (2 gs i "is" s l)
  have "run_ok gs (i, zero_run gs i)" if "2 \<le> zero_run gs i"
    using that "2.prems" by (auto simp: run_ok_def zero_run_zeros zero_run_le)
  with 2 show ?case by (auto split: if_splits)
qed auto

lemma group_bytes_replicate: "group_bytes (replicate n 0) = replicate (2 * n) 0"
  by (induction n) auto

subsection \<open>Round trip\<close>

lemma parse_v6_plain:
  assumes "length s \<ge> 2" and "hd s \<noteq> CHR '':''"
  shows "parse_v6 s = expand (parse_groups None [] s)"
  using assms by (auto simp: parse_v6_def split: list.split)

lemma parse_v6_double: "s \<noteq> [] \<Longrightarrow> parse_v6 (''::'' @ s) = expand (parse_groups (Some 0) [] s)"
  by (simp add: parse_v6_def)

lemma expand_gap:
  assumes "length a = e" and "length a + length b + n = 16" and "0 < n"
  shows "expand (Some (Some e, a @ b, [])) = Some (a @ replicate n 0 @ b)"
proof -
  have "16 - length (a @ b) = n" "length (a @ b) < 16" using assms by simp_all
  with assms(1) show ?thesis by (simp add: expand_def)
qed

lemma parse_v6_string_run:
  assumes gs: "\<forall>g \<in> set gs. g < 65536" "length gs = 8"
    and run: "2 \<le> l" "s + l \<le> 8" "take l (drop s gs) = replicate l 0"
  shows "parse_v6 (colon_join (take s gs) @ ''::'' @ colon_join (drop (s + l) gs)) = Some (group_bytes gs)"
proof -
  let ?pre = "take s gs" and ?post = "drop (s + l) gs"
  have split: "gs = ?pre @ replicate l 0 @ ?post"
  proof -
    have "drop s gs = replicate l 0 @ ?post"
      using append_take_drop_id [of l "drop s gs"] run(3) by (simp add: add.commute)
    then show ?thesis using append_take_drop_id [of s gs] by simp
  qed
  have lens: "length ?pre = s" "length ?post = 8 - (s + l)" using gs(2) run by auto
  have pre: "\<forall>g \<in> set ?pre. g < 65536" and post: "\<forall>g \<in> set ?post. g < 65536"
    using gs(1) by (auto dest: in_set_takeD in_set_dropD)
  have bytes: "group_bytes gs = group_bytes ?pre @ replicate (2 * l) 0 @ group_bytes ?post"
    using arg_cong [OF split, of group_bytes] by (simp only: group_bytes_append group_bytes_replicate)
  have expand: "expand (Some (Some (2 * s), group_bytes ?pre @ group_bytes ?post, [])) = Some (group_bytes gs)"
    unfolding bytes by (rule expand_gap) (use lens run in auto)
  show ?thesis
  proof (cases "s = 0")
    case True
    show ?thesis
    proof (cases "?post = []")
      case True
      then have "s + l = 8" using lens run by simp
      with \<open>s = 0\<close> have "group_bytes gs = replicate 16 0"
        using bytes True by simp
      with True \<open>s = 0\<close> show ?thesis by (simp add: parse_v6_def)
    next
      case False
      then have "parse_groups (Some 0) [] (colon_join ?post) = Some (Some 0, group_bytes ?post, [])"
        using post lens run parse_groups_join [of ?post "[]" "Some 0"] by simp
      with False \<open>s = 0\<close> expand show ?thesis
        using parse_v6_double [of "colon_join ?post"] by simp
    qed
  next
    case False
    then have ne: "?pre \<noteq> []" using gs(2) by auto
    have "parse_groups None [] (colon_join ?pre @ ''::'' @ colon_join ?post) =
      Some (Some (2 * s), group_bytes ?pre @ group_bytes ?post, [])"
      using parse_groups_join_ellipsis [OF ne pre, of "[]" "colon_join ?post"]
        parse_groups_join [OF _ post, of "group_bytes ?pre" "Some (2 * s)"] lens run gs(2)
      by (cases "?post = []") auto
    moreover have "hd (colon_join ?pre @ ''::'' @ colon_join ?post) \<noteq> CHR '':''"
      using colon_join_hd_plain [OF ne pre] ne by simp
    ultimately show ?thesis
      using expand parse_v6_plain [of "colon_join ?pre @ ''::'' @ colon_join ?post"] by simp
  qed
qed

lemma parse_v6_v6_string:
  assumes "\<forall>g \<in> set gs. g < 65536" "length gs = 8"
  shows "parse_v6 (v6_string gs) = Some (group_bytes gs)"
proof -
  obtain s l where b: "best_run gs [0..<8] (255, 0) = (s, l)" by fastforce
  have "run_ok gs (best_run gs [0..<8] (255, 0))"
    by (rule best_run_ok) (use assms(2) in \<open>auto simp: run_ok_def\<close>)
  with b have ok: "run_ok gs (s, l)" by simp
  show ?thesis
  proof (cases "l = 0")
    case True
    have ne: "gs \<noteq> []" using assms(2) by auto
    from assms(2) obtain g gs' where gs: "gs = g # gs'" "gs' \<noteq> []" by (cases gs; cases "tl gs") auto
    have "length (colon_join gs) \<ge> 2"
      using gs by (cases gs'; cases "hex_string g") auto
    moreover have "parse_groups None [] (colon_join gs) = Some (None, group_bytes gs, [])"
      using parse_groups_join [OF ne assms(1), of "[]" None] assms(2) by simp
    ultimately show ?thesis using b True assms(2)
      by (simp add: v6_string_def parse_v6_plain colon_join_hd_plain [OF ne assms(1)] expand_def)
  next
    case False
    with ok assms(2) have "2 \<le> l" "s + l \<le> 8" "take l (drop s gs) = replicate l 0"
      by (auto simp: run_ok_def)
    from parse_v6_string_run [OF assms this] b False show ?thesis
      by (simp add: v6_string_def)
  qed
qed


lemma length_groups: "length (groups a) = length a div 2"
  by (induction a rule: groups.induct) auto

lemma groups_bound: "g \<in> set (groups a) \<Longrightarrow> g < 65536"
proof (induction a rule: groups.induct)
  case (1 h l bs)
  have "unat h * 256 + unat l < 65536"
    using unat_byte [of h] unat_byte [of l] by linarith
  with 1 show ?case by auto
qed auto

lemma group_bytes_groups: "even (length a) \<Longrightarrow> group_bytes (groups a) = a"
proof (induction a rule: groups.induct)
  case (1 h l bs)
  have "(unat h * 256 + unat l) div 256 = unat h" "(unat h * 256 + unat l) mod 256 = unat l"
    using unat_byte [of l] by simp_all
  with 1 show ?case by simp
qed auto

lemma v6_string_colon:
  assumes "\<forall>g \<in> set gs. g < 65536" and "length gs = 8"
  shows "\<exists>r. dropWhile (\<lambda>c. c \<noteq> CHR ''.'' \<and> c \<noteq> CHR '':'' \<and> c \<noteq> CHR ''%'') (v6_string gs) = CHR '':'' # r"
proof -
  let ?P = "\<lambda>c. c \<noteq> CHR ''.'' \<and> c \<noteq> CHR '':'' \<and> c \<noteq> CHR ''%''"
  have hex: "dropWhile ?P (hex_string g @ s) = dropWhile ?P s" if "g < 65536" for g s
    by (rule dropWhile_append2) (use that hex_string_plain in blast)
  have join: "\<exists>r. dropWhile ?P (colon_join hs @ CHR '':'' # s) = CHR '':'' # r"
    if "\<forall>g \<in> set hs. g < 65536" for hs s
    using that by (cases hs rule: colon_join.cases) (auto simp: hex)
  obtain s l where b: "best_run gs [0..<8] (255, 0) = (s, l)" by fastforce
  show ?thesis
  proof (cases "l = 0")
    case True
    obtain g g' gs' where "gs = g # g' # gs'"
      using assms(2) by (cases gs; cases "tl gs") auto
    with assms b True show ?thesis by (simp add: v6_string_def hex)
  next
    case False
    have "\<forall>g \<in> set (take s gs). g < 65536" using assms(1) by (auto dest: in_set_takeD)
    from join [OF this] b False show ?thesis by (simp add: v6_string_def)
  qed
qed

lemma v4_string_dot:
  "\<exists>r. dropWhile (\<lambda>c. c \<noteq> CHR ''.'' \<and> c \<noteq> CHR '':'' \<and> c \<noteq> CHR ''%'') (v4_string a) = CHR ''.'' # r"
proof -
  have "c \<noteq> CHR ''.'' \<and> c \<noteq> CHR '':'' \<and> c \<noteq> CHR ''%''" if "c \<in> set (dec_string n)" for c n
    using dec_string_digits [OF that] by (auto simp: is_digit_def)
  then show ?thesis
    by (simp add: v4_string_def dropWhile_append2)
qed

lemma ParseIP_ip_string:
  assumes "wf_ip a"
  shows "ParseIP (ip_string a) = To16 a"
proof (cases "To4 a")
  case None
  with assms have len: "length a = 16" by (rule To4_None_wf)
  have g: "\<forall>g \<in> set (groups a). g < 65536" "length (groups a) = 8"
    using groups_bound len by (auto simp: length_groups)
  obtain r where "dropWhile (\<lambda>c. c \<noteq> CHR ''.'' \<and> c \<noteq> CHR '':'' \<and> c \<noteq> CHR ''%'') (v6_string (groups a)) = CHR '':'' # r"
    using v6_string_colon [OF g] by blast
  moreover have "ip_string a = v6_string (groups a)"
    using assms None len by (auto simp: ip_string_def)
  ultimately show ?thesis
    using parse_v6_v6_string [OF g] len by (simp add: ParseIP_def group_bytes_groups To16_def)
next
  case (Some b)
  obtain r where "dropWhile (\<lambda>c. c \<noteq> CHR ''.'' \<and> c \<noteq> CHR '':'' \<and> c \<noteq> CHR ''%'') (v4_string b) = CHR ''.'' # r"
    using v4_string_dot by blast
  moreover have "ip_string a = v4_string b"
    using assms Some by (auto simp: ip_string_def wf_ip_def)
  ultimately show ?thesis
    using parse_v4_string [OF To4_length [OF Some]] To4_To16 [OF Some] by (simp add: ParseIP_def)
qed


subsection \<open>The text determines the address\<close>

lemma ip_string_cong:
  assumes "wf_ip a" and "wf_ip b" and "To16 a = To16 b"
  shows "ip_string a = ip_string b"
proof -
  have "ip_norm a = ip_norm b"
    using assms ip_equal_iff_To16 ip_equal_iff_norm by blast
  moreover have "ip_string x = ip_string (ip_norm x)" if "wf_ip x" for x
    using that by (auto simp: ip_string_def ip_norm_def wf_ip_def To4_def split: option.split)
  ultimately show ?thesis using assms(1,2) by metis
qed

interpretation ip_text: text_form ip_string ParseIP "\<lambda>a. the (To16 a)" wf_ip
proof unfold_locales
  fix a assume "wf_ip a"
  then show "ParseIP (ip_string a) = Some (the (To16 a))"
    using To16_wf ParseIP_ip_string by fastforce
next
  fix a b assume "wf_ip a" "wf_ip b" "the (To16 a) = the (To16 b)"
  then show "ip_string a = ip_string b"
    using To16_wf by (metis ip_string_cong option.sel)
qed

lemma ip_string_eq_iff:
  assumes "wf_ip a" and "wf_ip b"
  shows "ip_string a = ip_string b \<longleftrightarrow> ip_equal a b"
  using ip_text.enc_eq_iff [OF assms] To16_wf [OF assms(1)] To16_wf [OF assms(2)]
  by (auto simp: ip_equal_iff_To16 [OF assms])

end
