(* ===== verification/Conn_Key.thy ===== *)
theory Conn_Key
  imports Net_IP_Text
begin

text \<open>
  The flow key of \<open>go/connection.go\<close>: \<open>ConnectionKey\<close>, \<open>NewConnectionKey\<close>, its \<open>String\<close>
  and the digit loop \<open>itoa\<close> (with the array write of every iteration checked). The key of a
  flow is made of address texts, so that it identifies the flow rests on the round trip of
  \<open>Net_IP_Text\<close>.
\<close>

definition ProtocolTCP :: byte where "ProtocolTCP = 6"
definition ProtocolUDP :: byte where "ProtocolUDP = 17"
definition ProtocolICMP :: byte where "ProtocolICMP = 1"
definition ProtocolICMPv6 :: byte where "ProtocolICMPv6 = 58"

lemmas protocol_defs = ProtocolTCP_def ProtocolUDP_def ProtocolICMP_def ProtocolICMPv6_def

record ConnectionKey =
  SrcIP :: string
  SrcPort :: u16
  DstIP :: string
  DstPort :: u16
  Proto :: byte

definition NewConnectionKey :: "ip \<Rightarrow> u16 \<Rightarrow> ip \<Rightarrow> u16 \<Rightarrow> byte \<Rightarrow> ConnectionKey" where
  "NewConnectionKey srcIP srcPort dstIP dstPort proto =
     \<lparr>SrcIP = ip_string srcIP, SrcPort = srcPort, DstIP = ip_string dstIP, DstPort = dstPort,
      Proto = proto\<rparr>"

text \<open>
  The loop of \<open>itoa\<close>: \<open>i\<close> is the index after the decrement of the previous iteration, and
  the write \<open>buf[i]\<close> panics when the array is used up.
\<close>

function itoa_loop :: "u16 \<Rightarrow> nat \<Rightarrow> string \<Rightarrow> (nat \<times> string) go" where
  "itoa_loop n i buf =
     (if n = 0 then Some (i, buf)
      else if i = 0 \<or> length buf < i then None
      else itoa_loop (n div 10) (i - 1) (buf[i - 1 := char_of (unat (ucast (48 + n mod 10) :: byte))]))"
  by pat_completeness auto
termination
  by (relation "measure (\<lambda>(n, i, buf). i)") auto

declare itoa_loop.simps [simp del]

definition itoa :: "u16 \<Rightarrow> string go" where
  "itoa n =
     (if n = 0 then Some ''0''
      else do { (i, buf) \<leftarrow> itoa_loop n 6 (replicate 6 (char_of (0::nat))); Some (drop i buf) })"

definition key_string :: "ConnectionKey \<Rightarrow> string go" where
  "key_string k =
     do { let protoStr = (if Proto k = ProtocolTCP then ''tcp''
                          else if Proto k = ProtocolUDP then ''udp'' else ''unknown'');
          sp \<leftarrow> itoa (SrcPort k);
          dp \<leftarrow> itoa (DstPort k);
          Some (protoStr @ ''://'' @ SrcIP k @ '':'' @ sp @ ''-'' @ DstIP k @ '':'' @ dp) }"

subsection \<open>The digit loop\<close>

lemma itoa_digit: "char_of (unat (ucast (48 + n mod 10 :: u16) :: byte)) = digit_char (unat n mod 10)"
proof -
  have "unat n mod 10 < 10" by simp
  then have "unat (48 + n mod 10) = 48 + unat n mod 10"
    by (simp add: unat_word_ariths)
  then show ?thesis
    using \<open>unat n mod 10 < 10\<close> by (simp add: digit_char_def unsigned_ucast_eq take_bit_eq_mod)
qed

lemma itoa_loop_dec:
  assumes "unat n < 10 ^ i" and "i \<le> length buf"
  shows "\<exists>buf'. length buf' = length buf \<and> (\<exists>j \<le> i. itoa_loop n i buf = Some (j, buf') \<and>
     drop j buf' = (if n = 0 then [] else dec_string (unat n)) @ drop i buf)"
  using assms
proof (induction n i buf rule: itoa_loop.induct)
  case (1 n i buf)
  show ?case
  proof (cases "n = 0")
    case True
    then show ?thesis by (subst itoa_loop.simps) auto
  next
    case False
    then have "0 < unat n" by (simp add: unat_gt_0)
    with "1.prems" have i: "0 < i" by (cases i) auto
    let ?buf = "buf[i - 1 := digit_char (unat n mod 10)]"
    have n: "unat (n div 10) = unat n div 10" by (simp add: unat_div)
    have "(10 :: nat) ^ i = 10 * 10 ^ (i - 1)" using i by (cases i) auto
    then have "unat (n div 10) < 10 ^ (i - 1)" using "1.prems"(1) n by auto
    moreover have "i - Suc 0 \<le> length buf" using "1.prems"(2) by simp
    ultimately obtain buf' j where
      b: "length buf' = length buf" "j \<le> i - 1" "itoa_loop (n div 10) (i - 1) ?buf = Some (j, buf')"
      "drop j buf' = (if n div 10 = 0 then [] else dec_string (unat (n div 10))) @ drop (i - 1) ?buf"
      using "1.IH" False i "1.prems" by (auto simp: itoa_digit)
    have "drop (i - 1) ?buf = digit_char (unat n mod 10) # drop i buf"
      using i "1.prems"(2) by (cases i) (auto simp: drop_update_swap Cons_nth_drop_Suc [symmetric])
    moreover have "n div 10 = 0 \<longleftrightarrow> unat n < 10"
      by (metis n div_eq_0_iff unat_eq_zero zero_neq_numeral)
    ultimately have "drop j buf' = dec_string (unat n) @ drop i buf"
      using b(4) n by (subst dec_string.simps) auto
    with b False i "1.prems" show ?thesis
      by (subst itoa_loop.simps) (auto simp: itoa_digit)
  qed
qed

lemma itoa_dec: "itoa n = Some (dec_string (unat n))"
proof -
  have "unat n < 10 ^ 6" using less_trans [OF unat_u16 [of n], of "10 ^ 6"] by simp
  from itoa_loop_dec [OF this, of "replicate 6 (char_of (0::nat))"]
  show ?thesis
    by (auto simp: itoa_def dec_string_1 digit_char_0)
qed

text \<open>
  \<open>itoa\<close> prints every 16-bit port in decimal, as \<open>strconv\<close> would, and its writes into the
  6-byte array never run past the front of the array (no panic, for any port).
\<close>

theorem itoa_decimal:
  "itoa n = Some (dec_string (unat n)) \<and> dec_value_from 0 (dec_string (unat n)) = unat n"
  by (simp add: itoa_dec)

subsection \<open>What a key identifies\<close>

lemma NewConnectionKey_eq_iff:
  assumes "wf_ip s" "wf_ip d" "wf_ip s'" "wf_ip d'"
  shows "NewConnectionKey s sp d dp pr = NewConnectionKey s' sp' d' dp' pr' \<longleftrightarrow>
     ip_equal s s' \<and> sp = sp' \<and> ip_equal d d' \<and> dp = dp' \<and> pr = pr'"
  using assms by (auto simp: NewConnectionKey_def ip_string_eq_iff)

text \<open>
  C29: the key of a flow identifies the flow: two flows between addresses of the netstack
  (4 or 16 bytes) have the same key exactly when source and destination are equal as
  addresses, the ports agree and the protocol agrees. So a decision cached under a key is
  never found for another destination, source port or protocol.
\<close>

theorem flow_key_identity:
  assumes "wf_ip s" "wf_ip d" "wf_ip s'" "wf_ip d'"
  shows "NewConnectionKey s sp d dp pr = NewConnectionKey s' sp' d' dp' pr' \<longleftrightarrow>
     ip_equal s s' \<and> sp = sp' \<and> ip_equal d d' \<and> dp = dp' \<and> pr = pr'"
  using assms by (rule NewConnectionKey_eq_iff)

lemma flow_key_identity_witness:
  "NewConnectionKey [10, 1, 2, 3] 40000 [1, 1, 1, 1] 53 ProtocolUDP \<noteq>
   NewConnectionKey [10, 1, 2, 3] 40000 [9, 9, 9, 9] 53 ProtocolUDP"
  using flow_key_identity [of "[10, 1, 2, 3]" "[1, 1, 1, 1]" "[10, 1, 2, 3]" "[9, 9, 9, 9]"
      40000 53 ProtocolUDP 40000 53 ProtocolUDP]
  by (simp add: wf_ip_def ip_equal_def)

text \<open>
  Keys are directional. The reverse direction of a flow has another key unless both
  endpoints are the same address and port, although the comment on \<open>ConnectionKey\<close>
  promises one key regardless of direction.
\<close>

theorem reverse_flow_key:
  assumes "wf_ip a" "wf_ip b"
  shows "NewConnectionKey a p b q pr = NewConnectionKey b q a p pr \<longleftrightarrow> ip_equal a b \<and> p = q"
  using NewConnectionKey_eq_iff [OF assms assms(2,1), of p q pr q p pr] assms
  by (auto simp: ip_equal_iff_To16)

lemma reverse_flow_key_witness:
  "NewConnectionKey [10, 0, 0, 2] 1000 [8, 8, 8, 8] 53 ProtocolUDP \<noteq>
   NewConnectionKey [8, 8, 8, 8] 53 [10, 0, 0, 2] 1000 ProtocolUDP"
  using reverse_flow_key [of "[10, 0, 0, 2]" "[8, 8, 8, 8]" 1000 53 ProtocolUDP]
  by (simp add: wf_ip_def ip_equal_def)

end
