(* ===== verification/LRU_Cache.thy ===== *)
theory LRU_Cache
  imports Conn_Key "HOL-Library.AList"
begin

text \<open>
  The LRU cache with TTL of \<open>go/connection.go\<close>: a map from keys to list elements, and a
  doubly linked list (\<open>container/list\<close>) of the elements, most recently used first. Elements
  are pointers: \<open>lst\<close> holds them in list order, \<open>heap\<close> gives the \<open>cacheEntry\<close> each points to
  (shared between map and list, mutated in place by \<open>Add\<close>), \<open>next_ptr\<close> is the next
  allocation. Times are nanoseconds; \<open>now\<close> is what \<open>time.Now\<close> returns in the call. Every
  operation holds the mutex for its whole body, so it is one atomic step.

  The abstraction \<open>entries\<close> is the association list of the cache in recency order; every
  operation refines a short list function (\<open>spec_get\<close>, \<open>spec_add\<close>, \<open>AList.delete\<close>). The
  locale \<open>verdict_cache\<close> is the contract the validation hook relies on.
\<close>

subsection \<open>State and operations\<close>

record ValidationResult =
  Allowed :: bool
  UID :: int
  Expired :: time

record cacheEntry =
  ekey :: ConnectionKey
  eresult :: ValidationResult

record LRUCache =
  capacity :: int
  ttl :: time
  cache :: "ConnectionKey \<rightharpoonup> nat"
  lst :: "nat list"
  heap :: "nat \<Rightarrow> cacheEntry"
  next_ptr :: nat

definition zero_entry :: cacheEntry where
  "zero_entry = \<lparr>ekey = \<lparr>SrcIP = [], SrcPort = 0, DstIP = [], DstPort = 0, Proto = 0\<rparr>,
                 eresult = \<lparr>Allowed = False, UID = 0, Expired = 0\<rparr>\<rparr>"

definition NewLRUCache :: "int \<Rightarrow> time \<Rightarrow> LRUCache" where
  "NewLRUCache cap t =
     \<lparr>capacity = cap, ttl = t, cache = Map.empty, lst = [], heap = (\<lambda>_. zero_entry), next_ptr = 0\<rparr>"

text \<open>\<open>list.MoveToFront\<close>: no effect on an element that is not in the list.\<close>

definition MoveToFront :: "nat \<Rightarrow> nat list \<Rightarrow> nat list" where
  "MoveToFront p xs = (if p \<in> set xs then p # remove1 p xs else xs)"

definition removeElement :: "nat \<Rightarrow> LRUCache \<Rightarrow> LRUCache" where
  "removeElement p c =
     c\<lparr>cache := (cache c)(ekey (heap c p) := None), lst := remove1 p (lst c)\<rparr>"

definition Get :: "time \<Rightarrow> ConnectionKey \<Rightarrow> LRUCache \<Rightarrow> ValidationResult option \<times> LRUCache" where
  "Get now k c =
     (case cache c k of
        Some p \<Rightarrow>
          (let entry = heap c p in
           if now < Expired (eresult entry)
           then (Some (eresult entry), c\<lparr>lst := MoveToFront p (lst c)\<rparr>)
           else (None, removeElement p c))
      | None \<Rightarrow> (None, c))"

definition Add :: "time \<Rightarrow> ConnectionKey \<Rightarrow> ValidationResult \<Rightarrow> LRUCache \<Rightarrow> LRUCache" where
  "Add now k r c =
     (let result = r\<lparr>Expired := now + ttl c\<rparr> in
      case cache c k of
        Some p \<Rightarrow>
          c\<lparr>heap := (heap c)(p := (heap c p)\<lparr>eresult := result\<rparr>), lst := MoveToFront p (lst c)\<rparr>
      | None \<Rightarrow>
          (let p = next_ptr c;
               c1 = c\<lparr>heap := (heap c)(p := \<lparr>ekey = k, eresult = result\<rparr>), lst := p # lst c,
                      cache := (cache c)(k \<mapsto> p), next_ptr := Suc p\<rparr>
           in if int (length (lst c1)) > capacity c1
              then (if lst c1 = [] then c1 else removeElement (last (lst c1)) c1)
              else c1))"

definition Remove :: "ConnectionKey \<Rightarrow> LRUCache \<Rightarrow> LRUCache" where
  "Remove k c = (case cache c k of Some p \<Rightarrow> removeElement p c | None \<Rightarrow> c)"

definition Len :: "LRUCache \<Rightarrow> nat" where
  "Len c = length (lst c)"

subsection \<open>Invariant and abstraction\<close>

text \<open>
  Map and list agree: exactly the listed elements are in the map, under their own key; no
  element twice; the capacity is kept (a capacity below zero holds nothing, as zero does).
\<close>

definition lru_links :: "LRUCache \<Rightarrow> bool" where
  "lru_links c \<longleftrightarrow> distinct (lst c) \<and> (\<forall>p \<in> set (lst c). p < next_ptr c) \<and>
     (\<forall>k p. cache c k = Some p \<longleftrightarrow> p \<in> set (lst c) \<and> ekey (heap c p) = k)"

definition lru_ok :: "LRUCache \<Rightarrow> bool" where
  "lru_ok c \<longleftrightarrow> lru_links c \<and> length (lst c) \<le> nat (capacity c)"

definition entry_of :: "(nat \<Rightarrow> cacheEntry) \<Rightarrow> nat \<Rightarrow> ConnectionKey \<times> ValidationResult" where
  "entry_of h p = (ekey (h p), eresult (h p))"

definition entries :: "LRUCache \<Rightarrow> (ConnectionKey \<times> ValidationResult) list" where
  "entries c = map (entry_of (heap c)) (lst c)"

definition spec_get :: "time \<Rightarrow> 'k \<Rightarrow> ('k \<times> ValidationResult) list \<Rightarrow>
    ValidationResult option \<times> ('k \<times> ValidationResult) list" where
  "spec_get now k xs =
     (case map_of xs k of
        None \<Rightarrow> (None, xs)
      | Some r \<Rightarrow> if now < Expired r then (Some r, (k, r) # AList.delete k xs)
                  else (None, AList.delete k xs))"

definition spec_add :: "int \<Rightarrow> 'k \<Rightarrow> ValidationResult \<Rightarrow> ('k \<times> ValidationResult) list \<Rightarrow>
    ('k \<times> ValidationResult) list" where
  "spec_add cap k r xs = take (nat cap) ((k, r) # AList.delete k xs)"

lemma lru_linksD:
  assumes "lru_links c"
  shows "distinct (lst c)" "p \<in> set (lst c) \<Longrightarrow> p < next_ptr c"
    "cache c k = Some p \<Longrightarrow> p \<in> set (lst c)" "cache c k = Some p \<Longrightarrow> ekey (heap c p) = k"
    "p \<in> set (lst c) \<Longrightarrow> cache c (ekey (heap c p)) = Some p"
  using assms by (auto simp: lru_links_def)

lemma lru_keys_distinct:
  assumes "lru_links c"
  shows "distinct (map fst (entries c))"
proof -
  have "inj_on (\<lambda>p. ekey (heap c p)) (set (lst c))"
    using lru_linksD(5) [OF assms] by (intro inj_onI) (metis option.inject)
  then show ?thesis
    using lru_linksD(1) [OF assms] by (simp add: entries_def entry_of_def comp_def distinct_map)
qed

lemma lru_links_New [simp]: "lru_links (NewLRUCache cap t)"
  by (simp add: lru_links_def NewLRUCache_def)

lemma length_entries: "length (entries c) = Len c"
  by (simp add: entries_def Len_def)

text \<open>A lookup in the map is a lookup in the recency list.\<close>

lemma cache_entries:
  assumes "lru_links c"
  shows "map_of (entries c) k = map_option (\<lambda>p. eresult (heap c p)) (cache c k)"
proof (cases "cache c k")
  case None
  then have "\<forall>p \<in> set (lst c). ekey (heap c p) \<noteq> k"
    using lru_linksD(5) [OF assms] by (metis option.distinct(1))
  with None show ?thesis
    by (auto simp: entries_def entry_of_def map_of_eq_None_iff)
next
  case (Some p)
  then have "(k, eresult (heap c p)) \<in> set (entries c)"
    using lru_linksD(3,4) [OF assms Some] by (auto simp: entries_def entry_of_def)
  with Some show ?thesis
    using map_of_is_SomeI [OF lru_keys_distinct [OF assms]] by simp
qed


subsection \<open>Refinement of the recency list\<close>

lemma entries_remove1:
  assumes "lru_links c" and "p \<in> set (lst c)"
  shows "map (entry_of (heap c)) (remove1 p (lst c)) = AList.delete (ekey (heap c p)) (entries c)"
proof -
  have inj: "q \<in> set (lst c) \<Longrightarrow> ekey (heap c p) = ekey (heap c q) \<longleftrightarrow> p = q" for q
    using lru_linksD(5) [OF assms(1)] assms(2) by (metis option.inject)
  have "AList.delete (ekey (heap c p)) (entries c) = map (entry_of (heap c)) (filter (\<lambda>q. p \<noteq> q) (lst c))"
    unfolding entries_def AList.delete_eq filter_map
    by (rule arg_cong [where f = "map (entry_of (heap c))"], rule filter_cong)
      (auto simp: entry_of_def inj)
  then show ?thesis
    using lru_linksD(1) [OF assms(1)] by (simp add: distinct_remove1_removeAll removeAll_filter_not_eq)
qed

lemma entries_delete_absent:
  "lru_links c \<Longrightarrow> cache c k = None \<Longrightarrow> AList.delete k (entries c) = entries c"
  using cache_entries [of c k] by (auto simp: map_of_eq_None_iff intro: AList.delete_idem)

lemma entries_removeElement:
  "lru_links c \<Longrightarrow> p \<in> set (lst c) \<Longrightarrow>
   entries (removeElement p c) = AList.delete (ekey (heap c p)) (entries c)"
  using entries_remove1 [of c p] by (simp add: entries_def removeElement_def entry_of_def)

lemma lru_links_removeElement:
  assumes "lru_links c" and "p \<in> set (lst c)"
  shows "lru_links (removeElement p c)"
proof -
  note D = lru_linksD [OF assms(1)]
  have "cache c k = Some q \<and> k \<noteq> ekey (heap c p) \<longleftrightarrow> q \<in> set (remove1 p (lst c)) \<and> ekey (heap c q) = k" for k q
    using D(3,4) [of k q] D(5) [of q] D(5) [OF assms(2)] by (auto simp: set_remove1_eq [OF D(1)])
  moreover have "q \<in> set (remove1 p (lst c)) \<Longrightarrow> q < next_ptr c" for q
    using D(2) notin_set_remove1 by metis
  ultimately show ?thesis
    using D(1) by (auto simp: lru_links_def removeElement_def)
qed

lemma lru_links_MoveToFront:
  assumes "lru_links c" and "p \<in> set (lst c)"
  shows "lru_links (c\<lparr>lst := MoveToFront p (lst c)\<rparr>)"
  using assms by (auto simp: lru_links_def MoveToFront_def)

lemma entries_MoveToFront:
  "lru_links c \<Longrightarrow> p \<in> set (lst c) \<Longrightarrow>
   entries (c\<lparr>lst := MoveToFront p (lst c)\<rparr>) =
   entry_of (heap c) p # AList.delete (ekey (heap c p)) (entries c)"
  using entries_remove1 [of c p] by (simp add: entries_def MoveToFront_def entry_of_def)

text \<open>Overwriting the result of a listed element in place.\<close>

lemma lru_links_overwrite:
  assumes "lru_links c" and "p \<in> set (lst c)"
  shows "lru_links (c\<lparr>heap := (heap c)(p := (heap c p)\<lparr>eresult := r\<rparr>)\<rparr>)"
  using assms by (auto simp: lru_links_def)

lemma entries_overwrite_others:
  assumes "lru_links c" and "p \<in> set (lst c)"
  shows "AList.delete (ekey (heap c p)) (entries (c\<lparr>heap := (heap c)(p := (heap c p)\<lparr>eresult := r\<rparr>)\<rparr>)) =
         AList.delete (ekey (heap c p)) (entries c)"
  by (auto simp: entries_def AList.delete_eq filter_map comp_def entry_of_def intro!: map_cong filter_cong)

lemma lru_links_insert:
  assumes "lru_links c" and "cache c k = None"
  shows "lru_links (c\<lparr>heap := (heap c)(next_ptr c := \<lparr>ekey = k, eresult = r\<rparr>), lst := next_ptr c # lst c,
                   cache := (cache c)(k \<mapsto> next_ptr c), next_ptr := Suc (next_ptr c)\<rparr>)"
proof -
  note D = lru_linksD [OF assms(1)]
  have new: "next_ptr c \<notin> set (lst c)" using D(2) by blast
  have k: "p \<in> set (lst c) \<Longrightarrow> ekey (heap c p) \<noteq> k" for p
    using D(5) assms(2) by (metis option.distinct(1))
  show ?thesis
    using D(1-5) new k by (fastforce simp: lru_links_def less_Suc_eq)
qed

lemma map_entry_of_fresh:
  "p \<notin> set xs \<Longrightarrow> map (entry_of (h(p := e))) xs = map (entry_of h) xs"
  by (auto simp: entry_of_def)

lemma length_delete_present:
  "map_of xs k = Some v \<Longrightarrow> length (AList.delete k xs) < length xs"
  unfolding AList.delete_eq
  by (rule length_filter_less [OF map_of_SomeD]) auto

lemma delete_last:
  assumes "distinct (map fst xs)" and "xs \<noteq> []"
  shows "AList.delete (fst (last xs)) xs = butlast xs"
proof -
  obtain ys y where "xs = ys @ [y]" using assms(2) by (metis append_butlast_last_id)
  with assms(1) show ?thesis by (cases y) (force simp: AList.delete_eq intro!: filter_True)
qed

lemma fst_last_entries:
  "lst c \<noteq> [] \<Longrightarrow> fst (last (entries c)) = ekey (heap c (last (lst c)))"
  by (simp add: entries_def last_map entry_of_def)

lemma lru_ok_New [simp]: "lru_ok (NewLRUCache cap t)"
  by (simp add: lru_ok_def NewLRUCache_def lru_links_def)

text \<open>Get refines its list function and keeps the invariant.\<close>

lemma Get_refines:
  assumes ok: "lru_ok c" and get: "Get now k c = (res, c')"
  shows "spec_get now k (entries c) = (res, entries c') \<and> lru_ok c'"
proof (cases "cache c k")
  case None
  with assms show ?thesis by (auto simp: Get_def spec_get_def cache_entries lru_ok_def)
next
  case (Some p)
  from ok have links: "lru_links c" by (simp add: lru_ok_def)
  note p = lru_linksD(3,4) [OF links Some]
  show ?thesis
    using ok get Some p entries_MoveToFront [OF links p(1)] entries_removeElement [OF links p(1)]
      lru_links_MoveToFront [OF links p(1)] lru_links_removeElement [OF links p(1)]
      length_remove1 [of p "lst c"] length_pos_if_in_set [OF p(1)]
    by (auto simp: Get_def spec_get_def cache_entries lru_ok_def Let_def entry_of_def
          MoveToFront_def removeElement_def split: if_splits)
qed

text \<open>Add on a present key rewrites the entry in place and moves it to the front.\<close>

lemma Add_present:
  fixes r :: ValidationResult and now :: time
  assumes ok: "lru_ok c" and Some: "cache c k = Some p"
  defines "r' \<equiv> r\<lparr>Expired := now + ttl c\<rparr>"
  shows "entries (Add now k r c) = spec_add (capacity c) k r' (entries c)" "lru_ok (Add now k r c)"
proof -
  from ok have links: "lru_links c" by (simp add: lru_ok_def)
  note p = lru_linksD(3,4) [OF links Some]
  let ?c = "c\<lparr>heap := (heap c)(p := (heap c p)\<lparr>eresult := r'\<rparr>)\<rparr>"
  have links': "lru_links ?c" and mem: "p \<in> set (lst ?c)"
    using lru_links_overwrite [OF links p(1)] p(1) by auto
  have Add: "Add now k r c = ?c\<lparr>lst := MoveToFront p (lst ?c)\<rparr>"
    using Some by (simp add: Add_def r'_def)
  have "length (AList.delete k (entries c)) < length (entries c)"
    by (rule length_delete_present [where v = "eresult (heap c p)"])
      (simp add: cache_entries [OF links] Some)
  then have "Suc (length (AList.delete k (entries c))) \<le> nat (capacity c)"
    using ok by (simp add: length_entries Len_def lru_ok_def)
  moreover have "entries (Add now k r c) = (k, r') # AList.delete k (entries c)"
    using entries_MoveToFront [OF links' mem] entries_overwrite_others [OF links p(1), of r'] p(2)
    by (simp add: Add entry_of_def)
  ultimately show "entries (Add now k r c) = spec_add (capacity c) k r' (entries c)"
    by (simp add: spec_add_def)
  show "lru_ok (Add now k r c)"
    using lru_links_MoveToFront [OF links' mem] ok length_pos_if_in_set [OF p(1)]
    by (auto simp: Add lru_ok_def MoveToFront_def length_remove1)
qed

text \<open>Add on a new key pushes an element to the front and evicts the last one when full.\<close>

lemma Add_absent:
  fixes r :: ValidationResult and now :: time
  assumes ok: "lru_ok c" and None: "cache c k = None"
  defines "r' \<equiv> r\<lparr>Expired := now + ttl c\<rparr>"
  shows "entries (Add now k r c) = spec_add (capacity c) k r' (entries c)" "lru_ok (Add now k r c)"
proof -
  from ok have links: "lru_links c" and len: "length (lst c) \<le> nat (capacity c)"
    by (simp_all add: lru_ok_def)
  let ?p = "next_ptr c"
  let ?c = "c\<lparr>heap := (heap c)(?p := \<lparr>ekey = k, eresult = r'\<rparr>), lst := ?p # lst c,
              cache := (cache c)(k \<mapsto> ?p), next_ptr := Suc ?p\<rparr>"
  have links': "lru_links ?c" by (rule lru_links_insert [OF links None])
  have new: "?p \<notin> set (lst c)" using lru_linksD(2) [OF links] by blast
  have del: "AList.delete k (entries c) = entries c"
    using entries_delete_absent [OF links None] .
  have ent: "entries ?c = (k, r') # entries c"
    using map_entry_of_fresh [OF new] by (simp add: entries_def entry_of_def)
  have Add: "Add now k r c = (if int (Suc (length (lst c))) > capacity c then removeElement (last (lst ?c)) ?c else ?c)"
    using None by (simp add: Add_def Let_def r'_def)
  show "entries (Add now k r c) = spec_add (capacity c) k r' (entries c)"
  proof (cases "int (Suc (length (lst c))) > capacity c")
    case False
    then have "take (nat (capacity c)) ((k, r') # entries c) = (k, r') # entries c"
      by (intro take_all) (simp add: length_entries Len_def)
    with False show ?thesis using ent del by (simp only: Add spec_add_def if_False)
  next
    case True
    have mem: "last (lst ?c) \<in> set (lst ?c)" by (rule last_in_set) simp
    have "fst (last (entries ?c)) = ekey (heap ?c (last (lst ?c)))"
      by (rule fst_last_entries) simp
    then have "entries (removeElement (last (lst ?c)) ?c) = butlast (entries ?c)"
      using entries_removeElement [OF links' mem] delete_last [OF lru_keys_distinct [OF links']] ent by simp
    moreover have "length (entries ?c) = Suc (nat (capacity c))"
      using True len by (simp add: ent length_entries Len_def)
    ultimately show ?thesis using True ent del
      by (simp add: Add spec_add_def butlast_conv_take)
  qed
  show "lru_ok (Add now k r c)"
    using links' lru_links_removeElement [OF links', of "last (lst ?c)"] len
    by (auto simp: Add lru_ok_def removeElement_def length_remove1 last_in_set)
qed


lemma Add_refines:
  assumes "lru_ok c"
  shows "entries (Add now k r c) = spec_add (capacity c) k (r\<lparr>Expired := now + ttl c\<rparr>) (entries c)"
    and "lru_ok (Add now k r c)"
  using assms by (cases "cache c k"; simp add: Add_present Add_absent)+

lemma Remove_refines:
  assumes "lru_ok c"
  shows "entries (Remove k c) = AList.delete k (entries c)" and "lru_ok (Remove k c)"
proof -
  from assms have links: "lru_links c" by (simp add: lru_ok_def)
  have "entries (Remove k c) = AList.delete k (entries c) \<and> lru_ok (Remove k c)"
  proof (cases "cache c k")
    case None
    with assms show ?thesis by (simp add: Remove_def entries_delete_absent [OF links])
  next
    case (Some p)
    note p = lru_linksD(3,4) [OF links Some]
    show ?thesis
      using assms Some p entries_removeElement [OF links p(1)] lru_links_removeElement [OF links p(1)]
        length_remove1 [of p "lst c"]
      by (auto simp: Remove_def lru_ok_def removeElement_def)
  qed
  then show "entries (Remove k c) = AList.delete k (entries c)" and "lru_ok (Remove k c)" by auto
qed

lemma cache_params [simp]:
  "capacity (snd (Get now k c)) = capacity c" "ttl (snd (Get now k c)) = ttl c"
  "capacity (Add now k r c) = capacity c" "ttl (Add now k r c) = ttl c"
  "capacity (Remove k c) = capacity c" "ttl (Remove k c) = ttl c"
  by (auto simp: Get_def Add_def Remove_def removeElement_def Let_def split: option.splits)

subsection \<open>The contract of the validation hook\<close>

text \<open>
  What the hook needs of a cache: a hit returns a stored, unexpired result of exactly the
  asked key; no operation invents an entry; an addition stores the stamped result only; a
  removal forgets the key. Any fact about the stored pairs is then kept by every operation.
\<close>

locale verdict_cache =
  fixes get :: "time \<Rightarrow> 'k \<Rightarrow> 'c \<Rightarrow> 'r option \<times> 'c"
    and add :: "time \<Rightarrow> 'k \<Rightarrow> 'r \<Rightarrow> 'c \<Rightarrow> 'c"
    and remove :: "'k \<Rightarrow> 'c \<Rightarrow> 'c"
    and contents :: "'c \<Rightarrow> ('k \<times> 'r) set"
    and invar :: "'c \<Rightarrow> bool"
    and stamp :: "time \<Rightarrow> 'c \<Rightarrow> 'r \<Rightarrow> 'r"
    and fresh :: "time \<Rightarrow> 'r \<Rightarrow> bool"
  assumes get_invar: "invar c \<Longrightarrow> get now k c = (res, c') \<Longrightarrow> invar c'"
    and get_sound: "invar c \<Longrightarrow> get now k c = (Some r, c') \<Longrightarrow> (k, r) \<in> contents c \<and> fresh now r"
    and get_shrinks: "invar c \<Longrightarrow> get now k c = (res, c') \<Longrightarrow> contents c' \<subseteq> contents c"
    and add_invar: "invar c \<Longrightarrow> invar (add now k r c)"
    and add_grows: "invar c \<Longrightarrow> contents (add now k r c) \<subseteq> insert (k, stamp now c r) (contents c)"
    and remove_invar: "invar c \<Longrightarrow> invar (remove k c)"
    and remove_forgets: "invar c \<Longrightarrow> contents (remove k c) \<subseteq> contents c - {k} \<times> UNIV"
begin

lemma keep_get:
  "invar c \<Longrightarrow> get now k c = (res, c') \<Longrightarrow> contents c \<subseteq> J \<Longrightarrow> contents c' \<subseteq> J"
  using get_shrinks by blast

lemma keep_add:
  "invar c \<Longrightarrow> contents c \<subseteq> J \<Longrightarrow> (k, stamp now c r) \<in> J \<Longrightarrow> contents (add now k r c) \<subseteq> J"
  using add_grows by blast

lemma keep_remove: "invar c \<Longrightarrow> contents c \<subseteq> J \<Longrightarrow> contents (remove k c) \<subseteq> J"
  using remove_forgets by blast

lemma hit_justified:
  "invar c \<Longrightarrow> contents c \<subseteq> J \<Longrightarrow> get now k c = (Some r, c') \<Longrightarrow> (k, r) \<in> J \<and> fresh now r"
  using get_sound by blast

lemma miss_after_remove:
  assumes "invar c"
  shows "fst (get now k (remove k c)) = None"
proof (rule ccontr)
  assume "fst (get now k (remove k c)) \<noteq> None"
  then obtain r c' where "get now k (remove k c) = (Some r, c')"
    by (cases "get now k (remove k c)") auto
  then have "(k, r) \<in> contents (remove k c)"
    using get_sound [OF remove_invar [OF assms]] by blast
  then show False using remove_forgets [OF assms] by blast
qed

end

lemma set_delete: "set (AList.delete k xs) = set xs - {k} \<times> UNIV"
  by (auto simp: AList.delete_eq)

lemma set_spec_get: "set (snd (spec_get now k xs)) \<subseteq> set xs"
  by (auto simp: spec_get_def set_delete dest: map_of_SomeD split: option.splits)

interpretation lru: verdict_cache Get Add Remove "\<lambda>c. set (entries c)" lru_ok
  "\<lambda>now c r. r\<lparr>Expired := now + ttl c\<rparr>" "\<lambda>now r. now < Expired r"
proof unfold_locales
  fix c now k res c' assume *: "lru_ok c" "Get now k c = (res, c')"
  note R = Get_refines [OF *]
  show "lru_ok c'" using R by simp
  show "set (entries c') \<subseteq> set (entries c)"
    using R set_spec_get [of now k "entries c"] by simp
next
  fix c now k r c' assume *: "lru_ok c" "Get now k c = (Some r, c')"
  show "(k, r) \<in> set (entries c) \<and> now < Expired r"
    using Get_refines [OF *] by (auto simp: spec_get_def dest: map_of_SomeD split: option.splits if_splits)
next
  fix c now k r assume *: "lru_ok c"
  show "lru_ok (Add now k r c)" by (rule Add_refines [OF *])
  show "set (entries (Add now k r c)) \<subseteq> insert (k, r\<lparr>Expired := now + ttl c\<rparr>) (set (entries c))"
    by (auto simp: Add_refines [OF *] spec_add_def set_delete dest!: in_set_takeD)
next
  fix c k assume *: "lru_ok c"
  show "lru_ok (Remove k c)" by (rule Remove_refines [OF *])
  show "set (entries (Remove k c)) \<subseteq> set (entries c) - {k} \<times> UNIV"
    by (simp add: Remove_refines [OF *] set_delete)
qed

subsection \<open>Properties\<close>

text \<open>
  C9: the pointer structure implements the recency list. Under the invariant, \<open>Get\<close> answers
  and reorders as the list function does, \<open>Add\<close> puts the stamped entry in front of the
  others and keeps the first \<open>capacity\<close> entries, \<open>Remove\<close> deletes the key, \<open>Len\<close> counts the
  list, and every operation keeps the invariant.
\<close>

theorem lru_refines_recency_list:
  assumes "lru_ok c"
  shows "(fst (Get now k c), entries (snd (Get now k c))) = spec_get now k (entries c) \<and>
         entries (Add now k r c) = spec_add (capacity c) k (r\<lparr>Expired := now + ttl c\<rparr>) (entries c) \<and>
         entries (Remove k c) = AList.delete k (entries c) \<and>
         Len c = length (entries c) \<and>
         lru_ok (snd (Get now k c)) \<and> lru_ok (Add now k r c) \<and> lru_ok (Remove k c)"
  using Get_refines [OF assms, of now k] Add_refines [OF assms] Remove_refines [OF assms]
  by (cases "Get now k c") (auto simp: length_entries)

definition demo_key :: "byte \<Rightarrow> ConnectionKey" where
  "demo_key b = NewConnectionKey [10, 0, 0, b] 1000 [8, 8, 8, 8] 80 ProtocolTCP"

lemma lru_refines_recency_list_witness:
  "entries (Add 5 (demo_key 1) \<lparr>Allowed = True, UID = 7, Expired = 0\<rparr> (NewLRUCache 1 10)) =
   [(demo_key 1, \<lparr>Allowed = True, UID = 7, Expired = 15\<rparr>)]"
  using lru_refines_recency_list [of "NewLRUCache 1 10" 5 "demo_key 1" "\<lparr>Allowed = True, UID = 7, Expired = 0\<rparr>"]
  by (simp add: spec_add_def entries_def NewLRUCache_def lru_ok_def lru_links_def)

text \<open>Any sequence of operations on a new cache.\<close>

datatype cache_op = OpGet time ConnectionKey | OpAdd time ConnectionKey ValidationResult
  | OpRemove ConnectionKey

fun cache_step :: "cache_op \<Rightarrow> LRUCache \<Rightarrow> LRUCache" where
  "cache_step (OpGet now k) c = snd (Get now k c)"
| "cache_step (OpAdd now k r) c = Add now k r c"
| "cache_step (OpRemove k) c = Remove k c"

lemma cache_step_ok: "lru_ok c \<Longrightarrow> lru_ok (cache_step op c)"
  using lru.get_invar [of c] lru.add_invar [of c] lru.remove_invar [of c]
  by (cases op) (auto simp: prod_eq_iff)

lemma cache_step_capacity [simp]: "capacity (cache_step op c) = capacity c"
  by (cases op) auto

lemma cache_run_ok: "lru_ok c \<Longrightarrow> lru_ok (fold cache_step ops c) \<and> capacity (fold cache_step ops c) = capacity c"
  by (induction ops arbitrary: c) (auto simp: cache_step_ok)

text \<open>
  C30: from a new cache, whatever operations run and whatever the clock returns, map and
  list stay consistent, no key is stored twice, and the cache never holds more entries than
  its capacity (none at all for a capacity of zero or less).
\<close>

theorem lru_always_consistent:
  "lru_ok (fold cache_step ops (NewLRUCache cap t)) \<and>
   distinct (map fst (entries (fold cache_step ops (NewLRUCache cap t)))) \<and>
   Len (fold cache_step ops (NewLRUCache cap t)) \<le> nat cap"
proof -
  let ?c = "fold cache_step ops (NewLRUCache cap t)"
  have "lru_ok ?c" "capacity ?c = cap"
    using cache_run_ok [OF lru_ok_New [of cap t], of ops] by (auto simp: NewLRUCache_def)
  then show ?thesis
    by (auto simp: lru_ok_def Len_def lru_keys_distinct)
qed

lemma Get_Add_same:
  assumes "lru_ok c" and "0 < capacity c"
  shows "fst (Get now k (Add t k r c)) =
         (if now < t + ttl c then Some (r\<lparr>Expired := t + ttl c\<rparr>) else None)"
proof -
  have "0 < nat (capacity c)" using assms(2) by simp
  then have "map_of (entries (Add t k r c)) k = Some (r\<lparr>Expired := t + ttl c\<rparr>)"
    using Add_refines(1) [OF assms(1)] by (cases "nat (capacity c)") (auto simp: spec_add_def)
  moreover obtain res c' where get: "Get now k (Add t k r c) = (res, c')" by fastforce
  ultimately show ?thesis
    using Get_refines [OF Add_refines(2) [OF assms(1)] get] by (simp add: spec_get_def split: if_splits)
qed

text \<open>
  Time to live. A result added at time \<open>t\<close> is returned, unchanged but for its expiry
  stamp, by lookups of its key before \<open>t + ttl\<close>; from that moment on the lookup misses.
\<close>

theorem lru_ttl_exact:
  assumes "lru_ok c" and "0 < capacity c"
  shows "fst (Get now k (Add t k r c)) =
         (if now < t + ttl c then Some (r\<lparr>Expired := t + ttl c\<rparr>) else None)"
  using assms by (rule Get_Add_same)

lemma lru_ttl_exact_witness:
  "fst (Get 14 (demo_key 1) (Add 5 (demo_key 1) \<lparr>Allowed = True, UID = 7, Expired = 0\<rparr> (NewLRUCache 1 10)))
     = Some \<lparr>Allowed = True, UID = 7, Expired = 15\<rparr> \<and>
   fst (Get 15 (demo_key 1) (Add 5 (demo_key 1) \<lparr>Allowed = True, UID = 7, Expired = 0\<rparr> (NewLRUCache 1 10)))
     = None"
  using lru_ttl_exact [of "NewLRUCache 1 10"] by (simp add: NewLRUCache_def lru_ok_def lru_links_def)

end
