(* ===== verification/Engine_Hook.thy ===== *)
theory Engine_Hook
  imports LRU_Cache
begin

text \<open>
  The validation hook of \<open>go/engine_hook.go\<close>: the LRU cache in front of the Kotlin callback.
  \<open>Validate\<close> is one sequential call; the step relation \<open>vstep\<close> lets any number of calls
  interleave at the points where the code releases the cache mutex (after the lookup, around
  the callback, before the store), with \<open>SetValidator\<close>, \<open>Invalidate\<close> and \<open>SetLogEnabled\<close>
  in between. The callback is code outside the repository: a function from its five
  arguments to a boolean, which \<open>set_validator\<close> steps may replace at any moment, so that its
  answers may change over time. Its replies are recorded in \<open>replies\<close>.
\<close>

subsection \<open>The hook\<close>

type_synonym validator_args = "string \<times> int \<times> string \<times> int \<times> int"
type_synonym UIDValidatorFunc = "validator_args \<Rightarrow> bool"

record EngineHook =
  hcache :: LRUCache
  validator :: "UIDValidatorFunc option"
  logEnabled :: bool

text \<open>
  \<open>time.Duration(ttlSeconds) * time.Second\<close> is a 64-bit signed product, which wraps.
\<close>

definition ttl_duration :: "int \<Rightarrow> time" where
  "ttl_duration ttlSeconds = sint (word_of_int ttlSeconds * word_of_int 1000000000 :: u64)"

definition NewEngineHook :: "int \<Rightarrow> int \<Rightarrow> EngineHook" where
  "NewEngineHook cap ttlSeconds =
     \<lparr>hcache = NewLRUCache cap (ttl_duration ttlSeconds), validator = None, logEnabled = False\<rparr>"

definition SetValidator :: "UIDValidatorFunc option \<Rightarrow> EngineHook \<Rightarrow> EngineHook" where
  "SetValidator v h = h\<lparr>validator := v\<rparr>"

definition SetLogEnabled :: "bool \<Rightarrow> EngineHook \<Rightarrow> EngineHook" where
  "SetLogEnabled b h = h\<lparr>logEnabled := b\<rparr>"

definition CacheLen :: "EngineHook \<Rightarrow> nat" where
  "CacheLen h = Len (hcache h)"

text \<open>One flow: the five arguments of \<open>Validate\<close>.\<close>

record flow =
  f_src :: ip
  f_sport :: u16
  f_dst :: ip
  f_dport :: u16
  f_proto :: byte

definition flow_key :: "flow \<Rightarrow> ConnectionKey" where
  "flow_key f = NewConnectionKey (f_src f) (f_sport f) (f_dst f) (f_dport f) (f_proto f)"

definition flow_args :: "flow \<Rightarrow> validator_args" where
  "flow_args f = (ip_string (f_src f), uint (f_sport f), ip_string (f_dst f), uint (f_dport f),
                  uint (f_proto f))"

definition Invalidate :: "flow \<Rightarrow> EngineHook \<Rightarrow> EngineHook" where
  "Invalidate f h = h\<lparr>hcache := Remove (flow_key f) (hcache h)\<rparr>"

text \<open>
  \<open>Validate\<close>: the decision and UID, the arguments of the callback if it was called, and the
  hook afterwards. \<open>now1\<close> and \<open>now2\<close> are the clock in the lookup and in the store.
\<close>

definition Validate :: "time \<Rightarrow> time \<Rightarrow> flow \<Rightarrow> EngineHook \<Rightarrow>
    (bool \<times> int) \<times> validator_args option \<times> EngineHook" where
  "Validate now1 now2 f h =
     (let key = flow_key f in
      case Get now1 key (hcache h) of
        (Some result, c) \<Rightarrow> ((Allowed result, UID result), None, h\<lparr>hcache := c\<rparr>)
      | (None, c) \<Rightarrow>
          (case validator h of
             None \<Rightarrow> ((False, -1), None, h\<lparr>hcache := c\<rparr>)
           | Some v \<Rightarrow>
               (let allowed = v (flow_args f);
                    result = \<lparr>Allowed = allowed, UID = -1, Expired = 0\<rparr>
                in ((allowed, -1), Some (flow_args f), h\<lparr>hcache := Add now2 key result c\<rparr>))))"

subsection \<open>Interleaved calls\<close>

datatype vpc =
    VIdle
  | VStart flow
  | VMiss flow
  | VAnswered flow bool
  | VDone flow bool time

record vsys =
  vhook :: EngineHook
  pcs :: "nat \<Rightarrow> vpc"
  replies :: "(validator_args \<times> bool) list"
  stored :: "(ConnectionKey \<times> bool \<times> time) list"

definition set_pc :: "nat \<Rightarrow> vpc \<Rightarrow> vsys \<Rightarrow> vsys" where
  "set_pc t p s = s\<lparr>pcs := (pcs s)(t := p)\<rparr>"

definition set_cache :: "LRUCache \<Rightarrow> vsys \<Rightarrow> vsys" where
  "set_cache c s = s\<lparr>vhook := (vhook s)\<lparr>hcache := c\<rparr>\<rparr>"

inductive vstep :: "vsys \<Rightarrow> vsys \<Rightarrow> bool" where
  call: "pcs s t = VIdle \<or> pcs s t = VDone f' b n \<Longrightarrow> vstep s (set_pc t (VStart f) s)"
| hit: "pcs s t = VStart f \<Longrightarrow> Get now (flow_key f) (hcache (vhook s)) = (Some r, c) \<Longrightarrow>
     vstep s (set_pc t (VDone f (Allowed r) now) (set_cache c s))"
| miss: "pcs s t = VStart f \<Longrightarrow> Get now (flow_key f) (hcache (vhook s)) = (None, c) \<Longrightarrow>
     vstep s (set_pc t (VMiss f) (set_cache c s))"
| no_validator: "pcs s t = VMiss f \<Longrightarrow> validator (vhook s) = None \<Longrightarrow>
     vstep s (set_pc t (VDone f False now) s)"
| ask: "pcs s t = VMiss f \<Longrightarrow> validator (vhook s) = Some v \<Longrightarrow>
     vstep s (set_pc t (VAnswered f (v (flow_args f)))
       (s\<lparr>replies := (flow_args f, v (flow_args f)) # replies s\<rparr>))"
| store: "pcs s t = VAnswered f a \<Longrightarrow>
     vstep s (set_pc t (VDone f a now)
       (set_cache (Add now (flow_key f) \<lparr>Allowed = a, UID = -1, Expired = 0\<rparr> (hcache (vhook s)))
         (s\<lparr>stored := (flow_key f, a, now) # stored s\<rparr>)))"
| set_validator: "vstep s (s\<lparr>vhook := SetValidator v (vhook s)\<rparr>)"
| set_log: "vstep s (s\<lparr>vhook := SetLogEnabled b (vhook s)\<rparr>)"
| invalidate: "vstep s (s\<lparr>vhook := Invalidate f (vhook s)\<rparr>)"

definition vinit :: "int \<Rightarrow> int \<Rightarrow> vsys" where
  "vinit cap ttlSeconds =
     \<lparr>vhook = NewEngineHook cap ttlSeconds, pcs = (\<lambda>_. VIdle), replies = [], stored = []\<rparr>"

inductive vreach :: "int \<Rightarrow> int \<Rightarrow> vsys \<Rightarrow> bool" for cap ttls where
  init: "vreach cap ttls (vinit cap ttls)"
| step: "vreach cap ttls s \<Longrightarrow> vstep s s' \<Longrightarrow> vreach cap ttls s'"

subsection \<open>Every verdict is a reply of the callback\<close>

definition key_args :: "ConnectionKey \<Rightarrow> validator_args" where
  "key_args k = (SrcIP k, uint (SrcPort k), DstIP k, uint (DstPort k), uint (Proto k))"

lemma key_args_flow [simp]: "key_args (flow_key f) = flow_args f"
  by (simp add: key_args_def flow_key_def flow_args_def NewConnectionKey_def)

definition justified :: "time \<Rightarrow> (ConnectionKey \<times> bool \<times> time) list \<Rightarrow> (ConnectionKey \<times> ValidationResult) set" where
  "justified life log = {(k, r). \<exists>t. (k, Allowed r, t) \<in> set log \<and> Expired r = t + life}"

text \<open>A decision at \<open>now\<close> for key \<open>k\<close> is backed by a store of the same verdict, no older than the TTL.\<close>

definition backed :: "time \<Rightarrow> (ConnectionKey \<times> bool \<times> time) list \<Rightarrow> ConnectionKey \<Rightarrow> bool \<Rightarrow> time \<Rightarrow> bool" where
  "backed life log k a now \<longleftrightarrow> (\<exists>t. (k, a, t) \<in> set log \<and> (now = t \<or> now < t + life))"

fun pc_ok :: "time \<Rightarrow> vsys \<Rightarrow> vpc \<Rightarrow> bool" where
  "pc_ok life s (VAnswered f a) = ((flow_args f, a) \<in> set (replies s))"
| "pc_ok life s (VDone f a now) = (a \<longrightarrow> backed life (stored s) (flow_key f) a now)"
| "pc_ok life s _ = True"

definition vinv :: "time \<Rightarrow> vsys \<Rightarrow> bool" where
  "vinv life s \<longleftrightarrow> lru_ok (hcache (vhook s)) \<and> ttl (hcache (vhook s)) = life \<and>
     set (entries (hcache (vhook s))) \<subseteq> justified life (stored s) \<and>
     (\<forall>t. pc_ok life s (pcs s t)) \<and>
     (\<forall>k a t. (k, a, t) \<in> set (stored s) \<longrightarrow> (key_args k, a) \<in> set (replies s))"

lemmas step_defs = set_pc_def set_cache_def SetValidator_def SetLogEnabled_def Invalidate_def

lemma justified_mono: "set log \<subseteq> set log' \<Longrightarrow> justified life log \<subseteq> justified life log'"
  by (fastforce simp: justified_def)

lemma pc_ok_mono:
  "pc_ok life s p \<Longrightarrow> set (replies s) \<subseteq> set (replies s') \<Longrightarrow> set (stored s) \<subseteq> set (stored s') \<Longrightarrow>
   pc_ok life s' p"
  by (cases p) (auto simp: backed_def)

lemma vinv_init: "vinv (ttl_duration ttls) (vinit cap ttls)"
  by (simp add: vinv_def vinit_def NewEngineHook_def NewLRUCache_def lru_ok_def lru_links_def entries_def)

lemma vinv_step:
  assumes "vstep s s'" and inv: "vinv life s"
  shows "vinv life s'"
  using assms
proof (cases rule: vstep.cases)
  case (hit t f now r c)
  have ok: "lru_ok (hcache (vhook s))" and sub: "set (entries (hcache (vhook s))) \<subseteq> justified life (stored s)"
    using inv by (auto simp: vinv_def)
  from lru.hit_justified [OF ok sub hit(3)]
  have "backed life (stored s) (flow_key f) (Allowed r) now"
    by (auto simp: justified_def backed_def)
  moreover have "ttl c = ttl (hcache (vhook s))" using hit(3) cache_params(2) by (metis snd_conv)
  ultimately show ?thesis
    using inv hit lru.keep_get [OF ok hit(3) sub] lru.get_invar [OF ok hit(3)]
    by (auto simp: vinv_def step_defs intro: pc_ok_mono)
next
  case (miss t f now c)
  have ok: "lru_ok (hcache (vhook s))" and sub: "set (entries (hcache (vhook s))) \<subseteq> justified life (stored s)"
    using inv by (auto simp: vinv_def)
  have "ttl c = ttl (hcache (vhook s))" using miss(3) cache_params(2) by (metis snd_conv)
  then show ?thesis
    using inv miss lru.keep_get [OF ok miss(3) sub] lru.get_invar [OF ok miss(3)]
    by (auto simp: vinv_def step_defs intro: pc_ok_mono)
next
  case (store t f a now)
  let ?c = "hcache (vhook s)" and ?log = "(flow_key f, a, now) # stored s"
  have ok: "lru_ok ?c" and sub: "set (entries ?c) \<subseteq> justified life (stored s)" and life: "ttl ?c = life"
    using inv by (auto simp: vinv_def)
  have sub': "set (entries ?c) \<subseteq> justified life ?log"
    using sub justified_mono [of "stored s" ?log life] by auto
  have reply: "(flow_args f, a) \<in> set (replies s)"
    using inv store(2) by (auto simp: vinv_def dest: spec [of _ t])
  have "set (entries (Add now (flow_key f) \<lparr>Allowed = a, UID = -1, Expired = 0\<rparr> ?c)) \<subseteq> justified life ?log"
    by (rule lru.keep_add [OF ok sub']) (auto simp: justified_def life)
  moreover have "backed life ?log (flow_key f) a now" by (auto simp: backed_def)
  ultimately show ?thesis
    using inv store reply lru.add_invar [OF ok] life
    by (auto simp: vinv_def step_defs intro: pc_ok_mono)
next
  case (invalidate f)
  have ok: "lru_ok (hcache (vhook s))" and sub: "set (entries (hcache (vhook s))) \<subseteq> justified life (stored s)"
    using inv by (auto simp: vinv_def)
  show ?thesis
    using inv invalidate lru.keep_remove [OF ok sub] lru.remove_invar [OF ok]
    by (auto simp: vinv_def step_defs intro: pc_ok_mono)
qed (auto simp: vinv_def step_defs intro: pc_ok_mono)

lemma vreach_inv: "vreach cap ttls s \<Longrightarrow> vinv (ttl_duration ttls) s"
  by (induction rule: vreach.induct) (auto intro: vinv_init vinv_step)


definition demo_flow :: "byte \<Rightarrow> flow" where
  "demo_flow b = \<lparr>f_src = [10, 1, 2, 3], f_sport = 40000, f_dst = [1, 1, 1, b], f_dport = 53,
                  f_proto = ProtocolUDP\<rparr>"

text \<open>
  C3: no flow is admitted without the callback's consent to that very flow. In every
  reachable state of any number of interleaved calls (with validators being replaced,
  entries invalidated, entries evicted and expiring meanwhile), a call that answered "allow"
  for a flow has a positive reply of the callback for exactly this flow's addresses, ports
  and protocol, and the verdict was stored at a moment less than the TTL before the answer
  (or at the answer itself). In particular the hook fails closed without a callback, and a
  verdict never leaks to another flow of the same source port.
\<close>

theorem admitted_flows_were_approved:
  assumes "vreach cap ttls s" and "pcs s t = VDone f True now"
  shows "(flow_args f, True) \<in> set (replies s) \<and>
         (\<exists>t0. (flow_key f, True, t0) \<in> set (stored s) \<and> (now = t0 \<or> now < t0 + ttl_duration ttls))"
proof -
  have inv: "vinv (ttl_duration ttls) s" by (rule vreach_inv [OF assms(1)])
  then have "pc_ok (ttl_duration ttls) s (pcs s t)" by (simp add: vinv_def)
  then obtain t0 where t0: "(flow_key f, True, t0) \<in> set (stored s)" "now = t0 \<or> now < t0 + ttl_duration ttls"
    using assms(2) by (auto simp: backed_def)
  then have "(key_args (flow_key f), True) \<in> set (replies s)"
    using inv unfolding vinv_def by blast
  with t0 show ?thesis by auto
qed

text \<open>A run: one call misses, asks a validator that says yes, and stores the verdict at time 7.\<close>

lemma vreach_demo:
  "\<exists>s. vreach 10 300 s \<and> pcs s 0 = VDone (demo_flow 1) True 7"
proof -
  let ?f = "demo_flow 1"
  let ?s1 = "vinit 10 300\<lparr>vhook := SetValidator (Some (\<lambda>_. True)) (NewEngineHook 10 300)\<rparr>"
  have "vreach 10 300 ?s1"
    using vreach.step [OF vreach.init vstep.set_validator, of 10 300 "Some (\<lambda>_. True)"]
    by (simp add: vinit_def)
  then have "vreach 10 300 (set_pc 0 (VStart ?f) ?s1)"
    by (rule vreach.step) (rule vstep.call, simp add: vinit_def)
  moreover have "Get now k (hcache (vhook (set_pc 0 (VStart ?f) ?s1))) = (None, hcache (NewEngineHook 10 300))" for now k
    by (simp add: Get_def set_pc_def SetValidator_def NewEngineHook_def NewLRUCache_def)
  ultimately have "vreach 10 300 (set_pc 0 (VMiss ?f) (set_cache (hcache (NewEngineHook 10 300)) (set_pc 0 (VStart ?f) ?s1)))"
    by (intro vreach.step [OF _ vstep.miss [where now = 0]]) (auto simp: set_pc_def)
  from vreach.step [OF this vstep.ask [where t = 0 and f = ?f and v = "\<lambda>_. True"]]
  obtain s where "vreach 10 300 s" "pcs s 0 = VAnswered ?f True"
    by (auto simp: set_pc_def set_cache_def SetValidator_def)
  from vreach.step [OF this(1) vstep.store [OF this(2), of 7]]
  show ?thesis by (auto simp: set_pc_def set_cache_def)
qed

lemma admitted_flows_were_approved_witness:
  "\<exists>s. vreach 10 300 s \<and> pcs s 0 = VDone (demo_flow 1) True 7 \<and>
       (flow_args (demo_flow 1), True) \<in> set (replies s)"
proof -
  obtain s where s: "vreach 10 300 s" "pcs s 0 = VDone (demo_flow 1) True 7"
    using vreach_demo by blast
  then show ?thesis using admitted_flows_were_approved [OF s] by blast
qed

subsection \<open>Sequential calls\<close>




text \<open>
  The TTL given in seconds is the cache's lifetime in nanoseconds exactly for the
  seconds whose product fits a 64-bit signed integer (about 292 years); beyond that the
  product wraps around.
\<close>

theorem ttl_duration_exact:
  "ttl_duration s = s * 1000000000 \<longleftrightarrow> -9223372036 \<le> s \<and> s \<le> 9223372036"
proof -
  have "ttl_duration s = signed_take_bit 63 (s * 1000000000)"
    unfolding ttl_duration_def wi_hom_mult sint_sbintrunc' by simp
  then show ?thesis
    by (auto simp: signed_take_bit_int_eq_self_iff)
qed


subsection \<open>What the cache holds\<close>

text \<open>The distinct keys of a sequence of accesses, most recent first.\<close>

definition recency :: "'k list \<Rightarrow> 'k list" where
  "recency ks = fold (\<lambda>k xs. k # removeAll k xs) ks []"

lemma recency_snoc: "recency (ks @ [k]) = k # removeAll k (recency ks)"
  by (simp add: recency_def)

lemma distinct_recency: "distinct (recency ks)"
  by (induction ks rule: rev_induct) (auto simp: recency_snoc recency_def [of "[]"] distinct_removeAll)

lemma take_removeAll:
  "distinct xs \<Longrightarrow> take m (removeAll k (take (Suc m) xs)) = take m (removeAll k xs)"
proof (induction xs arbitrary: m)
  case (Cons x xs)
  show ?case
  proof (cases "x = k")
    case True
    with Cons.prems have "k \<notin> set xs" "k \<notin> set (take m xs)" by (auto dest: in_set_takeD)
    with True show ?thesis by simp
  next
    case False
    then show ?thesis using Cons by (cases m) auto
  qed
qed simp

lemma take_access:
  "distinct xs \<Longrightarrow> take n (k # removeAll k (take n xs)) = take n (k # removeAll k xs)"
  by (cases n) (auto simp: take_removeAll)

lemma keys_delete: "map fst (AList.delete k xs) = removeAll k (map fst xs)"
  by (induction xs) (auto simp: AList.delete_eq)

fun validate_all :: "(time \<times> time \<times> flow) list \<Rightarrow> EngineHook \<Rightarrow> EngineHook" where
  "validate_all [] h = h"
| "validate_all ((n1, n2, f) # cs) h = validate_all cs (snd (snd (Validate n1 n2 f h)))"

text \<open>One access with no expiry: the accessed key moves (or comes) to the front.\<close>

lemma Validate_keys:
  assumes ok: "lru_ok (hcache h)" and v: "validator h \<noteq> None"
    and fresh: "\<forall>(k, r) \<in> set (entries (hcache h)). t1 \<le> Expired r" "n1 < t1"
      "t1 \<le> n2 + ttl (hcache h)"
    and cap: "0 \<le> capacity (hcache h)"
    and h': "h' = snd (snd (Validate n1 n2 f h))"
  shows "map fst (entries (hcache h')) =
           take (nat (capacity (hcache h))) (flow_key f # removeAll (flow_key f) (map fst (entries (hcache h))))"
    and "lru_ok (hcache h') \<and> validator h' = validator h \<and> ttl (hcache h') = ttl (hcache h) \<and>
         capacity (hcache h') = capacity (hcache h) \<and>
         (\<forall>(k, r) \<in> set (entries (hcache h')). t1 \<le> Expired r)"
proof -
  let ?k = "flow_key f" and ?c = "hcache h"
  obtain res c' where get: "Get n1 ?k ?c = (res, c')" by fastforce
  note R = Get_refines [OF ok get]
  have params: "capacity c' = capacity ?c" "ttl c' = ttl ?c"
    using cache_params(1,2) [of n1 ?k ?c] get by simp_all
  let ?goal = "map fst (entries (hcache h')) = take (nat (capacity ?c)) (?k # removeAll ?k (map fst (entries ?c))) \<and>
    lru_ok (hcache h') \<and> validator h' = validator h \<and> ttl (hcache h') = ttl ?c \<and>
    capacity (hcache h') = capacity ?c \<and> (\<forall>(k, r) \<in> set (entries (hcache h')). t1 \<le> Expired r)"
  have ?goal
  proof (cases "map_of (entries ?c) ?k")
    case None
    then have c': "entries c' = entries ?c" "res = None" "lru_ok c'"
      using R by (auto simp: spec_get_def)
    obtain a where h'': "h' = h\<lparr>hcache := Add n2 ?k \<lparr>Allowed = a, UID = -1, Expired = 0\<rparr> c'\<rparr>"
      using v c'(2) get by (auto simp: h' Validate_def Let_def)
    show ?thesis
      using Add_refines [OF c'(3), of n2 ?k] c'(1) params fresh
      by (auto simp: h'' spec_add_def keys_delete set_delete simp flip: take_map dest!: in_set_takeD)
  next
    case (Some r)
    then have "t1 \<le> Expired r" using fresh(1) by (auto dest: map_of_SomeD)
    with Some fresh(2) have c': "entries c' = (?k, r) # AList.delete ?k (entries ?c)" "res = Some r" "lru_ok c'"
      using R by (auto simp: spec_get_def)
    have h'': "h' = h\<lparr>hcache := c'\<rparr>" using get c'(2) by (simp add: h' Validate_def Let_def)
    have "Suc (length (AList.delete ?k (entries ?c))) \<le> nat (capacity ?c)"
      using length_delete_present [OF Some] ok by (simp add: lru_ok_def length_entries Len_def)
    then have "take (nat (capacity ?c)) (?k # removeAll ?k (map fst (entries ?c))) = ?k # removeAll ?k (map fst (entries ?c))"
      by (intro take_all) (simp flip: keys_delete)
    then show ?thesis
      using c' params fresh(1) \<open>t1 \<le> Expired r\<close> by (auto simp: h'' keys_delete set_delete)
  qed
  then show "map fst (entries (hcache h')) = take (nat (capacity ?c)) (?k # removeAll ?k (map fst (entries ?c)))"
    "lru_ok (hcache h') \<and> validator h' = validator h \<and> ttl (hcache h') = ttl ?c \<and>
         capacity (hcache h') = capacity ?c \<and> (\<forall>(k, r) \<in> set (entries (hcache h')). t1 \<le> Expired r)"
    by auto
qed

lemma validate_all_keys:
  assumes "lru_ok (hcache h)" and "validator h \<noteq> None" and "0 \<le> capacity (hcache h)"
    and "\<forall>(k, r) \<in> set (entries (hcache h)). t1 \<le> Expired r"
    and "map fst (entries (hcache h)) = take (nat (capacity (hcache h))) (recency ks)"
    and "\<forall>(n1, n2, f) \<in> set cs. n1 < t1 \<and> t1 \<le> n2 + ttl (hcache h)"
  shows "map fst (entries (hcache (validate_all cs h))) =
         take (nat (capacity (hcache h))) (recency (ks @ map (\<lambda>(n1, n2, f). flow_key f) cs))"
  using assms
proof (induction cs arbitrary: h ks)
  case (Cons c cs)
  obtain n1 n2 f where c: "c = (n1, n2, f)" by (cases c) auto
  define h1 where "h1 = snd (snd (Validate n1 n2 f h))"
  have K: "map fst (entries (hcache h1)) =
      take (nat (capacity (hcache h))) (flow_key f # removeAll (flow_key f) (map fst (entries (hcache h))))"
    "lru_ok (hcache h1)" "validator h1 = validator h" "ttl (hcache h1) = ttl (hcache h)"
    "capacity (hcache h1) = capacity (hcache h)" "\<forall>(k, r) \<in> set (entries (hcache h1)). t1 \<le> Expired r"
    using Validate_keys [OF Cons.prems(1,2,4) _ _ Cons.prems(3) h1_def] Cons.prems(6)
    by (auto simp: c)
  have "map fst (entries (hcache h1)) = take (nat (capacity (hcache h1))) (recency (ks @ [flow_key f]))"
    using K(1,5) Cons.prems(5) by (simp add: recency_snoc take_access distinct_recency)
  from Cons.IH [OF K(2) _ _ K(6) this] K(3-5) Cons.prems(2,3,6)
  show ?case by (simp add: c h1_def)
qed simp

text \<open>
  C22: the cache holds exactly the most recently validated flows. Starting from a new hook
  with a callback, after any calls that all happen within one TTL, the cached keys are the
  distinct keys of the calls, most recent first, cut at the capacity; which calls hit and
  which missed makes no difference.
\<close>

theorem cache_holds_most_recent:
  assumes "0 \<le> cap"
    and "\<forall>(n1, n2, f) \<in> set calls. n1 < t1 \<and> t1 \<le> n2 + ttl_duration ttls"
  shows "map fst (entries (hcache (validate_all calls (SetValidator (Some v) (NewEngineHook cap ttls))))) =
         take (nat cap) (recency (map (\<lambda>(n1, n2, f). flow_key f) calls))"
proof -
  let ?h = "SetValidator (Some v) (NewEngineHook cap ttls)"
  have "hcache ?h = NewLRUCache cap (ttl_duration ttls)" "validator ?h = Some v"
    by (simp_all add: SetValidator_def NewEngineHook_def)
  moreover have "entries (NewLRUCache cap (ttl_duration ttls)) = []"
    "capacity (NewLRUCache cap (ttl_duration ttls)) = cap"
    "ttl (NewLRUCache cap (ttl_duration ttls)) = ttl_duration ttls"
    by (simp_all add: entries_def NewLRUCache_def)
  ultimately show ?thesis
    using validate_all_keys [of ?h t1 "[]" calls] assms by (simp add: recency_def [of "[]"])
qed

lemma cache_holds_most_recent_witness:
  "map fst (entries (hcache (validate_all [(1, 1, demo_flow 1), (2, 2, demo_flow 2), (3, 3, demo_flow 1),
      (4, 4, demo_flow 3)] (SetValidator (Some (\<lambda>_. True)) (NewEngineHook 2 1))))) =
   take 2 (recency [flow_key (demo_flow 1), flow_key (demo_flow 2), flow_key (demo_flow 1), flow_key (demo_flow 3)])"
proof -
  have "ttl_duration 1 = 1000000000" by (simp add: ttl_duration_def)
  then show ?thesis
    using cache_holds_most_recent [of 2 "[(1, 1, demo_flow 1), (2, 2, demo_flow 2), (3, 3, demo_flow 1),
      (4, 4, demo_flow 3)]" 5 1 "\<lambda>_. True"] by simp
qed

end
