(* ===== verification/Engine_State.thy ===== *)
theory Engine_State
  imports Engine_Hook
begin

text \<open>
  The \<open>Engine\<close> of \<open>go/engine.go\<close>: its shared state and the operations that read or change it
  in one step: the tables of tracked connections, the counters, \<open>CloseAllConnections\<close>, the
  connection table of \<open>Diagnostics\<close>, and the life cycle (\<open>Start\<close> up to its wait, \<open>Stop\<close>).
  Connections (\<open>net.Conn\<close>) and tracked connections are pointers, numbered by \<open>nat\<close>. Closed
  connections are logged in \<open>closed_conns\<close>, what the engine hands to the netstack in
  \<open>injected\<close>, what it writes to the TUN device in \<open>tun_out\<close>. \<open>None\<close> is a panic.
\<close>

subsection \<open>State\<close>

type_synonym conn = nat

record trackedConn =
  app :: conn
  proxy :: conn
  dst :: string
  createdMs :: int
  lastTxMs :: int
  lastRxMs :: int

text \<open>
  The settings an engine is created with and its closures keep: the descriptor \<open>tunFile\<close> is a
  duplicate of, and the proxy's address and credentials the forwarders dial with.
\<close>

record engine_config =
  cfg_tunFD :: int
  cfg_host :: string
  cfg_port :: int
  cfg_user :: string
  cfg_pass :: string

record Engine =
  config :: engine_config
  hook :: EngineHook
  mtu :: int
  running :: bool
  stop_closed :: bool
  cancelled :: bool
  tun_closed :: bool
  stack_closed :: bool
  allowICMP :: bool
  blockQuic :: bool
  txBytes :: u64
  rxBytes :: u64
  activeConns :: int
  activeUDPConns :: int
  elastRxMs :: int
  conns :: "u64 \<rightharpoonup> nat"
  tcs :: "nat \<Rightarrow> trackedConn"
  udpConns :: "u64 \<rightharpoonup> conn"
  connsSeq :: u64
  socksDialFails :: u64
  quicRejects :: u64
  zombieKills :: u64
  closed_conns :: "conn list"
  injected :: "(u16 \<times> bytes) list"
  tun_out :: "bytes list"
  spawned_stops :: nat

definition zero_tc :: trackedConn where
  "zero_tc = \<lparr>app = 0, proxy = 0, dst = [], createdMs = 0, lastTxMs = 0, lastRxMs = 0\<rparr>"

text \<open>
  The result of \<open>NewEngine\<close> when the netstack and the duplicated descriptor were set up, but
  for the settings.
\<close>

definition no_config :: engine_config where
  "no_config = \<lparr>cfg_tunFD = 0, cfg_host = [], cfg_port = 0, cfg_user = [], cfg_pass = []\<rparr>"

definition new_engine :: "int \<Rightarrow> bool \<Rightarrow> bool \<Rightarrow> EngineHook \<Rightarrow> Engine" where
  "new_engine m allow quic h =
     \<lparr>config = no_config, hook = h, mtu = m, running = False, stop_closed = False, cancelled = False,
      tun_closed = False, stack_closed = False, allowICMP = allow, blockQuic = quic,
      txBytes = 0, rxBytes = 0, activeConns = 0, activeUDPConns = 0, elastRxMs = 0,
      conns = Map.empty, tcs = (\<lambda>_. zero_tc), udpConns = Map.empty, connsSeq = 0,
      socksDialFails = 0, quicRejects = 0, zombieKills = 0,
      closed_conns = [], injected = [], tun_out = [], spawned_stops = 0\<rparr>"

text \<open>
  \<open>NewEngine\<close>: setting up the netstack, the duplicate of the TUN descriptor and its
  non-blocking mode may each fail (with a message); the other calls on the netstack return
  nothing the code looks at. \<open>resources\<close> is what the call leaves behind.
\<close>

record new_outcomes =
  nic_error :: "string option"
  dup_error :: "string option"
  nonblock_error :: "string option"

datatype new_error = CreateNICFailed string | DupFailed string | SetNonblockFailed string

record resources =
  stack_open :: bool
  fd_open :: bool
  ctx_live :: bool

definition NewEngine :: "new_outcomes \<Rightarrow> engine_config \<Rightarrow> int \<Rightarrow> bool \<Rightarrow> bool \<Rightarrow> EngineHook \<Rightarrow> (new_error + Engine) \<times> resources" where
  "NewEngine env cfg m allow quic h =
     (let r = \<lparr>stack_open = True, fd_open = False, ctx_live = False\<rparr> in
      case nic_error env of
        Some msg \<Rightarrow> (Inl (CreateNICFailed msg), r\<lparr>stack_open := False\<rparr>)
      | None \<Rightarrow>
          (let r = r\<lparr>ctx_live := True\<rparr>; e = (new_engine m allow quic h)\<lparr>config := cfg\<rparr> in
           case dup_error env of
             Some msg \<Rightarrow> (Inl (DupFailed msg), r\<lparr>stack_open := False, ctx_live := False\<rparr>)
           | None \<Rightarrow>
               (let r = r\<lparr>fd_open := True\<rparr> in
                case nonblock_error env of
                  Some msg \<Rightarrow> (Inl (SetNonblockFailed msg),
                    r\<lparr>fd_open := False, stack_open := False, ctx_live := False\<rparr>)
                | None \<Rightarrow> (Inr e, r))))"

fun error_text :: "new_error \<Rightarrow> string" where
  "error_text (CreateNICFailed msg) = ''CreateNIC: '' @ msg"
| "error_text (DupFailed msg) = ''dup tunFD: '' @ msg"
| "error_text (SetNonblockFailed msg) = ''set tunFD nonblock: '' @ msg"

subsection \<open>Idle verdict\<close>

definition tcpIdleTimeout_ms :: int where "tcpIdleTimeout_ms = 300000"
definition tcpZombieTimeout_ms :: int where "tcpZombieTimeout_ms = 120000"

definition idleVerdict :: "int \<Rightarrow> trackedConn \<Rightarrow> bool \<times> bool" where
  "idleVerdict nowMs tc =
     (let tx = lastTxMs tc;
          rx = lastRxMs tc;
          last = (if rx > tx then rx else tx);
          idle = nowMs - last
      in if idle \<ge> tcpIdleTimeout_ms then (True, False)
         else if tx > rx \<and> idle \<ge> tcpZombieTimeout_ms then (True, True)
         else (False, False))"

subsection \<open>Tables and counters\<close>

definition IsRunning :: "Engine \<Rightarrow> bool" where "IsRunning e = running e"
definition ActiveConns :: "Engine \<Rightarrow> int" where "ActiveConns e = activeConns e + activeUDPConns e"
definition LastRxMs :: "Engine \<Rightarrow> int" where "LastRxMs e = elastRxMs e"

definition trackConn :: "u64 \<Rightarrow> nat \<Rightarrow> Engine \<Rightarrow> Engine" where
  "trackConn i tc e = e\<lparr>conns := (conns e)(i \<mapsto> tc)\<rparr>"

definition untrackConn :: "u64 \<Rightarrow> Engine \<Rightarrow> Engine" where
  "untrackConn i e = e\<lparr>conns := (conns e)(i := None)\<rparr>"

definition trackUDPConn :: "u64 \<Rightarrow> conn \<Rightarrow> Engine \<Rightarrow> Engine" where
  "trackUDPConn i c e = e\<lparr>udpConns := (udpConns e)(i \<mapsto> c)\<rparr>"

definition untrackUDPConn :: "u64 \<Rightarrow> Engine \<Rightarrow> Engine" where
  "untrackUDPConn i e = e\<lparr>udpConns := (udpConns e)(i := None)\<rparr>"

text \<open>
  \<open>range\<close> over a map visits its keys in an order Go leaves open: the order is an argument,
  any enumeration of the keys. The two tables are read under their mutexes, one after the
  other.
\<close>

definition snapshot :: "(u64 \<rightharpoonup> 'a) \<Rightarrow> u64 list \<Rightarrow> 'a list" where
  "snapshot m order = List.map_filter m order"

definition enumerates :: "'k list \<Rightarrow> ('k \<rightharpoonup> 'a) \<Rightarrow> bool" where
  "enumerates order m \<longleftrightarrow> distinct order \<and> set order = dom m"

definition close_conn :: "conn \<Rightarrow> Engine \<Rightarrow> Engine" where
  "close_conn c e = e\<lparr>closed_conns := closed_conns e @ [c]\<rparr>"

definition CloseAllConnections :: "u64 list \<Rightarrow> u64 list \<Rightarrow> Engine \<Rightarrow> nat \<times> Engine" where
  "CloseAllConnections tcp_order udp_order e =
     (let tcpSnap = map (\<lambda>tc. app (tcs e tc)) (snapshot (conns e) tcp_order);
          udpSnap = snapshot (udpConns e) udp_order
      in (length tcpSnap + length udpSnap, fold close_conn udpSnap (fold close_conn tcpSnap e)))"

text \<open>The connection table of \<open>Diagnostics\<close>: the first 200 entries the iteration meets.\<close>

record connDiag =
  Dst :: string
  AgeSec :: int
  TxIdleSec :: int
  RxIdleSec :: int

text \<open>Go's integer division truncates towards zero.\<close>

definition go_div :: "int \<Rightarrow> int \<Rightarrow> int" where
  "go_div a b = sgn a * sgn b * (\<bar>a\<bar> div \<bar>b\<bar>)"

fun diag_conns :: "int \<Rightarrow> Engine \<Rightarrow> u64 list \<Rightarrow> connDiag list \<Rightarrow> connDiag list" where
  "diag_conns now e [] acc = acc"
| "diag_conns now e (i # is) acc =
     (case conns e i of
        None \<Rightarrow> diag_conns now e is acc
      | Some p \<Rightarrow>
          (if length acc \<ge> 200 then acc
           else let tc = tcs e p in
                diag_conns now e is (acc @ [\<lparr>Dst = dst tc,
                  AgeSec = go_div (now - createdMs tc) 1000,
                  TxIdleSec = go_div (now - lastTxMs tc) 1000,
                  RxIdleSec = go_div (now - lastRxMs tc) 1000\<rparr>])))"

subsection \<open>Life cycle\<close>

text \<open>
  \<open>Start\<close> up to the wait on the stop channel: \<open>None\<close> is the error "engine already running".
  Its two goroutines run the loops of \<open>Tun_Loop\<close>.
\<close>

definition Start :: "Engine \<Rightarrow> Engine option" where
  "Start e = (if running e then None else Some (e\<lparr>running := True\<rparr>))"

text \<open>\<open>Stop\<close>: closing the stop channel a second time would panic.\<close>

definition Stop :: "Engine \<Rightarrow> Engine go" where
  "Stop e =
     (if \<not> running e then Some e
      else let e1 = e\<lparr>running := False, cancelled := True\<rparr> in
        if stop_closed e1 then None
        else Some (e1\<lparr>stop_closed := True, tun_closed := True, stack_closed := True\<rparr>))"

subsection \<open>Lemmas\<close>

lemma fold_close_conn: "fold close_conn cs e = e\<lparr>closed_conns := closed_conns e @ cs\<rparr>"
  by (induction cs arbitrary: e) (auto simp: close_conn_def)

lemma snapshot_all: "set order \<subseteq> dom m \<Longrightarrow> snapshot m order = map (the \<circ> m) order"
  by (induction order) (auto simp: snapshot_def map_filter_simps)

lemma snapshot_card:
  assumes "enumerates order m"
  shows "length (snapshot m order) = card (dom m)"
  using assms distinct_card [of order] by (auto simp: enumerates_def snapshot_all)

lemma set_snapshot: "enumerates order m \<Longrightarrow> set (snapshot m order) = ran m"
  by (force simp: enumerates_def snapshot_all ran_def)

lemma diag_conns_take:
  assumes "set order \<subseteq> dom (conns e)" and "length acc \<le> 200"
  shows "map Dst (diag_conns now e order acc) =
    map Dst acc @ take (200 - length acc) (map (\<lambda>i. dst (tcs e (the (conns e i)))) order)"
  using assms
proof (induction order arbitrary: acc)
  case (Cons i order)
  then obtain p where p: "conns e i = Some p" by auto
  show ?case
  proof (cases "length acc < 200")
    case True
    then obtain n where "200 - length acc = Suc n" "n = 200 - Suc (length acc)"
      by (metis Suc_diff_Suc)
    with True p Cons show ?thesis by (auto simp: Let_def)
  qed (use p Cons in simp)
qed simp

subsection \<open>Properties\<close>

text \<open>
  \<open>CloseAllConnections\<close> closes every tracked flow once. In whatever orders the two tables
  are iterated, it closes the app side of every tracked TCP connection and every tracked UDP
  connection, nothing else, and returns the number of both; the tables are left to the
  goroutines of the flows.
\<close>

theorem CloseAllConnections_exact:
  assumes "enumerates tcp_order (conns e)" and "enumerates udp_order (udpConns e)"
    and "CloseAllConnections tcp_order udp_order e = (n, e')"
  shows "n = card (dom (conns e)) + card (dom (udpConns e)) \<and>
    (\<exists>cs. e' = e\<lparr>closed_conns := closed_conns e @ cs\<rparr> \<and> length cs = n \<and>
      set cs = (\<lambda>p. app (tcs e p)) ` ran (conns e) \<union> ran (udpConns e))"
  using assms(3) snapshot_card [OF assms(1)] snapshot_card [OF assms(2)]
    set_snapshot [OF assms(1)] set_snapshot [OF assms(2)]
  by (auto simp: CloseAllConnections_def Let_def fold_close_conn)

definition demo_engine :: Engine where
  "demo_engine = trackUDPConn 3 30 (trackConn 2 1 (trackConn 1 0
     ((new_engine 1500 False True (NewEngineHook 8 60))
       \<lparr>tcs := (\<lambda>p. zero_tc\<lparr>app := 10 + p, createdMs := 1000\<rparr>)\<rparr>)))"

lemma CloseAllConnections_exact_witness:
  "fst (CloseAllConnections [2, 1] [3] demo_engine) = 3 \<and>
   set (closed_conns (snd (CloseAllConnections [2, 1] [3] demo_engine))) = {10, 11, 30}"
proof -
  have conns: "conns demo_engine = [1 \<mapsto> 0, 2 \<mapsto> 1]" "udpConns demo_engine = [3 \<mapsto> 30]"
    "tcs demo_engine = (\<lambda>p. zero_tc\<lparr>app := 10 + p, createdMs := 1000\<rparr>)" "closed_conns demo_engine = []"
    by (simp_all add: demo_engine_def new_engine_def trackConn_def trackUDPConn_def)
  have "enumerates [2, 1] (conns demo_engine)" "enumerates [3] (udpConns demo_engine)"
    by (auto simp: enumerates_def conns)
  note exact = CloseAllConnections_exact [OF this surjective_pairing]
  have r: "ran (conns demo_engine) = {0, 1}" "ran (udpConns demo_engine) = {30}"
    by (auto simp: conns ran_map_upd)
  have d: "dom (conns demo_engine) = {2, 1}" "dom (udpConns demo_engine) = {3}"
    by (simp_all add: conns)
  from exact obtain cs where cs: "fst (CloseAllConnections [2, 1] [3] demo_engine) = card {2, 1 :: u64} + card {3 :: u64}"
    "snd (CloseAllConnections [2, 1] [3] demo_engine) = demo_engine\<lparr>closed_conns := closed_conns demo_engine @ cs\<rparr>"
    "set cs = (\<lambda>p. app (tcs demo_engine p)) ` {0, 1} \<union> {30}"
    unfolding r d by blast
  have "set cs = {10, 11, 30}" using cs(3) by (simp add: conns insert_commute)
  with cs(1,2) show ?thesis by (simp add: conns(4))
qed

text \<open>
  The diagnostics table is bounded and complete. It lists the destinations of the first
  200 connections the iteration meets, so every tracked connection exactly once when at most
  200 are tracked, and 200 of them otherwise.
\<close>

theorem diagnostics_table:
  assumes "enumerates order (conns e)"
  shows "map Dst (diag_conns now e order []) = take 200 (map (\<lambda>i. dst (tcs e (the (conns e i)))) order) \<and>
    length (diag_conns now e order []) = min 200 (card (dom (conns e)))"
proof -
  have D: "map Dst (diag_conns now e order []) = take 200 (map (\<lambda>i. dst (tcs e (the (conns e i)))) order)"
    using assms diag_conns_take [of order e "[]" now] by (simp add: enumerates_def)
  have "length (map Dst (diag_conns now e order [])) = length (take 200 (map (\<lambda>i. dst (tcs e (the (conns e i)))) order))"
    by (simp only: D)
  then have "length (diag_conns now e order []) = min 200 (length order)"
    by (simp only: length_map length_take min.commute)
  moreover have "length order = card (dom (conns e))"
    using assms by (metis distinct_card enumerates_def)
  ultimately show ?thesis using D by metis
qed

lemma diagnostics_table_witness:
  "length (diag_conns 5000 demo_engine [1, 2] []) = min 200 (card {2, 1 :: u64})"
proof -
  have c: "conns demo_engine = [1 \<mapsto> 0, 2 \<mapsto> 1]"
    by (simp add: demo_engine_def new_engine_def trackConn_def trackUDPConn_def)
  have d: "dom (conns demo_engine) = {2, 1}" by (simp add: c)
  then have "enumerates [1, 2] (conns demo_engine)" by (auto simp only: enumerates_def d) simp_all
  from diagnostics_table [OF this, of 5000] show ?thesis unfolding d by blast
qed

text \<open>
  An engine is for one run. Stopping is idempotent, whoever calls it first; but an engine
  that is started again after a stop reports that it is running, and stopping it then closes
  the stop channel a second time, which panics. (The facade never reuses an engine.)
\<close>

theorem engine_single_use:
  assumes "running e" and "\<not> stop_closed e"
  shows "\<exists>e1 e2. Stop e = Some e1 \<and> Stop e1 = Some e1 \<and> \<not> IsRunning e1 \<and>
    Start e1 = Some e2 \<and> IsRunning e2 \<and> Start e2 = None \<and> Stop e2 = None"
  using assms by (auto simp: Stop_def Start_def IsRunning_def Let_def)

lemma engine_single_use_witness:
  "\<exists>e1 e2. Stop (demo_engine\<lparr>running := True\<rparr>) = Some e1 \<and> Start e1 = Some e2 \<and> Stop e2 = None"
  using engine_single_use [of "demo_engine\<lparr>running := True\<rparr>"]
  by (auto simp: demo_engine_def new_engine_def trackConn_def trackUDPConn_def)

end
