(* ===== verification/Packet_Filter.thy ===== *)
theory Packet_Filter
  imports Conn_Key
begin

text \<open>
  The packet classifiers on the TUN read path: the IPv6 extension header walk and the
  UDP-port tests of \<open>go/icmp_reject.go\<close>, and the ICMP echo filters of \<open>go/engine.go\<close>. They
  run on every packet an app sends, before any validation, in a goroutine that does not
  recover from a panic, so every index is checked here (\<open>None\<close> is the panic) and shown to
  be in range.
\<close>

subsection \<open>ICMP echo filters\<close>

definition isICMPEchoType :: "byte \<Rightarrow> bool" where
  "isICMPEchoType t \<longleftrightarrow> t = 0 \<or> t = 8 \<or> t = 128 \<or> t = 129"

definition shouldBlockICMP :: "bytes \<Rightarrow> bool \<Rightarrow> bool go" where
  "shouldBlockICMP pkt isIPv6 =
     (if isIPv6 then
        (if length pkt < 40 then Some True
         else do { t \<leftarrow> go_at pkt 40; Some (isICMPEchoType t) })
      else if length pkt < 20 then Some True
      else do {
        b0 \<leftarrow> go_at pkt 0;
        let ihl = unat (b0 AND 0x0F) * 4;
        if length pkt < ihl + 1 then Some True
        else do { t \<leftarrow> go_at pkt ihl; Some (isICMPEchoType t) } })"

definition shouldBlockICMPv6 :: "bytes \<Rightarrow> nat \<Rightarrow> bool go" where
  "shouldBlockICMPv6 pkt icmpOffset =
     (if length pkt < icmpOffset + 1 then Some True
      else do { t \<leftarrow> go_at pkt icmpOffset; Some (isICMPEchoType t) })"

subsection \<open>IPv6 extension headers\<close>

text \<open>
  The loop of \<open>ipv6TransportHeader\<close>, at most 8 iterations; the first argument counts those
  that are left. \<open>Some None\<close> is the result \<open>ok = false\<close>.
\<close>

fun v6_walk :: "nat \<Rightarrow> bytes \<Rightarrow> byte \<Rightarrow> nat \<Rightarrow> (byte \<times> nat) option go" where
  "v6_walk 0 pkt nxt off = Some None"
| "v6_walk (Suc n) pkt nxt off =
     (if nxt = 0 \<or> nxt = 43 \<or> nxt = 60 then
        if length pkt < off + 2 then Some None
        else do {
          len \<leftarrow> go_at pkt (off + 1);
          let hdrLen = (unat len + 1) * 8;
          nxt' \<leftarrow> go_at pkt off;
          v6_walk n pkt nxt' (off + hdrLen) }
      else if nxt = 44 then
        if length pkt < off + 8 then Some None
        else do { nxt' \<leftarrow> go_at pkt off; v6_walk n pkt nxt' (off + 8) }
      else if nxt = 59 then Some None
      else if off > length pkt then Some None
      else Some (Some (nxt, off)))"

definition ipv6TransportHeader :: "bytes \<Rightarrow> (byte \<times> nat) option go" where
  "ipv6TransportHeader pkt =
     (if length pkt < 40 then Some None
      else do { nxt \<leftarrow> go_at pkt 6; v6_walk 8 pkt nxt 40 })"

subsection \<open>UDP destination ports\<close>

definition isUDPDstPortIPv4 :: "bytes \<Rightarrow> u16 \<Rightarrow> bool go" where
  "isUDPDstPortIPv4 pkt port =
     (if length pkt < 28 then Some False
      else do {
        p9 \<leftarrow> go_at pkt 9;
        if p9 \<noteq> ProtocolUDP then Some False
        else do {
          b0 \<leftarrow> go_at pkt 0;
          let ihl = unat (b0 AND 0x0F) * 4;
          if ihl < 20 \<or> length pkt < ihl + 4 then Some False
          else do { p \<leftarrow> uint16_at pkt (ihl + 2); Some (p = port) } } })"

definition isUDPDstPortIPv6 :: "bytes \<Rightarrow> u16 \<Rightarrow> bool go" where
  "isUDPDstPortIPv6 pkt port =
     do { res \<leftarrow> ipv6TransportHeader pkt;
          (case res of
             None \<Rightarrow> Some False
           | Some (proto, off) \<Rightarrow>
               if proto \<noteq> ProtocolUDP then Some False
               else if length pkt < off + 4 then Some False
               else do { p \<leftarrow> uint16_at pkt (off + 2); Some (p = port) }) }"

subsection \<open>Reference: header chains\<close>

text \<open>
  \<open>v6_chain pkt k nxt off proto off'\<close>: from next-header value \<open>nxt\<close> at offset \<open>off\<close>, a chain
  of \<open>k\<close> extension headers inside the packet leads to the upper-layer protocol \<open>proto\<close>
  whose header starts at \<open>off'\<close>.
\<close>

inductive v6_chain :: "bytes \<Rightarrow> nat \<Rightarrow> byte \<Rightarrow> nat \<Rightarrow> byte \<Rightarrow> nat \<Rightarrow> bool" for pkt where
  upper: "nxt \<notin> {0, 43, 60, 44, 59} \<Longrightarrow> off \<le> length pkt \<Longrightarrow> v6_chain pkt 0 nxt off nxt off"
| options: "nxt \<in> {0, 43, 60} \<Longrightarrow> off + 2 \<le> length pkt \<Longrightarrow>
     v6_chain pkt k (pkt ! off) (off + (unat (pkt ! (off + 1)) + 1) * 8) proto off' \<Longrightarrow>
     v6_chain pkt (Suc k) nxt off proto off'"
| fragment: "off + 8 \<le> length pkt \<Longrightarrow> v6_chain pkt k (pkt ! off) (off + 8) proto off' \<Longrightarrow>
     v6_chain pkt (Suc k) 44 off proto off'"

inductive_cases chain_upperE: "v6_chain pkt 0 nxt off proto off'"
inductive_cases chain_sucE: "v6_chain pkt (Suc k) nxt off proto off'"
inductive_simps chain_0: "v6_chain pkt 0 nxt off proto off'"
inductive_simps chain_Suc: "v6_chain pkt (Suc k) nxt off proto off'"

lemma v6_walk_total: "v6_walk n pkt nxt off \<noteq> None"
  by (induction n arbitrary: nxt off) (auto simp: go_simps Let_def)

lemma v6_walk_chain:
  "v6_walk n pkt nxt off = Some (Some (p, q)) \<longleftrightarrow> (\<exists>k < n. v6_chain pkt k nxt off p q)"
proof (induction n arbitrary: nxt off)
  case (Suc n)
  have ex: "(\<exists>k < Suc n. P k) \<longleftrightarrow> P 0 \<or> (\<exists>k < n. P (Suc k))" for P
    by (metis Suc_less_eq not0_implies_Suc zero_less_Suc)
  show ?case
    unfolding ex by (auto simp: chain_0 chain_Suc Suc go_simps Let_def)
qed simp

lemma v6_chain_inside: "v6_chain pkt k nxt off p q \<Longrightarrow> q \<le> length pkt"
  by (induction rule: v6_chain.induct) auto

lemma v6_chain_upper: "v6_chain pkt k nxt off p q \<Longrightarrow> p \<notin> {0, 43, 60, 44, 59}"
  by (induction rule: v6_chain.induct) auto

text \<open>Every extension header is a multiple of 8 bytes, at most 2048.\<close>

lemma v6_chain_octets:
  "v6_chain pkt k nxt off p q \<Longrightarrow> \<exists>m. q = off + 8 * m \<and> k \<le> m \<and> m \<le> 256 * k"
proof (induction rule: v6_chain.induct)
  case (options nxt off k proto off')
  then obtain m where m: "off' = off + (unat (pkt ! (off + 1)) + 1) * 8 + 8 * m" "k \<le> m" "m \<le> 256 * k"
    by blast
  moreover have "unat (pkt ! (off + 1)) \<le> 255"
    using unat_byte [of "pkt ! (off + 1)"] by linarith
  ultimately show ?case
    by (intro exI [of _ "unat (pkt ! (off + 1)) + 1 + m"]) simp
next
  case (fragment off k proto off')
  then obtain m where m: "off' = off + 8 + 8 * m" "k \<le> m" "m \<le> 256 * k" by blast
  show ?case by (rule exI [of _ "Suc m"]) (use m in simp)
qed simp

text \<open>The chain from a given start is unique.\<close>

lemma v6_chain_unique:
  "v6_chain pkt k nxt off p q \<Longrightarrow> v6_chain pkt k' nxt off p' q' \<Longrightarrow> k = k' \<and> p = p' \<and> q = q'"
proof (induction arbitrary: k' rule: v6_chain.induct)
  case (upper nxt off)
  then show ?case by (cases k') (auto simp: chain_0 chain_Suc)
next
  case (options nxt off k proto off')
  then show ?case by (cases k') (auto simp: chain_0 chain_Suc)
next
  case (fragment off k proto off')
  then show ?case by (cases k') (auto simp: chain_0 chain_Suc)
qed

lemma ipv6TransportHeader_iff:
  "ipv6TransportHeader pkt = Some (Some (p, q)) \<longleftrightarrow>
     40 \<le> length pkt \<and> (\<exists>k < 8. v6_chain pkt k (pkt ! 6) 40 p q)"
  by (auto simp: ipv6TransportHeader_def go_simps v6_walk_chain)

lemma ipv6TransportHeader_total: "ipv6TransportHeader pkt \<noteq> None"
  using v6_walk_total [of 8 pkt "pkt ! 6" 40] by (simp add: ipv6TransportHeader_def go_simps)


lemma ipv6TransportHeader_cases:
  obtains "ipv6TransportHeader pkt = Some None"
  | p q where "ipv6TransportHeader pkt = Some (Some (p, q))" "q \<le> length pkt" "40 \<le> q"
proof -
  have "q \<le> length pkt \<and> 40 \<le> q" if "ipv6TransportHeader pkt = Some (Some (p, q))" for p q
    using that v6_chain_inside v6_chain_octets unfolding ipv6TransportHeader_iff by fastforce
  moreover obtain r where "ipv6TransportHeader pkt = Some r"
    using ipv6TransportHeader_total [of pkt] by blast
  ultimately show ?thesis using that by (cases r) auto
qed

subsection \<open>The classifiers in closed form\<close>

definition ihl_of :: "bytes \<Rightarrow> nat" where
  "ihl_of pkt = unat (pkt ! 0 AND 0x0F) * 4"

lemma nibble_bound: "unat ((b :: byte) AND 0x0F) \<le> 15"
proof -
  have "b AND 0x0F \<le> 0x0F" by (rule word_and_le1)
  then show ?thesis by (simp add: word_le_nat_alt)
qed

lemma ihl_of_bound: "ihl_of pkt \<le> 60"
  using nibble_bound [of "pkt ! 0"] by (simp add: ihl_of_def)

text \<open>The IPv4 packets the code takes for UDP datagrams to \<open>port\<close>.\<close>

definition udp4_to :: "bytes \<Rightarrow> u16 \<Rightarrow> bool" where
  "udp4_to pkt port \<longleftrightarrow> 28 \<le> length pkt \<and> pkt ! 9 = ProtocolUDP \<and> 20 \<le> ihl_of pkt \<and>
     ihl_of pkt + 4 \<le> length pkt \<and> be16 (pkt ! (ihl_of pkt + 2)) (pkt ! (ihl_of pkt + 3)) = port"

text \<open>The IPv6 packets it takes for UDP datagrams to \<open>port\<close>: a short enough header chain to UDP.\<close>

definition udp6_to :: "bytes \<Rightarrow> u16 \<Rightarrow> bool" where
  "udp6_to pkt port \<longleftrightarrow> 40 \<le> length pkt \<and>
     (\<exists>k < 8. \<exists>off. v6_chain pkt k (pkt ! 6) 40 ProtocolUDP off \<and> off + 4 \<le> length pkt \<and>
        be16 (pkt ! (off + 2)) (pkt ! (off + 3)) = port)"

lemma isUDPDstPortIPv4_eq: "isUDPDstPortIPv4 pkt port = Some (udp4_to pkt port)"
  by (cases "pkt = []")
    (auto simp: isUDPDstPortIPv4_def udp4_to_def ihl_of_def go_simps Let_def numeral_3_eq_3 numeral_2_eq_2)

lemma isUDPDstPortIPv6_eq: "isUDPDstPortIPv6 pkt port = Some (udp6_to pkt port)"
proof (cases rule: ipv6TransportHeader_cases [of pkt])
  case 1
  then have "\<not> udp6_to pkt port"
    using ipv6TransportHeader_iff [of pkt] by (auto simp: udp6_to_def)
  with 1 show ?thesis by (simp add: isUDPDstPortIPv6_def)
next
  case (2 p q)
  then obtain k where k: "40 \<le> length pkt" "k < 8" "v6_chain pkt k (pkt ! 6) 40 p q"
    by (auto simp: ipv6TransportHeader_iff)
  then have "udp6_to pkt port \<longleftrightarrow> p = ProtocolUDP \<and> q + 4 \<le> length pkt \<and>
      be16 (pkt ! (q + 2)) (pkt ! (q + 3)) = port"
    using v6_chain_unique [OF k(3)] unfolding udp6_to_def by metis
  with 2 show ?thesis
    by (cases "length pkt < q + 4")
      (simp_all add: isUDPDstPortIPv6_def go_simps numeral_3_eq_3 numeral_2_eq_2)
qed

lemma shouldBlockICMP_v4_eq:
  "shouldBlockICMP pkt False =
     Some (length pkt < 20 \<or> length pkt \<le> ihl_of pkt \<or> isICMPEchoType (pkt ! ihl_of pkt))"
  by (cases "pkt = []") (auto simp: shouldBlockICMP_def ihl_of_def go_simps Let_def)

lemma shouldBlockICMPv6_eq:
  "shouldBlockICMPv6 pkt off = Some (length pkt \<le> off \<or> isICMPEchoType (pkt ! off))"
  by (auto simp: shouldBlockICMPv6_def go_simps)

lemmas classifier_eqs = isUDPDstPortIPv4_eq isUDPDstPortIPv6_eq shouldBlockICMP_v4_eq shouldBlockICMPv6_eq

subsection \<open>Properties\<close>

text \<open>
  C27: the extension header walk is exact up to its bound. \<open>ipv6TransportHeader\<close> never
  panics; it reports protocol \<open>p\<close> at offset \<open>q\<close> exactly when the packet has a fixed header
  and a chain of at most 7 extension headers, each inside the packet, leads to \<open>p\<close> at \<open>q\<close>;
  that offset lies inside the packet, past the fixed header, on an 8-byte boundary.
\<close>

theorem ipv6TransportHeader_exact:
  "ipv6TransportHeader pkt \<noteq> None \<and>
   (ipv6TransportHeader pkt = Some (Some (p, q)) \<longleftrightarrow>
      40 \<le> length pkt \<and> (\<exists>k < 8. v6_chain pkt k (pkt ! 6) 40 p q)) \<and>
   (ipv6TransportHeader pkt = Some (Some (p, q)) \<longrightarrow>
      40 \<le> q \<and> q \<le> length pkt \<and> q mod 8 = 0 \<and> p \<notin> {0, 43, 44, 59, 60})"
proof -
  have "40 \<le> q \<and> q \<le> length pkt \<and> q mod 8 = 0 \<and> p \<notin> {0, 43, 44, 59, 60}"
    if "ipv6TransportHeader pkt = Some (Some (p, q))"
  proof -
    from that obtain k where "v6_chain pkt k (pkt ! 6) 40 p q"
      by (auto simp: ipv6TransportHeader_iff)
    from v6_chain_octets [OF this] v6_chain_inside [OF this] v6_chain_upper [OF this]
    show ?thesis by auto
  qed
  then show ?thesis
    using ipv6TransportHeader_total [of pkt] ipv6TransportHeader_iff [of pkt p q] by blast
qed

text \<open>A UDP datagram to port 443 behind one Hop-by-Hop header, 40 + 8 + 8 bytes.\<close>

definition hop_udp443 :: bytes where
  "hop_udp443 = [0x60, 0, 0, 0, 0, 16, 0, 64] @ replicate 32 0 @
     [ProtocolUDP, 0, 0, 0, 0, 0, 0, 0] @ [0, 1, 1, 187, 0, 8, 0, 0]"

lemma ipv6TransportHeader_exact_witness:
  "ipv6TransportHeader hop_udp443 = Some (Some (ProtocolUDP, 48)) \<and> (48 :: nat) mod 8 = 0"
proof -
  have "ipv6TransportHeader hop_udp443 = Some (Some (ProtocolUDP, 48))"
    by code_simp
  with ipv6TransportHeader_exact [of hop_udp443 ProtocolUDP 48] show ?thesis by blast
qed

text \<open>
  The classifiers the read loop calls are total and decide what they say. On every byte
  string they return without a panic: \<open>isUDPDstPortIPv4\<close> and \<open>isUDPDstPortIPv6\<close> decide
  \<open>udp4_to\<close> and \<open>udp6_to\<close>, and the echo filters block exactly truncated headers and echo
  types.
\<close>

theorem classifiers_total:
  "isUDPDstPortIPv4 pkt port = Some (udp4_to pkt port) \<and>
   isUDPDstPortIPv6 pkt port = Some (udp6_to pkt port) \<and>
   shouldBlockICMP pkt False =
     Some (length pkt < 20 \<or> length pkt \<le> ihl_of pkt \<or> isICMPEchoType (pkt ! ihl_of pkt)) \<and>
   shouldBlockICMPv6 pkt off = Some (length pkt \<le> off \<or> isICMPEchoType (pkt ! off))"
  by (simp add: classifier_eqs)

text \<open>
  The IPv6 branch of \<open>shouldBlockICMP\<close>, which the read loop does not take, is off by
  one: it reads byte 40 of packets of 40 bytes or more, so it panics exactly on a bare IPv6
  header of 40 bytes.
\<close>

theorem shouldBlockICMP_v6_branch_panics:
  "shouldBlockICMP pkt True = None \<longleftrightarrow> length pkt = 40"
  by (auto simp: shouldBlockICMP_def go_at_def)

end
