(* ===== verification/Checksum.thy ===== *)
theory Checksum
  imports Prelude
begin

text \<open>
  The Internet checksum of \<open>go/icmp_reject.go\<close>, on 32-bit words as the code computes it: the
  summing loop (\<open>sum_words\<close>, with the odd last byte), the carry folding loop (\<open>fold_carry\<close>)
  and the complement. The reference is the one's-complement sum of RFC 1071 over natural
  numbers (\<open>wsum\<close>, \<open>ones\<close>); the accumulator of the code does not wrap for messages of at
  most 131074 bytes, so the code computes the reference on every packet it handles.
\<close>

subsection \<open>The loops of the code\<close>

fun sum_words :: "u32 \<Rightarrow> bytes \<Rightarrow> u32" where
  "sum_words s (h # l # bs) = sum_words (s + (push_bit 8 (ucast h) OR ucast l)) bs"
| "sum_words s [b] = s + push_bit 8 (ucast b)"
| "sum_words s [] = s"

lemma unat_drop16: "unat (drop_bit 16 (s :: u32)) = unat s div 65536"
  by (simp only: unat_drop_bit_eq) (simp add: drop_bit_eq_div)

lemma fold_carry_term:
  assumes "drop_bit 16 (s :: u32) \<noteq> 0"
  shows "unat ((s AND 0xFFFF) + drop_bit 16 s) = unat s mod 65536 + unat s div 65536"
    and "unat s mod 65536 + unat s div 65536 < unat s"
proof -
  note d = unat_drop16 [of s]
  have "s AND 0xFFFF = take_bit 16 s"
    by (simp add: take_bit_eq_mask mask_eq_exp_minus_1)
  then have m: "unat (s AND 0xFFFF) = unat s mod 65536"
    by (simp only: unsigned_take_bit_eq) (simp add: take_bit_eq_mod)
  have "unat s < 4294967296" using unsigned_less [of s, where ?'a = nat] by simp
  then have "unat s div 65536 < 65536" by linarith
  then show "unat ((s AND 0xFFFF) + drop_bit 16 s) = unat s mod 65536 + unat s div 65536"
    by (simp add: unat_word_ariths m d)
  have "unat s div 65536 \<noteq> 0" using assms d by (metis unat_eq_zero)
  then show "unat s mod 65536 + unat s div 65536 < unat s"
    using div_mult_mod_eq [of "unat s" 65536] by linarith
qed

function fold_carry :: "u32 \<Rightarrow> u32" where
  "fold_carry s = (if drop_bit 16 s \<noteq> 0 then fold_carry ((s AND 0xFFFF) + drop_bit 16 s) else s)"
  by pat_completeness auto
termination
  by (relation "measure unat") (use fold_carry_term in auto)

declare fold_carry.simps [simp del]

definition internetChecksum :: "bytes \<Rightarrow> u16" where
  "internetChecksum b = NOT (ucast (fold_carry (sum_words 0 b)))"

subsection \<open>Reference: one's-complement sums\<close>

text \<open>Sum of the 16-bit words, a last odd byte padded with zero.\<close>

fun wsum :: "bytes \<Rightarrow> nat" where
  "wsum (h # l # bs) = unat h * 256 + unat l + wsum bs"
| "wsum [b] = unat b * 256"
| "wsum [] = 0"

text \<open>A sum with its carries folded back: the representative of 1 to 65535, or 0.\<close>

definition ones :: "nat \<Rightarrow> nat" where
  "ones n = (if n = 0 then 0 else (n - 1) mod 65535 + 1)"

lemma ones_small: "n < 65536 \<Longrightarrow> ones n = n"
  by (cases "n = 0") (auto simp: ones_def)

lemma ones_bound: "ones n < 65536"
  using mod_less_divisor [of 65535 "n - 1"] by (simp add: ones_def)

lemma ones_fold: "ones (n mod 65536 + n div 65536) = ones n"
proof (cases "n = 0")
  case False
  let ?m = "n mod 65536 + n div 65536"
  have "n = ?m + 65535 * (n div 65536)" using div_mult_mod_eq [of n 65536] by linarith
  moreover have "0 < ?m" using False by (auto intro: ccontr dest: gr0I)
  ultimately have "n - 1 = (?m - 1) + 65535 * (n div 65536)" by linarith
  then have "(n - 1) mod 65535 = (?m - 1) mod 65535" by simp
  with \<open>0 < ?m\<close> False show ?thesis by (simp add: ones_def)
qed (simp add: ones_def)

lemma wsum_bound: "wsum b \<le> 65535 * ((length b + 1) div 2)"
proof (induction b rule: wsum.induct)
  case (1 h l bs)
  have "unat h * 256 + unat l \<le> 65535"
    using unat_byte [of h] unat_byte [of l] by linarith
  with 1 show ?case by simp
next
  case (2 b)
  have "unat b * 256 \<le> 65535" using unat_byte [of b] by linarith
  then show ?case by simp
qed simp

lemma wsum_append: "even (length xs) \<Longrightarrow> wsum (xs @ ys) = wsum xs + wsum ys"
  by (induction xs rule: wsum.induct) auto

lemma wsum_replicate_0 [simp]: "wsum (replicate n 0) = 0"
proof (induction n rule: less_induct)
  case (less n)
  then show ?case by (cases n; cases "n - 1") auto
qed

subsection \<open>The code computes the reference\<close>

lemma word16_u32: "unat (push_bit 8 (ucast (h :: byte)) OR ucast (l :: byte) :: u32) = unat h * 256 + unat l"
proof -
  have "(push_bit 8 (ucast h) OR ucast l :: u32) = push_bit 8 (ucast h) + ucast l"
    by (rule disjunctive_add [symmetric]) (auto simp: bit_simps dest: bit_imp_le_length)
  moreover have "unat (push_bit 8 (ucast h :: u32)) = unat h * 256"
  proof -
    have "unat h * 256 < 4294967296" "unat h < 4294967296" using unat_byte [of h] by linarith+
    then show ?thesis
      by (simp add: push_bit_eq_mult unat_word_ariths unsigned_ucast_eq take_bit_eq_mod)
  qed
  moreover have "unat (ucast l :: u32) = unat l"
    using less_trans [OF unat_byte [of l], of 4294967296] by (simp add: unsigned_ucast_eq take_bit_eq_mod)
  moreover have "unat h * 256 + unat l < 4294967296"
    using unat_byte [of h] unat_byte [of l] by linarith
  ultimately show ?thesis by (simp add: unat_word_ariths)
qed

lemma unat_add_u32: "unat (a :: u32) + unat b < 4294967296 \<Longrightarrow> unat (a + b) = unat a + unat b"
  by (simp add: unat_word_ariths)

lemma unat_sum_words: "unat s + wsum b < 4294967296 \<Longrightarrow> unat (sum_words s b) = unat s + wsum b"
proof (induction s b rule: sum_words.induct)
  case (1 s h l bs)
  then show ?case by (simp add: unat_add_u32 word16_u32)
next
  case (2 s b)
  have "unat (push_bit 8 (ucast b) :: u32) = unat b * 256"
    using word16_u32 [of b 0] by simp
  with 2 show ?case by (simp add: unat_add_u32)
qed simp

lemma unat_fold_carry: "unat (fold_carry s) = ones (unat s)"
proof (induction s rule: fold_carry.induct)
  case (1 s)
  show ?case
  proof (cases "drop_bit 16 s = 0")
    case True
    then have "unat s div 65536 = 0"
      by (metis unat_drop16 unat_0)
    with True show ?thesis by (subst fold_carry.simps) (simp add: ones_small)
  next
    case False
    then show ?thesis
      using 1 fold_carry_term(1) [OF False] by (subst fold_carry.simps) (simp add: ones_fold)
  qed
qed

lemma unat_not_u16: "unat (NOT (x :: u16)) = 65535 - unat x"
proof -
  have "NOT x = - 1 - x" by (simp add: not_eq_complement)
  moreover have "unat (- 1 :: u16) = 65535" by (simp add: unsigned_minus_1_eq_mask mask_eq_exp_minus_1)
  ultimately show ?thesis by (metis unat_sub word_order.extremum word_le_nat_alt)
qed

lemma unat_folded_not:
  assumes "unat s = n"
  shows "unat (NOT (ucast (fold_carry s) :: u16)) = 65535 - ones n"
proof -
  have "unat (ucast (fold_carry s) :: u16) = ones n"
    using ones_bound [of n] assms by (simp add: unsigned_ucast_eq unat_fold_carry take_bit_eq_mod)
  then show ?thesis by (simp add: unat_not_u16)
qed

lemma wsum_no_overflow: "length b \<le> 131074 \<Longrightarrow> wsum b < 4294967296"
proof -
  assume "length b \<le> 131074"
  then have "(length b + 1) div 2 \<le> 65537" by linarith
  then have "65535 * ((length b + 1) div 2) \<le> 65535 * 65537" by simp
  with wsum_bound [of b] show ?thesis by linarith
qed

lemma internetChecksum_ones:
  "length b \<le> 131074 \<Longrightarrow> unat (internetChecksum b) = 65535 - ones (wsum b)"
  unfolding internetChecksum_def
  by (rule unat_folded_not) (simp add: unat_sum_words wsum_no_overflow)


subsection \<open>End-around carry\<close>

text \<open>
  One's-complement addition as RFC 1071 defines it, one word after the other with the carry
  added back at once; the folded sum of the code is the same number.
\<close>

definition oc_add :: "nat \<Rightarrow> nat \<Rightarrow> nat" where
  "oc_add a b = (if a + b > 65535 then a + b - 65535 else a + b)"

fun oc_sum :: "nat \<Rightarrow> bytes \<Rightarrow> nat" where
  "oc_sum acc (h # l # bs) = oc_sum (oc_add acc (unat h * 256 + unat l)) bs"
| "oc_sum acc [b] = oc_add acc (unat b * 256)"
| "oc_sum acc [] = acc"

lemma ones_add: "w \<le> 65535 \<Longrightarrow> oc_add (ones n) w = ones (n + w)"
proof -
  assume w: "w \<le> 65535"
  show ?thesis
  proof (cases "n = 0")
    case False
    define q r where "q = (n - 1) div 65535" and "r = (n - 1) mod 65535"
    have r: "r < 65535" by (simp add: r_def)
    have n: "n - 1 = 65535 * q + r" by (simp add: q_def r_def)
    have "(n + w - 1) mod 65535 = (r + w) mod 65535"
      using False n by (metis Nat.add_diff_assoc2 add.assoc mod_mult_self4 less_one linorder_not_less)
    also have "\<dots> = (if r + w < 65535 then r + w else r + w - 65535)"
    proof (cases "r + w < 65535")
      case False
      then have "(r + w) mod 65535 = (r + w - 65535) mod 65535" by (simp add: mod_if)
      also have "\<dots> = r + w - 65535" using r w by simp
      finally show ?thesis using False by simp
    qed simp
    finally have "ones (n + w) = (if r + w < 65535 then r + w else r + w - 65535) + 1"
      using False by (simp add: ones_def)
    moreover have "ones n = r + 1" using False by (simp add: ones_def r_def)
    ultimately show ?thesis using w by (auto simp: oc_add_def)
  qed (use w in \<open>simp add: ones_small oc_add_def ones_def\<close>)
qed

lemma oc_sum_ones: "oc_sum (ones n) b = ones (n + wsum b)"
proof (induction b arbitrary: n rule: wsum.induct)
  case (1 h l bs)
  have "unat h * 256 + unat l \<le> 65535"
    using unat_byte [of h] unat_byte [of l] by linarith
  then show ?case using 1 [of "n + (unat h * 256 + unat l)"] by (simp add: ones_add add.assoc)
next
  case (2 b)
  have "unat b * 256 \<le> 65535" using unat_byte [of b] by linarith
  then show ?case by (simp add: ones_add)
qed simp

lemma oc_sum_wsum: "oc_sum 0 b = ones (wsum b)"
  using oc_sum_ones [of 0 b] by (simp add: ones_def [of 0])

subsection \<open>Storing a checksum\<close>

lemma ones_complement: "ones (n + (65535 - ones n)) = 65535"
proof (cases "n = 0")
  case False
  define q r where "q = (n - 1) div 65535" and "r = (n - 1) mod 65535"
  have r: "r < 65535" by (simp add: r_def)
  have "n = 65535 * q + r + 1" using False div_mult_mod_eq [of "n - 1" 65535]
    by (simp add: q_def r_def mult.commute)
  moreover have "ones n = r + 1" using False by (simp add: ones_def r_def)
  ultimately have "n + (65535 - ones n) = 65535 * (q + 1)" using r by simp
  moreover have "65535 * (q + 1) - 1 = 65534 + 65535 * q" by simp
  ultimately show ?thesis by (simp add: ones_def)
qed (simp add: ones_def)

lemma unat_hi8_lo8: "unat (hi8 v) * 256 + unat (lo8 v) = unat v"
  by (metis be16_hi8_lo8 unat_be16)

lemma wsum_put16:
  assumes "even off" and "Suc off < length m" and "m ! off = 0" and "m ! Suc off = 0"
  shows "wsum (m[off := hi8 v, Suc off := lo8 v]) = wsum m + unat v"
proof -
  obtain xs ys where m: "m = xs @ [0, 0] @ ys" and len: "length xs = off"
    using assms(2-4) that [of "take off m" "drop (Suc (Suc off)) m"]
    by (metis Cons_nth_drop_Suc Suc_lessD append_Cons append_Nil append_take_drop_id length_take
        less_imp_le_nat min.absorb2)
  have "m[off := hi8 v, Suc off := lo8 v] = xs @ [hi8 v, lo8 v] @ ys"
    by (simp add: m list_update_append flip: len)
  then show ?thesis
    using assms(1) len by (simp add: m wsum_append unat_hi8_lo8)
qed

lemma stored_checksum:
  assumes "even off" and "Suc off < length m" and "m ! off = 0" and "m ! Suc off = 0"
    and "unat v = 65535 - ones (n + wsum m)"
  shows "ones (n + wsum (m[off := hi8 v, Suc off := lo8 v])) = 65535"
  using ones_complement [of "n + wsum m"] by (simp add: wsum_put16 [OF assms(1-4)] assms(5) add.assoc)

subsection \<open>Properties\<close>

text \<open>
  C32: the checksum of the code is the one of RFC 1071: the complement of the
  one's-complement sum (end-around carry, an odd last byte padded) of the message, for every
  message of at most 131074 bytes, beyond which the 32-bit accumulator could wrap.
\<close>

theorem internetChecksum_rfc1071:
  assumes "length b \<le> 131074"
  shows "unat (internetChecksum b) = 65535 - oc_sum 0 b"
  using internetChecksum_ones [OF assms] by (simp add: oc_sum_wsum)

lemma internetChecksum_rfc1071_witness:
  "unat (internetChecksum [0, 1, 0xf2, 3, 0xf4, 0xf5, 0xf6, 0xf7]) = 0x220d"
  using internetChecksum_rfc1071 [of "[0, 1, 0xf2, 3, 0xf4, 0xf5, 0xf6, 0xf7]"]
  by (simp add: oc_add_def)

text \<open>
  A checksum written into its zeroed field at an even offset makes the receiver's check
  succeed: the one's-complement sum of the finished message is all ones, and recomputing the
  checksum over it gives zero.
\<close>

theorem stored_checksum_verifies:
  assumes "length m \<le> 131074" and "even off" and "Suc off < length m"
    and "m ! off = 0" and "m ! Suc off = 0"
    and "put16 m off (internetChecksum m) = Some m'"
  shows "oc_sum 0 m' = 65535 \<and> internetChecksum m' = 0"
proof -
  have m': "m' = m[off := hi8 (internetChecksum m), Suc off := lo8 (internetChecksum m)]"
    using assms(3,6) by (simp add: put16_def split: if_splits)
  have "ones (wsum m') = 65535"
    using stored_checksum [OF assms(2-5), of "internetChecksum m" 0] internetChecksum_ones [OF assms(1)]
    by (simp add: m')
  moreover have "length m' \<le> 131074" using assms(1) by (simp add: m')
  ultimately show ?thesis
    using internetChecksum_ones [of m'] by (simp add: oc_sum_wsum unat_eq_zero)
qed

lemma stored_checksum_verifies_witness:
  "internetChecksum [3, 3, hi8 (internetChecksum [3, 3, 0, 0, 7]), lo8 (internetChecksum [3, 3, 0, 0, 7]), 7] = 0"
proof -
  have "put16 [3, 3, 0, 0, 7] 2 v = Some [3, 3, hi8 v, lo8 v, 7]" for v
    by (simp add: put16_def numeral_2_eq_2)
  from stored_checksum_verifies [OF _ _ _ _ _ this] show ?thesis by simp
qed

end
