(* ===== verification/ICMP_Reject.thy ===== *)
theory ICMP_Reject
  imports Packet_Filter Checksum
begin

text \<open>
  The ICMP Port Unreachable answers of \<open>go/icmp_reject.go\<close>, byte by byte as the code builds
  them: zeroed buffers, checked writes, copies, checksums. \<open>Some None\<close> is the nil result for
  a packet the builder does not handle. The closed forms show what is on the wire.
\<close>

definition buildICMPv4PortUnreachable :: "bytes \<Rightarrow> bytes option go" where
  "buildICMPv4PortUnreachable pkt =
     (if length pkt < 28 then Some None
      else do {
        p9 \<leftarrow> go_at pkt 9;
        if p9 \<noteq> ProtocolUDP then Some None
        else do {
          b0 \<leftarrow> go_at pkt 0;
          let ihl = unat (b0 AND 0x0F) * 4;
          if ihl < 20 \<or> length pkt < ihl + 8 then Some None
          else do {
            let bodyLen = ihl + 8;
            let icmpLen = 8 + bodyLen;
            let icmp = replicate icmpLen 0;
            icmp \<leftarrow> go_set icmp 0 3;
            icmp \<leftarrow> go_set icmp 1 3;
            body \<leftarrow> go_slice pkt 0 bodyLen;
            let icmp = go_copy icmp 8 body;
            icmp \<leftarrow> put16 icmp 2 (internetChecksum icmp);
            let totalLen = 20 + icmpLen;
            let out = replicate totalLen 0;
            out \<leftarrow> go_set out 0 0x45;
            out \<leftarrow> put16 out 2 (word_of_nat totalLen);
            out \<leftarrow> go_set out 8 64;
            out \<leftarrow> go_set out 9 ProtocolICMP;
            dst \<leftarrow> go_slice pkt 16 20;
            let out = go_copy out 12 dst;
            src \<leftarrow> go_slice pkt 12 16;
            let out = go_copy out 16 src;
            hdr \<leftarrow> go_slice out 0 20;
            out \<leftarrow> put16 out 10 (internetChecksum hdr);
            let out = go_copy out 20 icmp;
            Some (Some out) } } })"

definition buildICMPv6PortUnreachable :: "bytes \<Rightarrow> bytes option go" where
  "buildICMPv6PortUnreachable pkt =
     (if length pkt < 48 then Some None
      else do {
        p6 \<leftarrow> go_at pkt 6;
        if p6 \<noteq> ProtocolUDP then Some None
        else do {
          let bodyLen = (if length pkt < 48 then length pkt else 48);
          let icmpLen = 8 + bodyLen;
          let icmp = replicate icmpLen 0;
          icmp \<leftarrow> go_set icmp 0 1;
          icmp \<leftarrow> go_set icmp 1 4;
          body \<leftarrow> go_slice pkt 0 bodyLen;
          let icmp = go_copy icmp 8 body;
          let totalLen = 40 + icmpLen;
          let out = replicate totalLen 0;
          out \<leftarrow> go_set out 0 0x60;
          out \<leftarrow> put16 out 4 (word_of_nat icmpLen);
          out \<leftarrow> go_set out 6 ProtocolICMPv6;
          out \<leftarrow> go_set out 7 64;
          dst \<leftarrow> go_slice pkt 24 40;
          let out = go_copy out 8 dst;
          src \<leftarrow> go_slice pkt 8 24;
          let out = go_copy out 24 src;
          a \<leftarrow> go_slice out 8 24;
          b \<leftarrow> go_slice out 24 40;
          let s = sum_words (sum_words 0 a) b;
          let s = s + word_of_nat icmpLen;
          let s = s + ucast ProtocolICMPv6;
          let s = sum_words s icmp;
          icmp \<leftarrow> put16 icmp 2 (NOT (ucast (fold_carry s)));
          let out = go_copy out 40 icmp;
          Some (Some out) } })"

subsection \<open>Closed forms\<close>

lemma replicate_5 [simp]: "replicate 20 (0 :: byte) = [0,0,0,0,0, 0,0,0,0,0, 0,0,0,0,0, 0,0,0,0,0]"
  by (simp add: numeral_eq_Suc)

lemma replicate_zeros:
  "replicate (8 + n) (0 :: byte) = [0,0,0,0, 0,0,0,0] @ replicate n 0"
  "replicate (20 + n) (0 :: byte) = [0,0,0,0,0, 0,0,0,0,0, 0,0,0,0,0, 0,0,0,0,0] @ replicate n 0"
  "replicate (40 + n) (0 :: byte) = [0,0,0,0,0, 0,0,0,0,0, 0,0,0,0,0, 0,0,0,0,0,
     0,0,0,0,0, 0,0,0,0,0, 0,0,0,0,0, 0,0,0,0,0] @ replicate n 0"
  by (simp_all add: replicate_add numeral_eq_Suc)

lemma go_copy_exact:
  "length xs = off \<Longrightarrow> length ys = length zs \<Longrightarrow> go_copy (xs @ ys @ r) off zs = xs @ zs @ r"
  by (simp add: go_copy_def)

text \<open>The ICMPv4 message and the IPv4 header before their checksums.\<close>

definition icmp4_msg :: "bytes \<Rightarrow> bytes" where
  "icmp4_msg body = [3, 3, 0, 0, 0, 0, 0, 0] @ body"

definition ip4_hdr :: "nat \<Rightarrow> bytes \<Rightarrow> bytes \<Rightarrow> bytes" where
  "ip4_hdr totalLen src dst =
     [0x45, 0, hi8 (word_of_nat totalLen), lo8 (word_of_nat totalLen), 0, 0, 0, 0, 64, 1, 0, 0] @ src @ dst"

definition with_checksum :: "nat \<Rightarrow> u16 \<Rightarrow> bytes \<Rightarrow> bytes" where
  "with_checksum off v b = b[off := hi8 v, Suc off := lo8 v]"

lemma length_with_checksum [simp]: "length (with_checksum off v b) = length b"
  by (simp add: with_checksum_def)

definition v4_rejectable :: "bytes \<Rightarrow> bool" where
  "v4_rejectable pkt \<longleftrightarrow> 28 \<le> length pkt \<and> pkt ! 9 = ProtocolUDP \<and> 20 \<le> ihl_of pkt \<and>
     ihl_of pkt + 8 \<le> length pkt"

definition reject4 :: "bytes \<Rightarrow> bytes" where
  "reject4 pkt =
     (let icmp = icmp4_msg (take (ihl_of pkt + 8) pkt);
          hdr = ip4_hdr (36 + ihl_of pkt) (take 4 (drop 16 pkt)) (take 4 (drop 12 pkt))
      in with_checksum 10 (internetChecksum hdr) hdr @ with_checksum 2 (internetChecksum icmp) icmp)"

lemma buildICMPv4_eq:
  "buildICMPv4PortUnreachable pkt = Some (if v4_rejectable pkt then Some (reject4 pkt) else None)"
proof (cases "v4_rejectable pkt")
  case True
  then have L: "\<not> length pkt < 28" "pkt ! 9 = ProtocolUDP" "\<not> ihl_of pkt < 20" "\<not> length pkt < ihl_of pkt + 8"
    "go_at pkt 9 = Some (pkt ! 9)" "go_at pkt 0 = Some (pkt ! 0)"
    by (auto simp: v4_rejectable_def go_at_def)
  have "length (take 4 (drop 16 pkt)) = 4" "length (take 4 (drop 12 pkt)) = 4" using L by auto
  then obtain d0 d1 d2 d3 s0 s1 s2 s3 where d: "take 4 (drop 16 pkt) = [d0, d1, d2, d3]"
     and s: "take 4 (drop 12 pkt) = [s0, s1, s2, s3]"
    by (metis list4)
  define body where "body = take (ihl_of pkt + 8) pkt"
  have b: "length body = ihl_of pkt + 8" using L by (simp add: body_def)
  obtain n where n: "ihl_of pkt = n" by simp
  have ihl: "unat (pkt ! 0 AND 15) * 4 = n" "\<not> unat (pkt ! 0 AND 15) < 5" "\<not> length pkt < n + 8"
    using L n by (auto simp: ihl_of_def)
  have z: "replicate (16 + n) (0 :: byte) = [0,0,0,0, 0,0,0,0] @ replicate (8 + n) 0"
    "replicate (36 + n) (0 :: byte) = [0,0,0,0,0, 0,0,0,0,0, 0,0,0,0,0, 0,0,0,0,0] @ replicate (16 + n) 0"
    using replicate_zeros(1) [of "8 + n"] replicate_zeros(2) [of "16 + n"] by (simp_all del: replicate_zeros)
  have slices: "go_slice pkt 0 (n + 8) = Some body" "go_slice pkt 16 20 = Some [d0, d1, d2, d3]"
     "go_slice pkt 12 16 = Some [s0, s1, s2, s3]"
    using L n d s by (simp_all add: go_slice_def body_def)
  have "reject4 pkt = with_checksum 10 (internetChecksum (ip4_hdr (36 + n) [d0, d1, d2, d3] [s0, s1, s2, s3]))
      (ip4_hdr (36 + n) [d0, d1, d2, d3] [s0, s1, s2, s3]) @ with_checksum 2 (internetChecksum (icmp4_msg body)) (icmp4_msg body)"
    by (simp add: reject4_def Let_def n d s body_def)
  then show ?thesis
    unfolding buildICMPv4PortUnreachable_def
    using b by (simp add: L Let_def True ihl z n slices go_set_def put16_def go_copy_def go_slice_def [of "_ # _"]
      icmp4_msg_def ip4_hdr_def with_checksum_def ProtocolICMP_def)
qed (auto simp: buildICMPv4PortUnreachable_def v4_rejectable_def go_at_def ihl_of_def Let_def)


definition icmp6_msg :: "bytes \<Rightarrow> bytes" where
  "icmp6_msg body = [1, 4, 0, 0, 0, 0, 0, 0] @ body"

definition ip6_hdr :: "nat \<Rightarrow> bytes \<Rightarrow> bytes \<Rightarrow> bytes" where
  "ip6_hdr icmpLen src dst =
     [0x60, 0, 0, 0, hi8 (word_of_nat icmpLen), lo8 (word_of_nat icmpLen), 58, 64] @ src @ dst"

definition icmp6_checksum :: "bytes \<Rightarrow> bytes \<Rightarrow> bytes \<Rightarrow> u16" where
  "icmp6_checksum src dst icmp =
     NOT (ucast (fold_carry (sum_words (sum_words (sum_words 0 src) dst + word_of_nat (length icmp) + 58) icmp)))"

definition v6_rejectable :: "bytes \<Rightarrow> bool" where
  "v6_rejectable pkt \<longleftrightarrow> 48 \<le> length pkt \<and> pkt ! 6 = ProtocolUDP"

definition reject6 :: "bytes \<Rightarrow> bytes" where
  "reject6 pkt =
     (let icmp = icmp6_msg (take 48 pkt);
          src = take 16 (drop 24 pkt);
          dst = take 16 (drop 8 pkt)
      in ip6_hdr 56 src dst @ with_checksum 2 (icmp6_checksum src dst icmp) icmp)"

lemma buildICMPv6_eq:
  "buildICMPv6PortUnreachable pkt = Some (if v6_rejectable pkt then Some (reject6 pkt) else None)"
proof (cases "v6_rejectable pkt")
  case True
  then have L: "\<not> length pkt < 48" "pkt ! 6 = ProtocolUDP" "go_at pkt 6 = Some (pkt ! 6)"
    by (auto simp: v6_rejectable_def go_at_def)
  define src dst where "src = take 16 (drop 24 pkt)" and "dst = take 16 (drop 8 pkt)"
  have ls: "length src = 16" "length dst = 16" using L by (auto simp: src_def dst_def)
  define body where "body = take 48 pkt"
  have b: "length body = 48" using L by (simp add: body_def)
  have slices: "go_slice pkt 0 48 = Some body" "go_slice pkt 24 40 = Some src" "go_slice pkt 8 24 = Some dst"
    using L by (simp_all add: go_slice_def body_def src_def dst_def)
  \<comment> \<open>the ICMP buffer\<close>
  define i1 i2 where "i1 = [1 :: byte, 0, 0, 0, 0, 0, 0, 0] @ replicate 48 0"
    and "i2 = [1 :: byte, 4, 0, 0, 0, 0, 0, 0] @ replicate 48 0"
  have z8: "replicate 56 (0 :: byte) = [0, 0, 0, 0, 0, 0, 0, 0] @ replicate 48 0"
    using replicate_zeros(1) [of 48] by simp
  have i: "go_set (replicate 56 0) 0 1 = Some i1" "go_set i1 (Suc 0) 4 = Some i2"
    "go_copy i2 8 body = icmp6_msg body"
    using b by (simp_all add: go_set_def i1_def i2_def z8 icmp6_msg_def go_copy_def)
  \<comment> \<open>the IPv6 buffer\<close>
  define h where "h = [0x60 :: byte, 0, 0, 0, hi8 56, lo8 56, 58, 64]"
  define o1 o2 o3 where "o1 = [0x60 :: byte, 0, 0, 0, 0, 0, 0, 0] @ replicate 88 0"
    and "o2 = [0x60 :: byte, 0, 0, 0, hi8 56, lo8 56, 0, 0] @ replicate 88 0"
    and "o3 = [0x60 :: byte, 0, 0, 0, hi8 56, lo8 56, 58, 0] @ replicate 88 0"
  have lh: "length h = 8" by (simp add: h_def)
  have z88: "replicate 96 (0 :: byte) = [0, 0, 0, 0, 0, 0, 0, 0] @ replicate 88 0"
    using replicate_zeros(1) [of 88] by simp
  have o: "go_set (replicate 96 0) 0 0x60 = Some o1" "put16 o1 4 56 = Some o2" "go_set o2 6 58 = Some o3"
    "go_set o3 7 64 = Some (h @ replicate 88 0)"
    by (simp_all add: go_set_def put16_def z88 o1_def o2_def o3_def h_def)
  have "replicate 88 (0 :: byte) = replicate 16 0 @ replicate 72 0" "replicate 72 (0 :: byte) = replicate 16 0 @ replicate 56 0"
    by (simp_all flip: replicate_add)
  then have copies: "go_copy (h @ replicate 88 0) 8 src = h @ src @ replicate 72 0"
    "go_copy (h @ src @ replicate 72 0) 24 dst = h @ src @ dst @ replicate 56 0"
    "length m = 56 \<Longrightarrow> go_copy (h @ src @ dst @ replicate 56 0) 40 m = h @ src @ dst @ m" for m
    using go_copy_exact [of h 8 "replicate 16 0" src "replicate 72 0"]
      go_copy_exact [of "h @ src" 24 "replicate 16 0" dst "replicate 56 0"]
      go_copy_exact [of "h @ src @ dst" 40 "replicate 56 0" m "[]"] lh ls by simp_all
  have cuts: "go_slice (h @ src @ dst @ replicate 56 0) 8 24 = Some src"
    "go_slice (h @ src @ dst @ replicate 56 0) 24 40 = Some dst"
    using lh ls by (simp_all add: go_slice_def)
  have li: "length (icmp6_msg body) = 56" using b by (simp add: icmp6_msg_def)
  have ck: "put16 (icmp6_msg body) 2 v = Some (with_checksum 2 v (icmp6_msg body))" for v
    using li by (simp add: put16_def with_checksum_def)
  define v where "v = NOT (ucast (fold_carry (sum_words (sum_words (sum_words 0 src) dst + 56 + 58) (icmp6_msg body))) :: u16)"
  have v': "NOT (ucast (fold_carry (sum_words (114 + sum_words (sum_words 0 src) dst) (icmp6_msg body))) :: u16) = v"
    by (simp add: v_def add.commute add.left_commute)
  have "reject6 pkt = h @ src @ dst @ with_checksum 2 v (icmp6_msg body)"
    by (simp add: reject6_def Let_def ip6_hdr_def h_def icmp6_checksum_def li v_def flip: src_def dst_def body_def)
  then show ?thesis
    unfolding buildICMPv6PortUnreachable_def
    by (simp add: L Let_def True slices i o copies cuts ck li v' protocol_defs)
qed (auto simp: buildICMPv6PortUnreachable_def v6_rejectable_def go_at_def Let_def)

subsection \<open>The finished messages\<close>

lemma with_checksum_ones:
  assumes "even off" and "Suc off < length m" and "m ! off = 0" and "m ! Suc off = 0"
    and "unat v = 65535 - ones (n + wsum m)"
  shows "ones (n + wsum (with_checksum off v m)) = 65535"
  using stored_checksum [OF assms] by (simp add: with_checksum_def)

lemma internet_with_checksum:
  assumes "even off" and "Suc off < length m" and "m ! off = 0" and "m ! Suc off = 0"
    and "length m \<le> 131074"
  shows "oc_sum 0 (with_checksum off (internetChecksum m) m) = 65535"
  using with_checksum_ones [OF assms(1-4), of "internetChecksum m" 0] internetChecksum_ones [OF assms(5)]
  by (simp add: oc_sum_wsum)

lemma drop_with_checksum: "Suc off < k \<Longrightarrow> drop k (with_checksum off v m) = drop k m"
  by (simp add: with_checksum_def drop_update_cancel)

lemma nth_with_checksum: "i \<noteq> off \<Longrightarrow> i \<noteq> Suc off \<Longrightarrow> with_checksum off v m ! i = m ! i"
  by (simp add: with_checksum_def)

lemma icmp4_msg_simps:
  "length (icmp4_msg body) = 8 + length body" "icmp4_msg body ! 0 = 3" "icmp4_msg body ! Suc 0 = 3"
  "icmp4_msg body ! 2 = 0" "icmp4_msg body ! 3 = 0" "drop 8 (icmp4_msg body) = body"
  by (simp_all add: icmp4_msg_def)

lemma icmp6_msg_simps:
  "length (icmp6_msg body) = 8 + length body" "icmp6_msg body ! 0 = 1" "icmp6_msg body ! Suc 0 = 4"
  "icmp6_msg body ! 2 = 0" "icmp6_msg body ! 3 = 0" "drop 8 (icmp6_msg body) = body"
  by (simp_all add: icmp6_msg_def)

text \<open>
  The ICMPv6 checksum covers the pseudo-header of RFC 8200: source, destination, the length
  of the message in 32 bits, three zeros and the next header 58.
\<close>

definition icmp6_pseudo :: "bytes \<Rightarrow> bytes \<Rightarrow> nat \<Rightarrow> bytes" where
  "icmp6_pseudo src dst len =
     src @ dst @ [0, 0, hi8 (word_of_nat len), lo8 (word_of_nat len), 0, 0, 0, ProtocolICMPv6]"

lemma icmp6_checksum_verifies:
  assumes src: "length src = 16" and dst: "length dst = 16" and len: "length m = 56"
    and z: "m ! 2 = 0" "m ! 3 = 0"
  shows "oc_sum 0 (icmp6_pseudo src dst 56 @ with_checksum 2 (icmp6_checksum src dst m) m) = 65535"
proof -
  have b: "wsum src \<le> 65535 * 8" "wsum dst \<le> 65535 * 8" "wsum m \<le> 65535 * 28"
    using wsum_bound [of src] wsum_bound [of dst] wsum_bound [of m] assms by simp_all
  have sd: "unat (sum_words (sum_words 0 src) dst) = wsum src + wsum dst"
    using b by (simp add: unat_sum_words)
  have "unat (sum_words (sum_words 0 src) dst + word_of_nat (length m) + 58) = wsum src + wsum dst + 114"
  proof -
    have "unat (114 :: u32) = 114" by code_simp
    then have "unat (sum_words (sum_words 0 src) dst + 114) = wsum src + wsum dst + 114"
      using b sd unat_add_u32 [of "sum_words (sum_words 0 src) dst" 114] by simp
    then show ?thesis by (simp add: len add.assoc)
  qed
  then have "unat (sum_words (sum_words (sum_words 0 src) dst + word_of_nat (length m) + 58) m)
      = (wsum src + wsum dst + 114) + wsum m"
    using b by (simp add: unat_sum_words)
  then have "unat (icmp6_checksum src dst m) = 65535 - ones ((wsum src + wsum dst + 114) + wsum m)"
    unfolding icmp6_checksum_def by (rule unat_folded_not)
  from with_checksum_ones [OF _ _ _ _ this, of 2]
  have "ones ((wsum src + wsum dst + 114) + wsum (with_checksum 2 (icmp6_checksum src dst m) m)) = 65535"
    using len z by (simp add: numeral_3_eq_3)
  moreover have "wsum (icmp6_pseudo src dst 56) = wsum src + wsum dst + 114"
  proof -
    have "unat (hi8 56) * 256 + unat (lo8 56) = 56" by code_simp
    then show ?thesis using src dst by (simp add: icmp6_pseudo_def wsum_append ProtocolICMPv6_def)
  qed
  moreover have "even (length (icmp6_pseudo src dst 56))" using src dst by (simp add: icmp6_pseudo_def)
  ultimately show ?thesis by (simp only: oc_sum_wsum wsum_append)
qed

lemma rejected_v4_length: "length (reject4 pkt) = 36 + ihl_of pkt" if "v4_rejectable pkt"
  using that by (auto simp: reject4_def Let_def ip4_hdr_def icmp4_msg_def v4_rejectable_def min_def)

subsection \<open>Properties\<close>

text \<open>
  C20: the ICMPv4 answer is well formed. For every UDP packet it accepts, the builder returns
  one IPv4 packet of at most 96 bytes from the packet's destination to its source, with its
  own length in the header, protocol ICMP, type 3 code 3, quoting the original header and its
  next 8 bytes; both the header checksum and the ICMP checksum verify at the receiver.
\<close>

theorem icmpv4_answer_wellformed:
  assumes "v4_rejectable pkt"
  shows "\<exists>hdr msg. buildICMPv4PortUnreachable pkt = Some (Some (hdr @ msg)) \<and>
    length hdr = 20 \<and> length (hdr @ msg) \<le> 96 \<and>
    hdr ! 0 = 0x45 \<and> unat (be16 (hdr ! 2) (hdr ! 3)) = length (hdr @ msg) \<and> hdr ! 9 = ProtocolICMP \<and>
    take 4 (drop 12 hdr) = take 4 (drop 16 pkt) \<and> take 4 (drop 16 hdr) = take 4 (drop 12 pkt) \<and>
    msg ! 0 = 3 \<and> msg ! 1 = 3 \<and> drop 8 msg = take (ihl_of pkt + 8) pkt \<and>
    oc_sum 0 hdr = 65535 \<and> oc_sum 0 msg = 65535"
proof -
  define src dst where "src = take 4 (drop 16 pkt)" and "dst = take 4 (drop 12 pkt)"
  define body where "body = take (ihl_of pkt + 8) pkt"
  define h where "h = ip4_hdr (36 + ihl_of pkt) src dst"
  define hdr msg where "hdr = with_checksum 10 (internetChecksum h) h"
    and "msg = with_checksum 2 (internetChecksum (icmp4_msg body)) (icmp4_msg body)"
  have l: "length src = 4" "length dst = 4" "length body = ihl_of pkt + 8" "ihl_of pkt \<le> 60"
    using assms ihl_of_bound by (auto simp: v4_rejectable_def src_def dst_def body_def)
  have h: "length h = 20" "h ! 0 = 0x45" "h ! 9 = 1" "h ! 10 = 0" "h ! Suc 10 = 0"
    "be16 (h ! 2) (h ! 3) = word_of_nat (36 + ihl_of pkt)"
    "take 4 (drop 12 h) = src" "take 4 (drop 16 h) = dst"
    using l by (simp_all add: h_def ip4_hdr_def)
  have "unat (word_of_nat (36 + ihl_of pkt) :: u16) = 36 + ihl_of pkt"
    using l(4) by (simp add: unat_of_nat take_bit_eq_mod del: of_nat_add)
  then have len: "unat (be16 (h ! 2) (h ! 3)) = 36 + ihl_of pkt" by (simp only: h)
  have sums: "oc_sum 0 hdr = 65535" "oc_sum 0 msg = 65535"
    unfolding hdr_def msg_def
    by (rule internet_with_checksum; use h l in \<open>simp add: icmp4_msg_simps\<close>)+
  have "buildICMPv4PortUnreachable pkt = Some (Some (hdr @ msg))"
    using assms by (simp add: buildICMPv4_eq reject4_def Let_def hdr_def msg_def h_def src_def dst_def body_def)
  then show ?thesis
    using sums l h len
    by (intro exI [of _ hdr] exI [of _ msg])
      (auto simp: hdr_def msg_def nth_with_checksum drop_with_checksum icmp4_msg_simps ProtocolICMP_def
        src_def dst_def body_def)
qed

text \<open>A QUIC datagram with an IPv4 header of 20 bytes, from 10.0.0.2:4096 to 1.2.3.4:443.\<close>

definition quic4 :: bytes where
  "quic4 = [0x45, 0, 0, 28, 0, 0, 0, 0, 64, 17, 0, 0, 10, 0, 0, 2, 1, 2, 3, 4,
     16, 0, 1, 187, 0, 8, 0, 0]"

lemma icmpv4_answer_wellformed_witness:
  "\<exists>hdr msg. buildICMPv4PortUnreachable quic4 = Some (Some (hdr @ msg)) \<and>
     take 4 (drop 16 hdr) = [10, 0, 0, 2] \<and> oc_sum 0 msg = 65535"
proof -
  have "v4_rejectable quic4" by code_simp
  from icmpv4_answer_wellformed [OF this] obtain hdr msg where
    "buildICMPv4PortUnreachable quic4 = Some (Some (hdr @ msg))"
    "take 4 (drop 16 hdr) = take 4 (drop 12 quic4)" "oc_sum 0 msg = 65535" by blast
  moreover have "take 4 (drop 12 quic4) = [10, 0, 0, 2]" by code_simp
  ultimately show ?thesis by auto
qed

text \<open>
  C21: the ICMPv6 answer is well formed. For every IPv6 packet with UDP directly behind its
  fixed header, the builder returns one packet of 96 bytes from the packet's destination to
  its source, next header ICMPv6, type 1 code 4, quoting the first 48 bytes of the packet, and
  the checksum verifies over pseudo-header and message.
\<close>

theorem icmpv6_answer_wellformed:
  assumes "v6_rejectable pkt"
  shows "\<exists>hdr msg. buildICMPv6PortUnreachable pkt = Some (Some (hdr @ msg)) \<and>
    length hdr = 40 \<and> length msg = 56 \<and>
    hdr ! 0 = 0x60 \<and> unat (be16 (hdr ! 4) (hdr ! 5)) = length msg \<and> hdr ! 6 = ProtocolICMPv6 \<and>
    take 16 (drop 8 hdr) = take 16 (drop 24 pkt) \<and> drop 24 hdr = take 16 (drop 8 pkt) \<and>
    msg ! 0 = 1 \<and> msg ! 1 = 4 \<and> drop 8 msg = take 48 pkt \<and>
    oc_sum 0 (icmp6_pseudo (take 16 (drop 8 hdr)) (drop 24 hdr) (length msg) @ msg) = 65535"
proof -
  define src dst where "src = take 16 (drop 24 pkt)" and "dst = take 16 (drop 8 pkt)"
  define body where "body = take 48 pkt"
  define hdr msg where "hdr = ip6_hdr 56 src dst"
    and "msg = with_checksum 2 (icmp6_checksum src dst (icmp6_msg body)) (icmp6_msg body)"
  have l: "length src = 16" "length dst = 16" "length body = 48"
    using assms by (auto simp: v6_rejectable_def src_def dst_def body_def)
  have h: "length hdr = 40" "hdr ! 0 = 0x60" "hdr ! 6 = 58" "be16 (hdr ! 4) (hdr ! 5) = 56"
    "take 16 (drop 8 hdr) = src" "drop 24 hdr = dst"
    using l by (simp_all add: hdr_def ip6_hdr_def)
  have m: "length msg = 56" "msg ! 0 = 1" "msg ! 1 = 4" "drop 8 msg = body"
    using l by (simp_all add: msg_def nth_with_checksum drop_with_checksum icmp6_msg_simps)
  have "oc_sum 0 (icmp6_pseudo src dst 56 @ msg) = 65535"
    unfolding msg_def by (rule icmp6_checksum_verifies) (use l in \<open>simp_all add: icmp6_msg_simps\<close>)
  moreover have "buildICMPv6PortUnreachable pkt = Some (Some (hdr @ msg))"
    using assms by (simp add: buildICMPv6_eq reject6_def Let_def hdr_def msg_def src_def dst_def body_def)
  ultimately show ?thesis
    using h m by (intro exI [of _ hdr] exI [of _ msg]) (auto simp: ProtocolICMPv6_def src_def dst_def body_def)
qed

text \<open>A QUIC datagram from 2001:db8::1 to 2001:db8::2, UDP right behind the fixed header.\<close>

definition quic6 :: bytes where
  "quic6 = [0x60, 0, 0, 0, 0, 8, 17, 64,
     0x20, 0x01, 0x0d, 0xb8, 0, 0, 0, 0, 0, 0, 0, 0, 0, 0, 0, 1,
     0x20, 0x01, 0x0d, 0xb8, 0, 0, 0, 0, 0, 0, 0, 0, 0, 0, 0, 2,
     16, 0, 1, 187, 0, 8, 0, 0]"

lemma icmpv6_answer_wellformed_witness:
  "\<exists>hdr msg. buildICMPv6PortUnreachable quic6 = Some (Some (hdr @ msg)) \<and>
     drop 8 msg = quic6 \<and> length msg = 56"
proof -
  have "v6_rejectable quic6" by code_simp
  from icmpv6_answer_wellformed [OF this] obtain hdr msg where
    "buildICMPv6PortUnreachable quic6 = Some (Some (hdr @ msg))"
    "drop 8 msg = take 48 quic6" "length msg = 56" by blast
  moreover have "take 48 quic6 = quic6" by code_simp
  ultimately show ?thesis by auto
qed

text \<open>
  Which rejected datagrams get no answer. The builders never panic; a packet classified
  as UDP to a port is left unanswered exactly when, on IPv4, it is cut inside the UDP header,
  and, on IPv6, when its UDP header is behind an extension header or cut. The read loop drops
  such packets with no answer.
\<close>

theorem unanswered_datagrams:
  "buildICMPv4PortUnreachable pkt \<noteq> None \<and> buildICMPv6PortUnreachable pkt \<noteq> None \<and>
   (isUDPDstPortIPv4 pkt port = Some True \<longrightarrow>
      (buildICMPv4PortUnreachable pkt = Some None \<longleftrightarrow> length pkt < ihl_of pkt + 8)) \<and>
   (isUDPDstPortIPv6 pkt port = Some True \<longrightarrow>
      (buildICMPv6PortUnreachable pkt = Some None \<longleftrightarrow> length pkt < 48 \<or> pkt ! 6 \<noteq> ProtocolUDP))"
  by (auto simp: buildICMPv4_eq buildICMPv6_eq classifier_eqs udp4_to_def v4_rejectable_def v6_rejectable_def)

lemma unanswered_datagrams_witness:
  "isUDPDstPortIPv6 hop_udp443 443 = Some True \<and> buildICMPv6PortUnreachable hop_udp443 = Some None"
proof -
  have "isUDPDstPortIPv6 hop_udp443 443 = Some True" "hop_udp443 ! 6 \<noteq> ProtocolUDP" by code_simp+
  with unanswered_datagrams [of hop_udp443 443] show ?thesis by simp
qed

end
