(* ===== verification/Tun_Loop.thy ===== *)
theory Tun_Loop
  imports Engine_State ICMP_Reject
begin

text \<open>
  The two TUN goroutines of \<open>go/engine.go\<close>. \<open>tunReadLoop\<close> takes every packet apps send,
  filters ICMP echo and QUIC, and injects the rest into the netstack; \<open>tunWriteLoop\<close> writes
  the netstack's packets back. A run of the read loop is driven by the list of what happens
  at its reads: a packet (with the outcome of the one write an answer to it would make), a
  read error, or a \<open>Stop\<close> of another goroutine in between. The loop ends when the list does
  or at its own return.
\<close>

definition IPv4ProtocolNumber :: u16 where "IPv4ProtocolNumber = 0x0800"
definition IPv6ProtocolNumber :: u16 where "IPv6ProtocolNumber = 0x86dd"

subsection \<open>One packet\<close>

text \<open>\<open>tunFile.Write\<close> of an answer; a failed write is only logged.\<close>

definition write_tun :: "bool \<Rightarrow> bytes \<Rightarrow> Engine \<Rightarrow> Engine" where
  "write_tun ok b e = (if ok then e\<lparr>tun_out := tun_out e @ [b]\<rparr> else e)"

definition answer :: "bool \<Rightarrow> bytes option \<Rightarrow> Engine \<Rightarrow> Engine" where
  "answer ok resp e = (case resp of None \<Rightarrow> e | Some b \<Rightarrow> write_tun ok b e)"

definition InjectInbound :: "u16 \<Rightarrow> bytes \<Rightarrow> Engine \<Rightarrow> Engine" where
  "InjectInbound proto pkt e = e\<lparr>injected := injected e @ [(proto, pkt)]\<rparr>"

text \<open>The body of the loop after a successful read of the bytes \<open>pkt\<close>.\<close>

definition handle_packet :: "bool \<Rightarrow> bytes \<Rightarrow> Engine \<Rightarrow> Engine go" where
  "handle_packet ok pkt e =
     (if length pkt = 0 then Some e
      else do {
        let e = e\<lparr>txBytes := txBytes e + word_of_nat (length pkt)\<rparr>;
        b0 \<leftarrow> go_at pkt 0;
        if drop_bit 4 b0 = 4 then do {
          isICMP \<leftarrow> (if \<not> allowICMP e \<and> length pkt > 9
                      then do { p9 \<leftarrow> go_at pkt 9; Some (p9 = ProtocolICMP) } else Some False);
          blocked \<leftarrow> (if isICMP then shouldBlockICMP pkt False else Some False);
          if blocked then Some e
          else do {
            quic \<leftarrow> (if blockQuic e then isUDPDstPortIPv4 pkt 443 else Some False);
            if quic then do {
              let e = e\<lparr>quicRejects := quicRejects e + 1\<rparr>;
              resp \<leftarrow> buildICMPv4PortUnreachable pkt;
              Some (answer ok resp e) }
            else Some (InjectInbound IPv4ProtocolNumber pkt e) } }
        else if drop_bit 4 b0 = 6 then do {
          blocked \<leftarrow> (if \<not> allowICMP e
                      then do {
                        res \<leftarrow> ipv6TransportHeader pkt;
                        (case res of
                           None \<Rightarrow> Some False
                         | Some (hdrProto, off) \<Rightarrow>
                             if hdrProto = ProtocolICMPv6 then shouldBlockICMPv6 pkt off else Some False) }
                      else Some False);
          if blocked then Some e
          else do {
            quic \<leftarrow> (if blockQuic e then isUDPDstPortIPv6 pkt 443 else Some False);
            if quic then do {
              let e = e\<lparr>quicRejects := quicRejects e + 1\<rparr>;
              resp \<leftarrow> buildICMPv6PortUnreachable pkt;
              Some (answer ok resp e) }
            else Some (InjectInbound IPv6ProtocolNumber pkt e) } }
        else Some e })"

subsection \<open>The loops\<close>

datatype tun_event =
    TunPacket bytes bool
  | TunReadError
  | OtherStop

datatype loop_end = Blocked | Returned

text \<open>
  A read returns at most \<open>mtu + 4\<close> bytes of the packet. Reading a closed file is an error. A
  read error with the engine running starts \<open>Stop\<close> in a goroutine of its own, which is
  counted in \<open>spawned_stops\<close>.
\<close>

definition read_failed :: "Engine \<Rightarrow> Engine" where
  "read_failed e = (if running e then e\<lparr>spawned_stops := Suc (spawned_stops e)\<rparr> else e)"

fun read_loop :: "tun_event list \<Rightarrow> Engine \<Rightarrow> (loop_end \<times> Engine) go" where
  "read_loop [] e = (if stop_closed e then Some (Returned, e)
                     else if tun_closed e then Some (Returned, read_failed e)
                     else Some (Blocked, e))"
| "read_loop (OtherStop # evs) e = do { e \<leftarrow> Stop e; read_loop evs e }"
| "read_loop (TunReadError # evs) e =
     (if stop_closed e then Some (Returned, e) else Some (Returned, read_failed e))"
| "read_loop (TunPacket pkt ok # evs) e =
     (if stop_closed e then Some (Returned, e)
      else if tun_closed e then Some (Returned, read_failed e)
      else do {
        e \<leftarrow> handle_packet ok (take (nat (mtu e + 4)) pkt) e;
        read_loop evs e })"

text \<open>\<open>make([]byte, e.mtu+4)\<close> panics on a negative length.\<close>

definition tunReadLoop :: "tun_event list \<Rightarrow> Engine \<Rightarrow> (loop_end \<times> Engine) go" where
  "tunReadLoop evs e = (if mtu e + 4 < 0 then None else read_loop evs e)"

text \<open>
  One iteration of \<open>tunWriteLoop\<close>: a packet of the netstack, whether its write succeeds, and
  the clock. The loop ends when the context is cancelled.
\<close>

definition write_packet :: "bytes \<Rightarrow> bool \<Rightarrow> int \<Rightarrow> Engine \<Rightarrow> Engine" where
  "write_packet b ok nowMs e =
     (if ok then e\<lparr>tun_out := tun_out e @ [b], rxBytes := rxBytes e + word_of_nat (length b),
                   elastRxMs := nowMs\<rparr>
      else e)"

fun tunWriteLoop :: "(bytes \<times> bool \<times> int) list \<Rightarrow> Engine \<Rightarrow> Engine" where
  "tunWriteLoop [] e = e"
| "tunWriteLoop ((b, ok, nowMs) # pkts) e =
     (if cancelled e then e else tunWriteLoop pkts (write_packet b ok nowMs e))"

subsection \<open>What the read loop decides\<close>

text \<open>
  The reference: what becomes of a packet, given the two switches. Echo packets are the IPv4
  packets with protocol ICMP and an echo type (or too short to tell) behind the header, and
  the IPv6 packets whose header chain of at most 7 extension headers ends in ICMPv6 with an
  echo type (or nothing) there.
\<close>

definition echo4 :: "bytes \<Rightarrow> bool" where
  "echo4 pkt \<longleftrightarrow> 9 < length pkt \<and> pkt ! 9 = ProtocolICMP \<and>
     (length pkt < 20 \<or> length pkt \<le> ihl_of pkt \<or> isICMPEchoType (pkt ! ihl_of pkt))"

definition echo6 :: "bytes \<Rightarrow> bool" where
  "echo6 pkt \<longleftrightarrow> 40 \<le> length pkt \<and>
     (\<exists>k < 8. \<exists>off. v6_chain pkt k (pkt ! 6) 40 ProtocolICMPv6 off \<and>
        (length pkt \<le> off \<or> isICMPEchoType (pkt ! off)))"

datatype verdict =
    Dropped
  | Rejected "bytes option"
  | Forwarded u16

definition version_of :: "bytes \<Rightarrow> byte" where
  "version_of pkt = drop_bit 4 (pkt ! 0)"

definition is_quic4 :: "bytes \<Rightarrow> bool" where "is_quic4 pkt \<longleftrightarrow> version_of pkt = 4 \<and> udp4_to pkt 443"
definition is_quic6 :: "bytes \<Rightarrow> bool" where "is_quic6 pkt \<longleftrightarrow> version_of pkt = 6 \<and> udp6_to pkt 443"

definition verdict :: "bool \<Rightarrow> bool \<Rightarrow> bytes \<Rightarrow> verdict" where
  "verdict allow quic pkt =
     (if pkt = [] then Dropped
      else if version_of pkt = 4 then
        if \<not> allow \<and> echo4 pkt then Dropped
        else if quic \<and> udp4_to pkt 443 then Rejected (if v4_rejectable pkt then Some (reject4 pkt) else None)
        else Forwarded IPv4ProtocolNumber
      else if version_of pkt = 6 then
        if \<not> allow \<and> echo6 pkt then Dropped
        else if quic \<and> udp6_to pkt 443 then Rejected (if v6_rejectable pkt then Some (reject6 pkt) else None)
        else Forwarded IPv6ProtocolNumber
      else Dropped)"

definition apply_verdict :: "bool \<Rightarrow> bytes \<Rightarrow> verdict \<Rightarrow> Engine \<Rightarrow> Engine" where
  "apply_verdict ok pkt v e =
     (let e = e\<lparr>txBytes := txBytes e + word_of_nat (length pkt)\<rparr> in
      case v of
        Dropped \<Rightarrow> e
      | Rejected resp \<Rightarrow> answer ok resp (e\<lparr>quicRejects := quicRejects e + 1\<rparr>)
      | Forwarded proto \<Rightarrow> InjectInbound proto pkt e)"

lemma v6_filter_eq:
  "(do { res \<leftarrow> ipv6TransportHeader pkt;
         (case res of
            None \<Rightarrow> Some False
          | Some (hdrProto, off) \<Rightarrow>
              if hdrProto = ProtocolICMPv6 then shouldBlockICMPv6 pkt off else Some False) })
   = Some (echo6 pkt)"
proof (cases rule: ipv6TransportHeader_cases [of pkt])
  case 1
  then have "\<not> echo6 pkt" using ipv6TransportHeader_iff [of pkt] by (auto simp: echo6_def)
  with 1 show ?thesis by simp
next
  case (2 p q)
  then obtain k where k: "40 \<le> length pkt" "k < 8" "v6_chain pkt k (pkt ! 6) 40 p q"
    by (auto simp: ipv6TransportHeader_iff)
  then have "echo6 pkt \<longleftrightarrow> p = ProtocolICMPv6 \<and> (length pkt \<le> q \<or> isICMPEchoType (pkt ! q))"
    using v6_chain_unique [OF k(3)] unfolding echo6_def by metis
  with 2 show ?thesis by (auto simp: shouldBlockICMPv6_eq)
qed

lemma handle_packet_eq:
  "handle_packet ok pkt e = Some (apply_verdict ok pkt (verdict (allowICMP e) (blockQuic e) pkt) e)"
proof (cases "pkt = []")
  case True
  then show ?thesis by (simp add: handle_packet_def verdict_def apply_verdict_def Let_def)
next
  case False
  then have at0: "go_at pkt 0 = Some (pkt ! 0)" by (simp add: go_at_def)
  have e4: "(if \<not> allowICMP e \<and> 9 < length pkt then do { p9 \<leftarrow> go_at pkt 9; Some (p9 = ProtocolICMP) }
             else Some False)
       = Some (\<not> allowICMP e \<and> 9 < length pkt \<and> pkt ! 9 = ProtocolICMP)"
    by (auto simp: go_at_def)
  consider "version_of pkt = 4" | "version_of pkt = 6" | "version_of pkt \<notin> {4, 6}" by blast
  then show ?thesis
  proof cases
    case 1
    then show ?thesis
      using False
      by (simp add: handle_packet_def at0 Let_def verdict_def apply_verdict_def version_of_def
          e4 classifier_eqs buildICMPv4_eq echo4_def)
  next
    case 2
    then show ?thesis
      using False
      by (simp add: handle_packet_def at0 Let_def verdict_def apply_verdict_def version_of_def
          v6_filter_eq classifier_eqs buildICMPv6_eq)
  next
    case 3
    then show ?thesis
      using False by (simp add: handle_packet_def at0 Let_def verdict_def apply_verdict_def version_of_def)
  qed
qed

subsection \<open>Runs of the read loop\<close>

text \<open>The packets a run may read, cut to the buffer, and what the verdicts make of them.\<close>

fun packets :: "int \<Rightarrow> tun_event list \<Rightarrow> (bytes \<times> bool) list" where
  "packets m [] = []"
| "packets m (TunPacket p ok # evs) = (take (nat (m + 4)) p, ok) # packets m evs"
| "packets m (_ # evs) = packets m evs"

definition forwarded :: "bool \<Rightarrow> bool \<Rightarrow> (bytes \<times> bool) list \<Rightarrow> (u16 \<times> bytes) list" where
  "forwarded a q ps =
     concat (map (\<lambda>(p, ok). case verdict a q p of Forwarded proto \<Rightarrow> [(proto, p)] | _ \<Rightarrow> []) ps)"

definition answers :: "bool \<Rightarrow> bool \<Rightarrow> (bytes \<times> bool) list \<Rightarrow> bytes list" where
  "answers a q ps =
     concat (map (\<lambda>(p, ok). case verdict a q p of Rejected (Some b) \<Rightarrow> if ok then [b] else [] | _ \<Rightarrow> []) ps)"

definition rejects :: "bool \<Rightarrow> bool \<Rightarrow> (bytes \<times> bool) list \<Rightarrow> nat" where
  "rejects a q ps = length (filter (\<lambda>(p, ok). case verdict a q p of Rejected _ \<Rightarrow> True | _ \<Rightarrow> False) ps)"

definition run_summary :: "Engine \<Rightarrow> (bytes \<times> bool) list \<Rightarrow> Engine \<Rightarrow> bool" where
  "run_summary e ps e' \<longleftrightarrow>
     (let a = allowICMP e; q = blockQuic e in
      injected e' = injected e @ forwarded a q ps \<and>
      tun_out e' = tun_out e @ answers a q ps \<and>
      quicRejects e' = quicRejects e + word_of_nat (rejects a q ps) \<and>
      txBytes e' = txBytes e + word_of_nat (sum_list (map (length \<circ> fst) ps)) \<and>
      allowICMP e' = a \<and> blockQuic e' = q \<and> mtu e' = mtu e)"

lemmas summary_defs = run_summary_def forwarded_def answers_def rejects_def Let_def

lemma run_summary_refl: "run_summary e [] e"
  by (simp add: summary_defs)

lemma run_summary_trans:
  "run_summary e ps e' \<Longrightarrow> run_summary e' qs e'' \<Longrightarrow> run_summary e (ps @ qs) e''"
  by (simp add: summary_defs)

lemma run_summary_packet:
  "run_summary e [(p, ok)] (apply_verdict ok p (verdict (allowICMP e) (blockQuic e) p) e)"
  by (auto simp: summary_defs apply_verdict_def answer_def write_tun_def InjectInbound_def
      split: verdict.splits option.splits)

lemma run_summary_Stop: "Stop e = Some e' \<Longrightarrow> run_summary e [] e'"
  by (auto simp: summary_defs Stop_def split: if_splits)

lemma run_summary_read_failed: "run_summary e [] (read_failed e)"
  by (simp add: summary_defs read_failed_def)

lemma read_loop_run:
  "read_loop evs e = Some (r, e') \<Longrightarrow> \<exists>n. run_summary e (take n (packets (mtu e) evs)) e'"
proof (induction evs e arbitrary: r e' rule: read_loop.induct)
  case (1 e)
  then show ?case
    by (auto simp: run_summary_refl run_summary_read_failed split: if_splits)
next
  case (2 evs e)
  then obtain e1 where e1: "Stop e = Some e1" "read_loop evs e1 = Some (r, e')"
    by (auto simp: bind_eq_Some_conv)
  from 2(1) [OF e1] obtain n where "run_summary e1 (take n (packets (mtu e1) evs)) e'" by blast
  with run_summary_trans [OF run_summary_Stop [OF e1(1)]] show ?case
    using run_summary_Stop [OF e1(1)] by (auto simp: summary_defs)
next
  case (3 evs e)
  have "run_summary e (take 0 (packets (mtu e) (TunReadError # evs))) e'"
    using 3 by (auto simp: run_summary_refl run_summary_read_failed split: if_splits)
  then show ?case by blast
next
  case (4 pkt ok evs e)
  let ?p = "take (nat (mtu e + 4)) pkt"
  show ?case
  proof (cases "stop_closed e \<or> tun_closed e")
    case True
    then have "run_summary e (take 0 (packets (mtu e) (TunPacket pkt ok # evs))) e'"
      using 4(2) by (auto simp: run_summary_refl run_summary_read_failed split: if_splits)
    then show ?thesis by blast
  next
    case False
    then obtain e1 where e1: "handle_packet ok ?p e = Some e1" "read_loop evs e1 = Some (r, e')"
      using 4(2) by (auto simp: handle_packet_eq)
    from 4(1) [OF _ _ e1] False obtain n where n: "run_summary e1 (take n (packets (mtu e1) evs)) e'"
      by blast
    have p: "run_summary e [(?p, ok)] e1"
      using e1(1) run_summary_packet [of e ?p ok] by (simp add: handle_packet_eq)
    then have "mtu e1 = mtu e" by (simp add: summary_defs)
    with run_summary_trans [OF p n]
    have "run_summary e (take (Suc n) (packets (mtu e) (TunPacket pkt ok # evs))) e'" by simp
    then show ?thesis by blast
  qed
qed

text \<open>No panic: the stop channel is closed once, and the handlers are total.\<close>

lemma Stop_total: "(running e \<longrightarrow> \<not> stop_closed e) \<Longrightarrow> \<exists>e'. Stop e = Some e' \<and> \<not> running e'"
  by (auto simp: Stop_def)

lemma read_loop_total: "(running e \<longrightarrow> \<not> stop_closed e) \<Longrightarrow> read_loop evs e \<noteq> None"
proof (induction evs e rule: read_loop.induct)
  case (2 evs e)
  then obtain e' where "Stop e = Some e'" "\<not> running e'" using Stop_total by blast
  with 2 show ?case by simp
next
  case (4 pkt ok evs e)
  have s: "running (apply_verdict ok p v e) = running e" "stop_closed (apply_verdict ok p v e) = stop_closed e" for p v
    by (auto simp: apply_verdict_def Let_def answer_def write_tun_def InjectInbound_def
        split: verdict.splits option.splits)
  from 4 show ?case by (auto simp: handle_packet_eq s)
qed auto

text \<open>What may reach the netstack.\<close>

lemma forwarded_sound:
  assumes "(proto, p) \<in> set (forwarded a q ps)"
  shows "\<exists>ok. (p, ok) \<in> set ps \<and> p \<noteq> [] \<and>
    (version_of p = 4 \<and> proto = IPv4ProtocolNumber \<or> version_of p = 6 \<and> proto = IPv6ProtocolNumber) \<and>
    (\<not> a \<longrightarrow> \<not> (version_of p = 4 \<and> echo4 p) \<and> \<not> (version_of p = 6 \<and> echo6 p)) \<and>
    (q \<longrightarrow> \<not> is_quic4 p \<and> \<not> is_quic6 p)"
proof -
  from assms obtain ok where "(p, ok) \<in> set ps" "verdict a q p = Forwarded proto"
    by (auto simp: forwarded_def split: verdict.splits)
  then show ?thesis
    by (intro exI [of _ ok]) (auto simp: verdict_def is_quic4_def is_quic6_def split: if_splits)
qed

lemma answers_sound:
  assumes "b \<in> set (answers a q ps)"
  shows "\<exists>p ok. (p, ok) \<in> set ps \<and> q \<and> (is_quic4 p \<and> b = reject4 p \<or> is_quic6 p \<and> b = reject6 p)"
proof -
  from assms obtain p ok where "(p, ok) \<in> set ps" "verdict a q p = Rejected (Some b)"
    by (auto simp: answers_def split: verdict.splits option.splits if_splits)
  then show ?thesis
    by (intro exI [of _ p] exI [of _ ok]) (auto simp: verdict_def is_quic4_def is_quic6_def split: if_splits)
qed

lemma packets_sound: "(p, ok) \<in> set (packets m evs) \<Longrightarrow> \<exists>w. TunPacket w ok \<in> set evs \<and> p = take (nat (m + 4)) w"
  by (induction m evs rule: packets.induct) auto

subsection \<open>Properties\<close>

text \<open>
  C28: the loop body does what the verdict says. On every byte string a read can return, the
  body ends without a panic, counts its bytes, and either drops the packet, or counts a
  rejection and writes the answer (if there is one and its write succeeds), or injects
  exactly the bytes read under the protocol number of the IP version.
\<close>

theorem handle_packet_refines_verdict:
  "handle_packet ok pkt e = Some (apply_verdict ok pkt (verdict (allowICMP e) (blockQuic e) pkt) e)"
  by (rule handle_packet_eq)

text \<open>
  C10: what a run of the read loop leaves behind. With a buffer of non-negative length and an
  engine that has not been stopped, the loop never panics, whatever arrives and whenever
  another goroutine stops the engine; some first part of the packets was processed, in order:
  the packets injected are the forwarded ones, byte for byte, the answers are those of the
  rejected ones, the rejection counter counts them, the upload counter has grown by their
  bytes (modulo 2^64).
\<close>

theorem tunReadLoop_run:
  assumes "0 \<le> mtu e + 4" and "\<not> stop_closed e"
  shows "\<exists>r e' n. tunReadLoop evs e = Some (r, e') \<and> run_summary e (take n (packets (mtu e) evs)) e'"
proof -
  have "read_loop evs e \<noteq> None" using read_loop_total assms(2) by blast
  then obtain r e' where "read_loop evs e = Some (r, e')" by auto
  moreover from read_loop_run [OF this] obtain n where
    "run_summary e (take n (packets (mtu e) evs)) e'" by blast
  ultimately show ?thesis using assms(1) by (auto simp: tunReadLoop_def)
qed

lemma tunReadLoop_run_witness:
  "\<exists>r e' n. tunReadLoop [TunPacket quic4 True, TunReadError] (new_engine 1500 False True (NewEngineHook 8 60)) = Some (r, e') \<and>
     run_summary (new_engine 1500 False True (NewEngineHook 8 60)) (take n [(quic4, True)]) e'"
proof -
  have "take 1504 quic4 = quic4" by (simp add: quic4_def)
  then have "packets 1500 [TunPacket quic4 True, TunReadError] = [(quic4, True)]" by simp
  then show ?thesis
    using tunReadLoop_run [of "new_engine 1500 False True (NewEngineHook 8 60)" "[TunPacket quic4 True, TunReadError]"]
    by (simp add: new_engine_def)
qed

text \<open>
  C2: the filters hold on every run. Whatever is read, and whenever the engine is stopped,
  everything a run injects is a packet that was read (cut to the buffer) under its own IP
  version; with ICMP off it is no IPv4 echo packet and no IPv6 echo packet whose ICMPv6 header
  stands behind at most 7 extension headers; with QUIC blocking on it is no IPv4 packet with a
  UDP header for port 443 and no IPv6 packet with one behind at most 7 extension headers
  (behind more, both pass); every answer written back is the Port Unreachable of such a QUIC
  datagram that was read.
\<close>

theorem tunReadLoop_filters:
  assumes "tunReadLoop evs e = Some (r, e')" and "injected e = []" and "tun_out e = []"
  shows "(\<forall>(proto, p) \<in> set (injected e').
      (\<exists>w ok. TunPacket w ok \<in> set evs \<and> p = take (nat (mtu e + 4)) w) \<and>
      (version_of p = 4 \<and> proto = IPv4ProtocolNumber \<or> version_of p = 6 \<and> proto = IPv6ProtocolNumber) \<and>
      (\<not> allowICMP e \<longrightarrow> \<not> (version_of p = 4 \<and> echo4 p) \<and> \<not> (version_of p = 6 \<and> echo6 p)) \<and>
      (blockQuic e \<longrightarrow> \<not> is_quic4 p \<and> \<not> is_quic6 p)) \<and>
    (\<forall>b \<in> set (tun_out e'). blockQuic e \<and>
      (\<exists>w ok. TunPacket w ok \<in> set evs \<and>
        (let p = take (nat (mtu e + 4)) w in is_quic4 p \<and> b = reject4 p \<or> is_quic6 p \<and> b = reject6 p)))"
proof -
  from assms(1) have "read_loop evs e = Some (r, e')" by (simp add: tunReadLoop_def split: if_splits)
  from read_loop_run [OF this] obtain n where n: "run_summary e (take n (packets (mtu e) evs)) e'" by blast
  let ?ps = "take n (packets (mtu e) evs)"
  have out: "injected e' = forwarded (allowICMP e) (blockQuic e) ?ps" "tun_out e' = answers (allowICMP e) (blockQuic e) ?ps"
    using n assms(2,3) by (simp_all add: run_summary_def Let_def)
  show ?thesis
    unfolding out
    by (auto dest!: forwarded_sound answers_sound in_set_takeD packets_sound simp: Let_def)
qed

lemma tunReadLoop_filters_witness:
  "\<exists>e'. tunReadLoop [TunPacket quic4 True] (new_engine 1500 False True (NewEngineHook 8 60)) = Some (Blocked, e') \<and>
     (\<forall>(proto, p) \<in> set (injected e'). \<not> is_quic4 p)"
proof -
  have "take 1504 quic4 = quic4" by (simp add: quic4_def)
  then obtain e' where e': "tunReadLoop [TunPacket quic4 True] (new_engine 1500 False True (NewEngineHook 8 60)) = Some (Blocked, e')"
  proof -
    let ?e = "new_engine 1500 False True (NewEngineHook 8 60)"
    have "read_loop [] (apply_verdict True quic4 v ?e) = Some (Blocked, apply_verdict True quic4 v ?e)" for v
      by (auto simp: apply_verdict_def new_engine_def Let_def answer_def write_tun_def InjectInbound_def
          split: verdict.splits option.splits)
    then show ?thesis
      using that \<open>take 1504 quic4 = quic4\<close> by (simp add: tunReadLoop_def handle_packet_eq new_engine_def)
  qed
  from tunReadLoop_filters [OF this] have "\<forall>(proto, p) \<in> set (injected e'). \<not> is_quic4 p"
    by (auto simp: new_engine_def)
  with e' show ?thesis by blast
qed

text \<open>An ICMPv6 echo request behind \<open>n + 1\<close> Destination Options headers of 8 bytes.\<close>

definition nested_echo :: "nat \<Rightarrow> bytes" where
  "nested_echo n = [0x60, 0, 0, 0, 0, word_of_nat (8 * n + 16), 60, 64] @ replicate 32 0 @
     concat (replicate n [60, 0, 0, 0, 0, 0, 0, 0]) @ [ProtocolICMPv6, 0, 0, 0, 0, 0, 0, 0] @
     [128, 0, 0, 0, 0, 1, 0, 1]"

text \<open>
  C40: how far the IPv6 filters see. Take any IPv6 packet in which a chain of \<open>k\<close> extension
  headers leads to an upper-layer header. If that is an ICMPv6 echo and ICMP is off, the
  packet is dropped, having only been counted, when \<open>k\<close> is less than 8, and injected when it
  is 8 or more. If it is a UDP header for port 443 and QUIC is blocked, the packet is counted
  as a rejection and answered when \<open>k\<close> is less than 8, and injected when it is 8 or more. So
  eight extension headers pass both filters.
\<close>

theorem v6_filter_bound:
  assumes "version_of pkt = 6" and "40 \<le> length pkt" and "v6_chain pkt k (pkt ! 6) 40 p off"
  shows "let e1 = e\<lparr>txBytes := txBytes e + word_of_nat (length pkt)\<rparr> in
    (p = ProtocolICMPv6 \<and> (length pkt \<le> off \<or> isICMPEchoType (pkt ! off)) \<and> \<not> allowICMP e \<longrightarrow>
      handle_packet ok pkt e = Some (if k < 8 then e1 else InjectInbound IPv6ProtocolNumber pkt e1)) \<and>
    (p = ProtocolUDP \<and> off + 4 \<le> length pkt \<and> be16 (pkt ! (off + 2)) (pkt ! (off + 3)) = 443 \<and> blockQuic e \<longrightarrow>
      handle_packet ok pkt e = Some (if k < 8
        then answer ok (if v6_rejectable pkt then Some (reject6 pkt) else None) (e1\<lparr>quicRejects := quicRejects e + 1\<rparr>)
        else InjectInbound IPv6ProtocolNumber pkt e1))"
proof -
  have echo: "echo6 pkt \<longleftrightarrow> k < 8 \<and> p = ProtocolICMPv6 \<and> (length pkt \<le> off \<or> isICMPEchoType (pkt ! off))"
    using v6_chain_unique [OF assms(3)] assms(2,3) unfolding echo6_def by blast
  have udp: "udp6_to pkt 443 \<longleftrightarrow> k < 8 \<and> p = ProtocolUDP \<and> off + 4 \<le> length pkt \<and>
      be16 (pkt ! (off + 2)) (pkt ! (off + 3)) = 443"
    using v6_chain_unique [OF assms(3)] assms(2,3) unfolding udp6_to_def by blast
  have "pkt \<noteq> []" using assms(2) by auto
  then have "handle_packet ok pkt e = Some (apply_verdict ok pkt
      (if \<not> allowICMP e \<and> echo6 pkt then Dropped
       else if blockQuic e \<and> udp6_to pkt 443 then Rejected (if v6_rejectable pkt then Some (reject6 pkt) else None)
       else Forwarded IPv6ProtocolNumber) e)"
    using assms(1) by (simp add: handle_packet_eq verdict_def)
  moreover have "ProtocolICMPv6 \<noteq> ProtocolUDP" by (simp add: ProtocolICMPv6_def ProtocolUDP_def)
  ultimately show ?thesis
    by (auto simp: echo udp apply_verdict_def Let_def)
qed

text \<open>Behind seven headers the echo is dropped, behind eight it is injected.\<close>

lemma nested_echo_chains:
  "\<exists>k < 8. v6_chain (nested_echo 6) k (nested_echo 6 ! 6) 40 ProtocolICMPv6 96"
  "\<exists>k < 9. \<not> k < 8 \<and> v6_chain (nested_echo 7) k (nested_echo 7 ! 6) 40 ProtocolICMPv6 104"
proof -
  have w: "v6_walk 8 (nested_echo 6) (nested_echo 6 ! 6) 40 = Some (Some (ProtocolICMPv6, 96))"
    "v6_walk 9 (nested_echo 7) (nested_echo 7 ! 6) 40 = Some (Some (ProtocolICMPv6, 104))"
    "v6_walk 8 (nested_echo 7) (nested_echo 7 ! 6) 40 = Some None"
    by code_simp+
  from w(1) show "\<exists>k < 8. v6_chain (nested_echo 6) k (nested_echo 6 ! 6) 40 ProtocolICMPv6 96"
    by (simp only: v6_walk_chain)
  from w(2) obtain k where k: "k < 9" "v6_chain (nested_echo 7) k (nested_echo 7 ! 6) 40 ProtocolICMPv6 104"
    by (auto simp only: v6_walk_chain)
  moreover from this(2) w(3) have "\<not> k < 8" using v6_walk_chain [of 8 "nested_echo 7" _ _ ProtocolICMPv6 104] by (metis not_None_eq option.inject option.distinct(1))
  ultimately show "\<exists>k < 9. \<not> k < 8 \<and> v6_chain (nested_echo 7) k (nested_echo 7 ! 6) 40 ProtocolICMPv6 104"
    by blast
qed

lemma v6_filter_bound_witness:
  "handle_packet True (nested_echo 6) (new_engine 1500 False True (NewEngineHook 8 60)) =
     Some ((new_engine 1500 False True (NewEngineHook 8 60))\<lparr>txBytes := 104\<rparr>) \<and>
   handle_packet True (nested_echo 7) (new_engine 1500 False True (NewEngineHook 8 60)) =
     Some (InjectInbound IPv6ProtocolNumber (nested_echo 7) ((new_engine 1500 False True (NewEngineHook 8 60))\<lparr>txBytes := 112\<rparr>))"
proof -
  have f: "version_of (nested_echo 6) = 6" "version_of (nested_echo 7) = 6" "length (nested_echo 6) = 104"
    "length (nested_echo 7) = 112" "isICMPEchoType (nested_echo 6 ! 96)" "isICMPEchoType (nested_echo 7 ! 104)"
    by code_simp+
  obtain k l where k: "k < 8" "v6_chain (nested_echo 6) k (nested_echo 6 ! 6) 40 ProtocolICMPv6 96"
    and l: "\<not> l < 8" "v6_chain (nested_echo 7) l (nested_echo 7 ! 6) 40 ProtocolICMPv6 104"
    using nested_echo_chains by blast
  show ?thesis
    using v6_filter_bound [OF f(1) _ k(2), of "new_engine 1500 False True (NewEngineHook 8 60)" True]
      v6_filter_bound [OF f(2) _ l(2), of "new_engine 1500 False True (NewEngineHook 8 60)" True] f k(1) l(1)
    by (simp add: new_engine_def Let_def)
qed

lemma apply_verdict_lifecycle [simp]:
  "running (apply_verdict ok p v e) = running e" "stop_closed (apply_verdict ok p v e) = stop_closed e"
  "tun_closed (apply_verdict ok p v e) = tun_closed e" "mtu (apply_verdict ok p v e) = mtu e"
  "spawned_stops (apply_verdict ok p v e) = spawned_stops e"
  by (auto simp: apply_verdict_def Let_def answer_def write_tun_def InjectInbound_def
      split: verdict.splits option.splits)

text \<open>
  C31: losing the TUN device stops the engine. If the descriptor is closed by the system
  after any packets, the read loop processes those packets, returns, and has started one
  \<open>Stop\<close>; once that has run, the engine reports that it is not running, the context is
  cancelled and everything is closed.
\<close>

theorem external_close_stops_engine:
  assumes "running e" and "\<not> stop_closed e" and "\<not> tun_closed e" and "0 \<le> mtu e + 4"
  shows "\<exists>e' e''. tunReadLoop (map (\<lambda>(p, ok). TunPacket p ok) ps @ TunReadError # rest) e = Some (Returned, e') \<and>
    run_summary e (map (\<lambda>(p, ok). (take (nat (mtu e + 4)) p, ok)) ps) e' \<and>
    spawned_stops e' = Suc (spawned_stops e) \<and>
    Stop e' = Some e'' \<and> \<not> IsRunning e'' \<and> stop_closed e'' \<and> cancelled e'' \<and> tun_closed e'' \<and> stack_closed e''"
proof -
  have "\<exists>e'. read_loop (map (\<lambda>(p, ok). TunPacket p ok) ps @ TunReadError # rest) e = Some (Returned, e') \<and>
      run_summary e (map (\<lambda>(p, ok). (take (nat (mtu e + 4)) p, ok)) ps) e' \<and>
      spawned_stops e' = Suc (spawned_stops e) \<and> running e' \<and> \<not> stop_closed e'"
    using assms(1-3)
  proof (induction ps arbitrary: e)
    case Nil
    then show ?case by (simp add: read_failed_def run_summary_read_failed [of e, unfolded read_failed_def] cong: if_cong)
        (metis (full_types) read_failed_def run_summary_read_failed)
  next
    case (Cons x ps)
    obtain p ok where x: "x = (p, ok)" by (cases x)
    let ?p = "take (nat (mtu e + 4)) p"
    let ?e = "apply_verdict ok ?p (verdict (allowICMP e) (blockQuic e) ?p) e"
    from Cons.IH [of ?e] Cons.prems obtain e' where e':
      "read_loop (map (\<lambda>(p, ok). TunPacket p ok) ps @ TunReadError # rest) ?e = Some (Returned, e')"
      "run_summary ?e (map (\<lambda>(p, ok). (take (nat (mtu e + 4)) p, ok)) ps) e'"
      "spawned_stops e' = Suc (spawned_stops e)" "running e'" "\<not> stop_closed e'"
      by auto
    from run_summary_trans [OF run_summary_packet [of e ?p ok] e'(2)] e' Cons.prems show ?case
      by (auto simp: x handle_packet_eq)
  qed
  then show ?thesis
    using assms(4) by (auto simp: tunReadLoop_def Stop_def IsRunning_def)
qed

definition started_engine :: Engine where
  "started_engine = (new_engine 1500 False True (NewEngineHook 8 60))\<lparr>running := True\<rparr>"

lemma external_close_stops_engine_witness:
  "\<exists>e' e''. tunReadLoop [TunPacket quic4 True, TunReadError] started_engine = Some (Returned, e') \<and>
     Stop e' = Some e'' \<and> \<not> IsRunning e''"
  using external_close_stops_engine [of started_engine "[(quic4, True)]" "[]"]
  by (auto simp: started_engine_def new_engine_def)

text \<open>
  Download accounting. As long as the context is not cancelled, the write loop writes
  the netstack's packets in order; the download counter grows by exactly the bytes of the
  successful writes (modulo 2^64), the activity stamp is the time of the last of them, and a
  failed write neither counts nor ends the loop. After cancellation nothing is written.
\<close>

theorem tunWriteLoop_accounts:
  "tunWriteLoop pkts e =
    (if cancelled e then e
     else e\<lparr>tun_out := tun_out e @ [b. (b, ok, t) \<leftarrow> pkts, ok],
            rxBytes := rxBytes e + word_of_nat (sum_list [length b. (b, ok, t) \<leftarrow> pkts, ok]),
            elastRxMs := last (elastRxMs e # [t. (b, ok, t) \<leftarrow> pkts, ok])\<rparr>)"
proof (induction pkts arbitrary: e)
  case (Cons x pkts)
  obtain b ok t where x: "x = (b, ok, t)" by (cases x)
  show ?case
    by (cases ok) (simp_all add: x Cons.IH write_packet_def)
qed simp

end
