(* ===== verification/Net_HostPort.thy ===== *)
theory Net_HostPort
  imports Net_IP_Text
begin

text \<open>
  The "host:port" texts of the program and how Go's standard library reads them:
  \<open>net.SplitHostPort\<close>, which every dial and \<open>net.ResolveUDPAddr\<close> start with, and the latter
  itself, with the resolver for names as a parameter. A text of an IPv6 address is only split
  inside brackets, which \<open>fmt.Sprintf("%s:%d")\<close> does not write.
\<close>

subsection \<open>Printing\<close>

definition int_string :: "int \<Rightarrow> string" where
  "int_string n = (if n < 0 then CHR ''-'' # dec_string (nat (- n)) else dec_string (nat n))"

text \<open>\<open>fmt.Sprintf("%s:%d", h, p)\<close>\<close>

definition host_port :: "string \<Rightarrow> int \<Rightarrow> string" where
  "host_port h p = h @ '':'' @ int_string p"

subsection \<open>Reading\<close>

text \<open>The text before and after the last colon.\<close>

definition split_last_colon :: "string \<Rightarrow> (string \<times> string) option" where
  "split_last_colon s =
     (case dropWhile (\<lambda>c. c \<noteq> CHR '':'') (rev s) of
        [] \<Rightarrow> None
      | _ # pre \<Rightarrow> Some (rev pre, rev (takeWhile (\<lambda>c. c \<noteq> CHR '':'') (rev s))))"

definition brackets :: "string \<Rightarrow> bool" where
  "brackets s \<longleftrightarrow> CHR ''['' \<in> set s \<or> CHR '']'' \<in> set s"

definition SplitHostPort :: "string \<Rightarrow> (string \<times> string) option" where
  "SplitHostPort s =
     (case split_last_colon s of
        None \<Rightarrow> None
      | Some (pre, p) \<Rightarrow>
          (if pre \<noteq> [] \<and> hd pre = CHR ''['' then
             (let h = butlast (tl pre) in
              if tl pre \<noteq> [] \<and> last pre = CHR '']'' \<and> \<not> brackets h \<and> \<not> brackets p then Some (h, p) else None)
           else if CHR '':'' \<in> set pre \<or> brackets pre \<or> brackets p then None
           else Some (pre, p)))"

text \<open>
  A numeric port; an empty one is 0. Service names and signs, which the decimal ports of the
  program never are, count as unknown.
\<close>

definition parse_port :: "string \<Rightarrow> nat option" where
  "parse_port p = (if list_all is_digit p \<and> dec_value_from 0 p \<le> 65535 then Some (dec_value_from 0 p) else None)"

text \<open>
  \<open>net.ResolveUDPAddr\<close>: an empty host gives a nil address, a literal its value, any other
  text goes to the resolver.
\<close>

definition ResolveUDPAddr :: "(string \<Rightarrow> ip option) \<Rightarrow> string \<Rightarrow> (ip \<times> nat) option" where
  "ResolveUDPAddr lookup s =
     (case SplitHostPort s of
        None \<Rightarrow> None
      | Some (h, p) \<Rightarrow>
          (case parse_port p of
             None \<Rightarrow> None
           | Some n \<Rightarrow>
               (if h = [] then Some ([], n)
                else case ParseIP h of
                  Some a \<Rightarrow> Some (a, n)
                | None \<Rightarrow> (case lookup h of Some a \<Rightarrow> Some (a, n) | None \<Rightarrow> None))))"

subsection \<open>Lemmas\<close>

lemma digit_plain:
  assumes "is_digit c"
  shows "c \<noteq> CHR '':''" "c \<noteq> CHR ''[''" "c \<noteq> CHR '']''" "c \<noteq> CHR ''-''"
  using assms by (auto simp: is_digit_def)

lemma dec_string_plain: "CHR '':'' \<notin> set (dec_string n)" "\<not> brackets (dec_string n)"
  using dec_string_digits digit_plain unfolding brackets_def by blast+

lemma int_string_plain: "CHR '':'' \<notin> set (int_string n)" "\<not> brackets (int_string n)"
  using dec_string_plain by (auto simp: int_string_def brackets_def)

lemma split_last_colon_app:
  "CHR '':'' \<notin> set p \<Longrightarrow> split_last_colon (h @ '':'' @ p) = Some (h, p)"
proof -
  assume "CHR '':'' \<notin> set p"
  then have "takeWhile (\<lambda>c. c \<noteq> CHR '':'') (rev p @ '':'' @ rev h) = rev p"
    and "dropWhile (\<lambda>c. c \<noteq> CHR '':'') (rev p @ '':'' @ rev h) = '':'' @ rev h"
    by (auto simp: takeWhile_append dropWhile_append)
  then show ?thesis by (simp add: split_last_colon_def)
qed

lemma SplitHostPort_host_port:
  assumes "CHR '':'' \<notin> set h" and "\<not> brackets h"
  shows "SplitHostPort (host_port h p) = Some (h, int_string p)"
proof -
  have "hd h \<noteq> CHR ''[''" if "h \<noteq> []" using assms(2) that by (cases h) (auto simp: brackets_def)
  then show ?thesis
    using assms int_string_plain by (auto simp: SplitHostPort_def host_port_def split_last_colon_app [simplified])
qed

lemma SplitHostPort_colon:
  assumes "CHR '':'' \<in> set h" and "hd h \<noteq> CHR ''[''"
  shows "SplitHostPort (host_port h p) = None"
  using assms int_string_plain by (simp add: SplitHostPort_def host_port_def split_last_colon_app [simplified])

lemma parse_port_dec: "n \<le> 65535 \<Longrightarrow> parse_port (dec_string n) = Some n"
  using dec_string_digits by (auto simp: parse_port_def list_all_iff)

lemma parse_port_int: "0 \<le> n \<Longrightarrow> n \<le> 65535 \<Longrightarrow> parse_port (int_string n) = Some (nat n)"
  by (simp add: int_string_def parse_port_dec)

subsection \<open>Texts of addresses\<close>

lemma v4_string_plain: "CHR '':'' \<notin> set (v4_string a)" "\<not> brackets (v4_string a)" "v4_string a \<noteq> []"
  using dec_string_plain by (auto simp: v4_string_def brackets_def)

lemma ip_string_v4: "wf_ip a \<Longrightarrow> To4 a = Some b \<Longrightarrow> ip_string a = v4_string b"
  by (auto simp: ip_string_def wf_ip_def)

text \<open>The text of an IPv6 address has a colon and no bracket in front.\<close>

lemma ParseIP_bracket: "ParseIP (CHR ''['' # s) = None"
proof -
  have "hex_val CHR ''['' = None" by (simp add: hex_val_def)
  then have "parse_groups None [] (CHR ''['' # s) = None"
    by (subst parse_groups.simps) simp
  then have "parse_v6 (CHR ''['' # s) = None"
    by (auto simp: parse_v6_def expand_def split: list.splits)
  moreover have "parse_v4 True 0 0 [] (CHR ''['' # s) = None" by (simp add: is_digit_def)
  ultimately show ?thesis by (auto simp: ParseIP_def split: list.splits)
qed

lemma ip_string_v6_colon:
  assumes "length a = 16" and "To4 a = None"
  shows "CHR '':'' \<in> set (ip_string a)" "hd (ip_string a) \<noteq> CHR ''[''"
proof -
  have w: "wf_ip a" using assms(1) by (simp add: wf_ip_def)
  have g: "\<forall>g \<in> set (groups a). g < 65536" "length (groups a) = 8"
    using groups_bound assms(1) by (auto simp: length_groups)
  have "ip_string a = v6_string (groups a)"
    using w assms by (auto simp: ip_string_def)
  with v6_string_colon [OF g] obtain P r where "dropWhile P (ip_string a) = CHR '':'' # r" by auto
  then show "CHR '':'' \<in> set (ip_string a)" using set_dropWhileD [of "CHR '':''" P "ip_string a"] by simp
  then obtain c t where "ip_string a = c # t" by (cases "ip_string a") auto
  moreover have "ParseIP (ip_string a) \<noteq> None" using ip_text.dec_enc [OF w] by simp
  ultimately show "hd (ip_string a) \<noteq> CHR ''[''" using ParseIP_bracket by auto
qed

lemma SplitHostPort_v6:
  "length a = 16 \<Longrightarrow> To4 a = None \<Longrightarrow> SplitHostPort (host_port (ip_string a) p) = None"
  by (simp add: SplitHostPort_colon ip_string_v6_colon)

lemma Resolve_v4:
  assumes "wf_ip a" and "To4 a \<noteq> None" and "0 \<le> p" and "p \<le> 65535"
  shows "\<exists>b. ResolveUDPAddr lookup (host_port (ip_string a) p) = Some (b, nat p) \<and> ip_equal b a"
proof -
  obtain b where "To4 a = Some b" using assms(2) by blast
  then have s: "CHR '':'' \<notin> set (ip_string a)" "\<not> brackets (ip_string a)" "ip_string a \<noteq> []"
    using v4_string_plain ip_string_v4 [OF assms(1)] by metis+
  obtain c where c: "To16 a = Some c" using To16_wf [OF assms(1)] by blast
  then have "ParseIP (ip_string a) = Some c" using ip_text.dec_enc [OF assms(1)] by simp
  moreover have "ip_equal c a"
    using c assms(1) To16_length [OF c] by (subst ip_equal_iff_To16) (auto simp: wf_ip_def To16_def)
  ultimately show ?thesis
    using s assms(3,4) by (simp add: ResolveUDPAddr_def SplitHostPort_host_port parse_port_int)
qed

end
