(* ===== verification/Socks5_Datagram.thy ===== *)
theory Socks5_Datagram
  imports Net_IP Codec
begin

text \<open>
  The SOCKS5 UDP datagrams of \<open>go/socks5.go\<close>: \<open>EncodeUDPDatagram\<close> and \<open>DecodeUDPDatagram\<close>
  with every slice access checked, their closed forms, and the round trip. The codec
  interface is interpreted on them, for destinations in normal form.
\<close>

subsection \<open>The code\<close>

text \<open>Address type and address bytes: IPv4 where the address has an IPv4 form.\<close>

definition socks_addr :: "ip \<Rightarrow> byte \<times> bytes" where
  "socks_addr a = (case To4 a of
     Some v4 \<Rightarrow> (1, v4)
   | None \<Rightarrow> (4, case To16 a of Some b \<Rightarrow> b | None \<Rightarrow> []))"

definition EncodeUDPDatagram :: "ip \<Rightarrow> int \<Rightarrow> bytes \<Rightarrow> bytes go" where
  "EncodeUDPDatagram dstIP dstPort payload =
     (case socks_addr dstIP of (atyp, addr) \<Rightarrow> do {
        let hdr = replicate (4 + length addr + 2) 0;
        hdr \<leftarrow> go_set hdr 0 0;
        hdr \<leftarrow> go_set hdr 1 0;
        hdr \<leftarrow> go_set hdr 2 0;
        hdr \<leftarrow> go_set hdr 3 atyp;
        let hdr = go_copy hdr 4 addr;
        hdr \<leftarrow> put16 hdr (4 + length addr) (word_of_int dstPort);
        Some (hdr @ payload) })"

datatype udp_error =
    TooShort
  | Fragmented byte
  | IPv4TooShort
  | IPv6TooShort
  | UnsupportedATYP byte

definition DecodeUDPDatagram :: "bytes \<Rightarrow> (udp_error + ip \<times> int \<times> bytes) go" where
  "DecodeUDPDatagram data =
     (if length data < 4 then Some (Inl TooShort)
      else do {
        frag \<leftarrow> go_at data 2;
        if frag \<noteq> 0 then Some (Inl (Fragmented frag))
        else do {
          atyp \<leftarrow> go_at data 3;
          if atyp = 1 then
            if length data < 4 + 4 + 2 then Some (Inl IPv4TooShort)
            else do {
              srcIP \<leftarrow> go_slice data 4 8;
              srcPort \<leftarrow> uint16_at data 8;
              payload \<leftarrow> go_slice data 10 (length data);
              Some (Inr (srcIP, uint srcPort, payload)) }
          else if atyp = 4 then
            if length data < 4 + 16 + 2 then Some (Inl IPv6TooShort)
            else do {
              srcIP \<leftarrow> go_slice data 4 20;
              srcPort \<leftarrow> uint16_at data 20;
              payload \<leftarrow> go_slice data 22 (length data);
              Some (Inr (srcIP, uint srcPort, payload)) }
          else Some (Inl (UnsupportedATYP atyp)) } })"

subsection \<open>Closed forms\<close>

definition socks_header :: "byte \<Rightarrow> bytes \<Rightarrow> u16 \<Rightarrow> bytes" where
  "socks_header atyp addr port = [0, 0, 0, atyp] @ addr @ [hi8 port, lo8 port]"

lemma EncodeUDPDatagram_eq:
  "EncodeUDPDatagram a port payload =
     Some (socks_header (fst (socks_addr a)) (snd (socks_addr a)) (word_of_int port) @ payload)"
proof -
  obtain atyp addr where sa: "socks_addr a = (atyp, addr)" by (cases "socks_addr a")
  have z: "replicate (6 + n) (0 :: byte) = [0, 0, 0, 0] @ replicate n 0 @ [0, 0]" for n
    by (simp add: numeral_eq_Suc replicate_app_Cons_same flip: replicate_Suc)
  have "drop (4 + n) (a # b # c # d # xs) = drop n xs" for n and a b c d :: byte and xs
    by (simp add: numeral_eq_Suc)
  then show ?thesis
    unfolding EncodeUDPDatagram_def sa
    by (simp add: z Let_def go_set_def go_copy_def put16_def socks_header_def list_update_append)
qed

text \<open>The datagrams the decoder accepts: any reserved bytes, fragment 0, a whole header.\<close>

definition well_formed :: "byte \<Rightarrow> ip \<Rightarrow> bool" where
  "well_formed atyp a \<longleftrightarrow> atyp = 1 \<and> length a = 4 \<or> atyp = 4 \<and> length a = 16"

lemma DecodeUDPDatagram_ok:
  assumes "well_formed atyp a"
  shows "DecodeUDPDatagram ([r1, r2, 0, atyp] @ a @ [h, l] @ payload) = Some (Inr (a, uint (be16 h l), payload))"
  using assms unfolding well_formed_def
proof
  assume a: "atyp = 1 \<and> length a = 4"
  then obtain a0 a1 a2 a3 where "a = [a0, a1, a2, a3]" using list4 by blast
  with a show ?thesis
    by (simp add: DecodeUDPDatagram_def go_at_def go_slice_def uint16_at_def)
next
  assume a: "atyp = 4 \<and> length a = 16"
  have n: "([r1, r2, 0, 4] @ a @ [h, l] @ payload) ! 20 = h" "([r1, r2, 0, 4] @ a @ [h, l] @ payload) ! 21 = l"
    using a by (simp_all add: nth_append)
  have "DecodeUDPDatagram ([r1, r2, 0, 4] @ a @ [h, l] @ payload) =
     do { p \<leftarrow> uint16_at ([r1, r2, 0, 4] @ a @ [h, l] @ payload) 20; Some (Inr (a, uint p, payload)) }"
    using a by (simp add: DecodeUDPDatagram_def go_at_def go_slice_def)
  also have "uint16_at ([r1, r2, 0, 4] @ a @ [h, l] @ payload) 20 = Some (be16 h l)"
    using a by (simp add: uint16_at_def go_at_def nth_append)
  finally show ?thesis using a by simp
qed

lemma DecodeUDPDatagram_total: "DecodeUDPDatagram data \<noteq> None"
  by (auto simp: DecodeUDPDatagram_def go_simps)

lemma DecodeUDPDatagram_InrD:
  assumes "DecodeUDPDatagram data = Some (Inr (a, p, payload))"
  shows "\<exists>r1 r2 atyp h l. data = [r1, r2, 0, atyp] @ a @ [h, l] @ payload \<and> well_formed atyp a \<and> p = uint (be16 h l)"
proof -
  have len: "4 \<le> length data" using assms by (auto simp: DecodeUDPDatagram_def split: if_splits)
  then obtain r1 r2 f atyp rest where d: "data = r1 # r2 # f # atyp # rest"
    by (auto simp: Suc_le_length_iff numeral_eq_Suc)
  with assms have f: "f = 0" and t: "atyp = 1 \<and> 6 \<le> length rest \<or> atyp = 4 \<and> 18 \<le> length rest"
    by (auto simp: DecodeUDPDatagram_def go_at_def split: if_splits)
  define n where "n = (if atyp = 1 then 4 else 16 :: nat)"
  from t have "n + 2 \<le> length rest" by (auto simp: n_def)
  then obtain h l tail where r: "drop n rest = h # l # tail"
    by (metis add.commute add_le_imp_le_diff length_drop Suc_le_length_iff numeral_2_eq_2)
  have "rest = take n rest @ [h, l] @ tail"
    using r append_take_drop_id [of n rest] by simp
  then obtain b where b: "rest = b @ [h, l] @ tail" "length b = n"
    using \<open>n + 2 \<le> length rest\<close> that [of "take n rest"] by simp
  have w: "well_formed atyp b" using t b(2) by (auto simp: well_formed_def n_def)
  have "data = [r1, r2, 0, atyp] @ b @ [h, l] @ tail" by (simp add: d f b(1))
  with DecodeUDPDatagram_ok [OF w, of r1 r2 h l tail] assms w show ?thesis by auto
qed

lemma socks_addr_wf: "wf_ip a \<Longrightarrow> well_formed (fst (socks_addr a)) (snd (socks_addr a)) \<and> snd (socks_addr a) = ip_norm a"
  by (auto simp: socks_addr_def well_formed_def ip_norm_def To4_def To16_def wf_ip_def split: if_splits)

lemma uint_port: "uint (be16 (hi8 (word_of_int p)) (lo8 (word_of_int p))) = p mod 65536"
  by (simp add: uint_word_of_int)

lemma Decode_Encode:
  assumes "wf_ip a"
  shows "DecodeUDPDatagram (socks_header (fst (socks_addr a)) (snd (socks_addr a)) (word_of_int port) @ payload) =
     Some (Inr (ip_norm a, port mod 65536, payload))"
proof -
  have w: "well_formed (fst (socks_addr a)) (ip_norm a)" "snd (socks_addr a) = ip_norm a"
    using socks_addr_wf [OF assms] by metis+
  show ?thesis
    using DecodeUDPDatagram_ok [OF w(1), of 0 0 "hi8 (word_of_int port)" "lo8 (word_of_int port)" payload]
    by (simp add: w(2) socks_header_def uint_word_of_int)
qed

text \<open>Addresses, ports and payloads in normal form: the values on which the pair is a codec.\<close>

definition normal_datagram :: "ip \<times> int \<times> bytes \<Rightarrow> bool" where
  "normal_datagram d \<longleftrightarrow> (case d of (a, p, payload) \<Rightarrow> wf_ip a \<and> ip_norm a = a \<and> 0 \<le> p \<and> p < 65536)"

interpretation udp_datagram: codec
  "\<lambda>(a, p, payload). the (EncodeUDPDatagram a p payload)"
  "\<lambda>data. case DecodeUDPDatagram data of Some (Inr r) \<Rightarrow> Some r | _ \<Rightarrow> None"
  normal_datagram
  by unfold_locales (auto simp: normal_datagram_def EncodeUDPDatagram_eq Decode_Encode)

subsection \<open>Properties\<close>

text \<open>
  C18: encoding then decoding a datagram gives back the destination in its normal form (an
  IPv4-in-IPv6 address as IPv4, the same address for \<open>Equal\<close>), the port modulo 65536 and the
  payload, for every address of 4 or 16 bytes, every port and every payload; the header costs
  10 bytes for IPv4 and 22 for IPv6, so the relay buffer of \<open>mtu + 22\<close> bytes holds every
  datagram with a payload of at most \<open>mtu\<close>.
\<close>

theorem udp_datagram_roundtrip:
  assumes "wf_ip a"
  shows "\<exists>data. EncodeUDPDatagram a port payload = Some data \<and>
    DecodeUDPDatagram data = Some (Inr (ip_norm a, port mod 65536, payload)) \<and>
    ip_equal (ip_norm a) a \<and>
    length data = length payload + (if To4 a = None then 22 else 10) \<and>
    length data \<le> length payload + 22"
proof -
  have "ip_equal (ip_norm a) a" "length (ip_norm a) = (if To4 a = None then 16 else 4)"
    using assms by (auto simp: ip_equal_def ip_norm_def To4_def wf_ip_def split: if_splits)
  then show ?thesis
    using Decode_Encode [OF assms] socks_addr_wf [OF assms]
    by (simp add: EncodeUDPDatagram_eq socks_header_def)
qed

lemma udp_datagram_roundtrip_witness:
  "\<exists>data. EncodeUDPDatagram (v4_prefix @ [1, 2, 3, 4]) 70000 [7, 8] = Some data \<and>
     DecodeUDPDatagram data = Some (Inr ([1, 2, 3, 4], 4464, [7, 8]))"
proof -
  have "wf_ip (v4_prefix @ [1, 2, 3, 4])" "ip_norm (v4_prefix @ [1, 2, 3, 4]) = [1, 2, 3, 4]"
    by (simp_all add: wf_ip_def ip_norm_def To4_def)
  then show ?thesis using udp_datagram_roundtrip [of "v4_prefix @ [1, 2, 3, 4]" 70000 "[7, 8]"] by auto
qed

text \<open>
  C19: the decoder is exact on hostile input. It never panics; it accepts a byte string as
  (address, port, payload) exactly when the string is two reserved bytes (any), fragment 0,
  address type 1 with 4 or type 4 with 16 address bytes, the port in network order, and the
  payload up to the end; anything else is an error, and a domain name address is one.
\<close>

theorem DecodeUDPDatagram_exact:
  "DecodeUDPDatagram data \<noteq> None \<and>
   (DecodeUDPDatagram data = Some (Inr (a, p, payload)) \<longleftrightarrow>
     (\<exists>r1 r2 atyp h l. data = [r1, r2, 0, atyp] @ a @ [h, l] @ payload \<and> well_formed atyp a \<and>
        p = uint (be16 h l)))"
  by (auto simp: DecodeUDPDatagram_total dest: DecodeUDPDatagram_InrD intro!: DecodeUDPDatagram_ok [simplified])

text \<open>
  Distinct datagrams have distinct encodings: on destinations in normal form and ports of
  16 bits the encoder is injective, so a relay can tell them apart.
\<close>

theorem EncodeUDPDatagram_injective:
  assumes "normal_datagram (a, p, x)" and "normal_datagram (b, q, y)"
    and "EncodeUDPDatagram a p x = EncodeUDPDatagram b q y"
  shows "a = b \<and> p = q \<and> x = y"
  using inj_onD [OF udp_datagram.enc_inj, of "(a, p, x)" "(b, q, y)"] assms by simp

lemma EncodeUDPDatagram_injective_witness:
  "EncodeUDPDatagram [1, 2, 3, 4] 53 [7] \<noteq> EncodeUDPDatagram [1, 2, 3, 4] 54 [7]"
proof
  assume e: "EncodeUDPDatagram [1, 2, 3, 4] 53 [7] = EncodeUDPDatagram [1, 2, 3, 4] 54 [7]"
  have "normal_datagram ([1, 2, 3, 4], 53, [7])" "normal_datagram ([1, 2, 3, 4], 54, [7])"
    by (simp_all add: normal_datagram_def wf_ip_def ip_norm_def To4_def)
  from EncodeUDPDatagram_injective [OF this e] show False by simp
qed

end
