(* ===== verification/Socks5_Client.thy ===== *)
theory Socks5_Client
  imports Net_HostPort Socks5_Datagram
begin

text \<open>
  The SOCKS5 client of \<open>go/socks5.go\<close>: method selection, RFC 1929 authentication, CONNECT,
  UDP ASSOCIATE and the reply reader, over a connection given by what the proxy sends and by
  the outcomes of the writes and deadline calls. Every error return of the code is an error
  value; every operation returns the connection as it leaves it, so that what was written,
  what is still unread and whether it was closed can be stated.
\<close>

subsection \<open>Connections\<close>

text \<open>
  \<open>inp\<close> is what the proxy sends before it closes, fails or lets the deadline pass, whatever
  it is told; \<open>out\<close> what the client has written, one entry per \<open>Write\<close>. The outcomes of the
  coming \<open>Write\<close> and \<open>SetDeadline\<close> calls are given by \<open>writes_ok\<close> and \<open>deadlines_ok\<close>, success
  when the list is used up.
\<close>

record pconn =
  inp :: bytes
  out :: "bytes list"
  writes_ok :: "bool list"
  deadlines_ok :: "bool list"
  deadline_set :: bool
  is_closed :: bool

datatype stage =
    MethodSelection
  | Authentication
  | ConnectRequest
  | AssociateRequest
  | ReplyHeader
  | ReplyIPv4
  | ReplyIPv6
  | ReplyDomainLength
  | ReplyDomain
  | ReplyPort

datatype socks_error =
    DialFailed
  | SetDeadlineFailed
  | ClearDeadlineFailed
  | WriteFailed stage
  | ReadFailed stage
  | BadVersion byte
  | RejectedAllMethods
  | UnsupportedMethod byte
  | BadAuthVersion byte
  | AuthFailed byte
  | InvalidDestination string
  | BadReplyVersion byte
  | ErrorReply byte
  | UnsupportedAddressType byte
  | BindFailed
  | ResolveFailed string

type_synonym 'a step = "pconn \<Rightarrow> (socks_error + 'a) \<times> pconn"

text \<open>Sequencing: an error ends the operation.\<close>

definition and_then :: "'a step \<Rightarrow> ('a \<Rightarrow> 'b step) \<Rightarrow> 'b step" where
  "and_then m f c = (case m c of (Inl e, c') \<Rightarrow> (Inl e, c') | (Inr a, c') \<Rightarrow> f a c')"

definition ret :: "'a \<Rightarrow> 'a step" where "ret a c = (Inr a, c)"
definition fail :: "socks_error \<Rightarrow> 'a step" where "fail e c = (Inl e, c)"

definition Write :: "stage \<Rightarrow> bytes \<Rightarrow> unit step" where
  "Write st b c =
     (case writes_ok c of
        [] \<Rightarrow> (Inr (), c\<lparr>out := out c @ [b]\<rparr>)
      | ok # oks \<Rightarrow> if ok then (Inr (), c\<lparr>out := out c @ [b], writes_ok := oks\<rparr>)
                    else (Inl (WriteFailed st), c\<lparr>writes_ok := oks\<rparr>))"

text \<open>\<open>io.ReadFull\<close> on a buffer of \<open>n\<close> bytes: too few bytes are read and lost.\<close>

definition ReadFull :: "stage \<Rightarrow> nat \<Rightarrow> bytes step" where
  "ReadFull st n c =
     (if n \<le> length (inp c) then (Inr (take n (inp c)), c\<lparr>inp := drop n (inp c)\<rparr>)
      else (Inl (ReadFailed st), c\<lparr>inp := []\<rparr>))"

definition SetDeadline :: "bool \<Rightarrow> socks_error \<Rightarrow> unit step" where
  "SetDeadline on e c =
     (case deadlines_ok c of
        [] \<Rightarrow> (Inr (), c\<lparr>deadline_set := on\<rparr>)
      | ok # oks \<Rightarrow> if ok then (Inr (), c\<lparr>deadline_set := on, deadlines_ok := oks\<rparr>)
                    else (Inl e, c\<lparr>deadlines_ok := oks\<rparr>))"

definition Close :: "pconn \<Rightarrow> pconn" where "Close c = c\<lparr>is_closed := True\<rparr>"

subsection \<open>The client\<close>

record SOCKS5Client =
  host :: string
  port :: int
  username :: string
  password :: string

text \<open>\<open>[]byte(s)\<close> and \<open>string(b)\<close>: the characters are bytes.\<close>

definition string_bytes :: "string \<Rightarrow> bytes" where "string_bytes = map of_char"
definition bytes_string :: "bytes \<Rightarrow> string" where "bytes_string = map (\<lambda>b. char_of (unat b))"

definition auth_message :: "string \<Rightarrow> string \<Rightarrow> bytes" where
  "auth_message user pass =
     [0x01] @ [word_of_nat (length user)] @ string_bytes user @
     [word_of_nat (length pass)] @ string_bytes pass"

definition authUserPass :: "SOCKS5Client \<Rightarrow> unit step" where
  "authUserPass s =
     and_then (Write Authentication (auth_message (username s) (password s))) (\<lambda>_.
     and_then (ReadFull Authentication 2) (\<lambda>resp.
       if resp ! 0 \<noteq> 0x01 then fail (BadAuthVersion (resp ! 0))
       else if resp ! 1 \<noteq> 0x00 then fail (AuthFailed (resp ! 1))
       else ret ()))"

definition methods :: "SOCKS5Client \<Rightarrow> bytes" where
  "methods s = (if username s \<noteq> [] then [0x05, 0x02, 0x00, 0x02] else [0x05, 0x01, 0x00])"

definition handshake :: "SOCKS5Client \<Rightarrow> unit step" where
  "handshake s =
     and_then (Write MethodSelection (methods s)) (\<lambda>_.
     and_then (ReadFull MethodSelection 2) (\<lambda>resp.
       if resp ! 0 \<noteq> 0x05 then fail (BadVersion (resp ! 0))
       else if resp ! 1 = 0x00 then ret ()
       else if resp ! 1 = 0x02 then authUserPass s
       else if resp ! 1 = 0xFF then fail RejectedAllMethods
       else fail (UnsupportedMethod (resp ! 1))))"

text \<open>The switch on the address type of \<open>readSocksAddress\<close>, then the whole function.\<close>

definition read_bind_host :: "byte \<Rightarrow> string step" where
  "read_bind_host atyp =
     (if atyp = 0x01 then
        and_then (ReadFull ReplyIPv4 4) (\<lambda>addr. ret (ip_string addr))
      else if atyp = 0x04 then
        and_then (ReadFull ReplyIPv6 16) (\<lambda>addr. ret (ip_string addr))
      else if atyp = 0x03 then
        and_then (ReadFull ReplyDomainLength 1) (\<lambda>lenBuf.
        and_then (ReadFull ReplyDomain (unat (lenBuf ! 0))) (\<lambda>name. ret (bytes_string name)))
      else fail (UnsupportedAddressType atyp))"

definition readSocksAddress :: "string step" where
  "readSocksAddress =
     and_then (ReadFull ReplyHeader 4) (\<lambda>hdr.
       if hdr ! 0 \<noteq> 0x05 then fail (BadReplyVersion (hdr ! 0))
       else if hdr ! 1 \<noteq> 0x00 then fail (ErrorReply (hdr ! 1))
       else
         and_then (read_bind_host (hdr ! 3)) (\<lambda>h.
         and_then (ReadFull ReplyPort 2) (\<lambda>portBuf.
           ret (host_port h (uint (be16 (portBuf ! 0) (portBuf ! 1)))))))"

text \<open>\<open>byte(dstPort>>8)\<close> and \<open>byte(dstPort)\<close> of an int.\<close>

definition connect_request :: "ip \<Rightarrow> int \<Rightarrow> bytes" where
  "connect_request a dstPort =
     (case socks_addr a of (atyp, addr) \<Rightarrow>
        [0x05, 0x01, 0x00, atyp] @ addr @ [word_of_int (dstPort div 256), word_of_int dstPort])"

definition sendConnect :: "string \<Rightarrow> int \<Rightarrow> unit step" where
  "sendConnect dstIP dstPort =
     (case ParseIP dstIP of
        None \<Rightarrow> fail (InvalidDestination dstIP)
      | Some a \<Rightarrow>
          and_then (Write ConnectRequest (connect_request a dstPort)) (\<lambda>_.
          and_then readSocksAddress (\<lambda>_. ret ())))"

text \<open>
  The dial of a connection to the proxy: \<open>DialContext\<close> splits the text of the address first;
  what the network answers for host and port is the parameter \<open>net\<close>. The result of
  \<open>DialTCP\<close> gives the error or nothing, and the connection (if there is one), closed on
  every error.
\<close>

type_synonym network = "string \<times> string \<Rightarrow> pconn option"

definition DialContext :: "network \<Rightarrow> SOCKS5Client \<Rightarrow> pconn option" where
  "DialContext net s = (case SplitHostPort (host_port (host s) (port s)) of None \<Rightarrow> None | Some hp \<Rightarrow> net hp)"

definition close_on_error :: "'a step \<Rightarrow> 'a step" where
  "close_on_error m c = (case m c of (Inl e, c') \<Rightarrow> (Inl e, Close c') | r \<Rightarrow> r)"

definition DialTCP :: "network \<Rightarrow> SOCKS5Client \<Rightarrow> string \<Rightarrow> int \<Rightarrow> (socks_error + unit) \<times> pconn option" where
  "DialTCP net s dstIP dstPort =
     (case DialContext net s of
        None \<Rightarrow> (Inl DialFailed, None)
      | Some c \<Rightarrow>
          (case and_then (close_on_error (SetDeadline True SetDeadlineFailed)) (\<lambda>_.
                and_then (close_on_error (handshake s)) (\<lambda>_.
                and_then (close_on_error (sendConnect dstIP dstPort)) (\<lambda>_.
                close_on_error (SetDeadline False ClearDeadlineFailed)))) c
           of (r, c') \<Rightarrow> (r, Some c')))"

subsection \<open>Reading the stream\<close>

named_theorems step_defs \<open>the primitive steps\<close>

declare and_then_def [step_defs] ret_def [step_defs] fail_def [step_defs]

lemma and_then_InrE:
  assumes "and_then m f c = (Inr b, c2)"
  obtains a c1 where "m c = (Inr a, c1)" "f a c1 = (Inr b, c2)"
  using assms by (auto simp: and_then_def split: sum.splits prod.splits)

lemma ret_iff [simp]: "ret a c = (r, c') \<longleftrightarrow> r = Inr a \<and> c' = c"
  by (auto simp: ret_def)

lemma fail_iff [simp]: "fail e c = (r, c') \<longleftrightarrow> r = Inl e \<and> c' = c"
  by (auto simp: fail_def)

lemma ReadFull_iff:
  "ReadFull st n c = (Inr b, c') \<longleftrightarrow> length b = n \<and> inp c = b @ inp c' \<and> c' = c\<lparr>inp := inp c'\<rparr>"
  by (auto simp: ReadFull_def)

lemma ReadFull_app [simp]:
  "length b = n \<Longrightarrow> inp c = b @ rest \<Longrightarrow> ReadFull st n c = (Inr b, c\<lparr>inp := rest\<rparr>)"
  by (simp add: ReadFull_def)

lemma Write_InrD:
  "Write st b c = (Inr u, c') \<Longrightarrow> out c' = out c @ [b] \<and> inp c' = inp c \<and> is_closed c' = is_closed c \<and>
     deadline_set c' = deadline_set c \<and> deadlines_ok c' = deadlines_ok c"
  by (auto simp: Write_def split: list.splits if_splits)

lemma Write_ok [simp]: "writes_ok c = [] \<Longrightarrow> Write st b c = (Inr (), c\<lparr>out := out c @ [b]\<rparr>)"
  by (simp add: Write_def)

text \<open>
  The replies of RFC 1928 the reader accepts, and the text it returns for them.
\<close>

inductive socks_reply :: "bytes \<Rightarrow> string \<Rightarrow> bool" where
  ipv4: "length a = 4 \<Longrightarrow> socks_reply ([5, 0, rsv, 1] @ a @ [h, l]) (host_port (ip_string a) (uint (be16 h l)))"
| ipv6: "length a = 16 \<Longrightarrow> socks_reply ([5, 0, rsv, 4] @ a @ [h, l]) (host_port (ip_string a) (uint (be16 h l)))"
| domain: "length name = unat n \<Longrightarrow>
     socks_reply ([5, 0, rsv, 3, n] @ name @ [h, l]) (host_port (bytes_string name) (uint (be16 h l)))"

lemma list2: "length xs = 2 \<Longrightarrow> \<exists>a b. xs = [a, b]"
  by (auto simp: length_Suc_conv numeral_eq_Suc)

lemma list1: "length xs = Suc 0 \<Longrightarrow> \<exists>a. xs = [a]"
  by (auto simp: length_Suc_conv)

lemma and_thenI: "m c = (Inr a, c1) \<Longrightarrow> f a c1 = r \<Longrightarrow> and_then m f c = r"
  by (simp add: and_then_def)

lemma read_bind_host_iff:
  "read_bind_host atyp c = (Inr h, c') \<longleftrightarrow>
     (\<exists>b. inp c = b @ inp c' \<and> c' = c\<lparr>inp := inp c'\<rparr> \<and>
       (atyp = 1 \<and> length b = 4 \<and> h = ip_string b \<or> atyp = 4 \<and> length b = 16 \<and> h = ip_string b \<or>
        atyp = 3 \<and> (\<exists>n name. b = n # name \<and> length name = unat n \<and> h = bytes_string name)))"
proof -
  have 3: "and_then (ReadFull ReplyDomainLength 1) (\<lambda>lenBuf.
        and_then (ReadFull ReplyDomain (unat (lenBuf ! 0))) (\<lambda>name. ret (bytes_string name))) c = (Inr h, c') \<longleftrightarrow>
     (\<exists>n name. inp c = n # name @ inp c' \<and> c' = c\<lparr>inp := inp c'\<rparr> \<and> length name = unat n \<and> h = bytes_string name)"
    (is "?l \<longleftrightarrow> ?r")
  proof
    assume ?l
    then obtain b c1 name where "ReadFull ReplyDomainLength 1 c = (Inr b, c1)"
      "ReadFull ReplyDomain (unat (b ! 0)) c1 = (Inr name, c')" "h = bytes_string name"
      by (auto elim!: and_then_InrE)
    then show ?r by (auto simp: ReadFull_iff dest!: list1)
  next
    assume ?r
    then obtain n name where r: "inp c = n # name @ inp c'" "c' = c\<lparr>inp := inp c'\<rparr>" "length name = unat n"
      "h = bytes_string name" by blast
    have "ReadFull ReplyDomainLength 1 c = (Inr [n], c\<lparr>inp := name @ inp c'\<rparr>)"
      by (rule ReadFull_app) (use r(1) in simp_all)
    moreover have "ReadFull ReplyDomain (unat n) (c\<lparr>inp := name @ inp c'\<rparr>) = (Inr name, c\<lparr>inp := inp c'\<rparr>)"
      using ReadFull_app [OF r(3), of "c\<lparr>inp := name @ inp c'\<rparr>" "inp c'" ReplyDomain] by simp
    ultimately show ?l
      using r(2) by (simp add: and_then_def r(4) del: ReadFull_app)
  qed
  have 1: "and_then (ReadFull st n) (\<lambda>addr. ret (ip_string addr)) c = (Inr h, c') \<longleftrightarrow>
     (\<exists>b. inp c = b @ inp c' \<and> c' = c\<lparr>inp := inp c'\<rparr> \<and> length b = n \<and> h = ip_string b)" for st n
    by (auto simp: ReadFull_iff elim!: and_then_InrE intro!: and_thenI)
  show ?thesis
    unfolding read_bind_host_def by (auto simp: 1 3 simp del: One_nat_def)
qed

lemma socks_reply_iff:
  "socks_reply r h \<longleftrightarrow> (\<exists>rsv atyp b p q host. r = [5, 0, rsv, atyp] @ b @ [p, q] \<and> h = host_port host (uint (be16 p q)) \<and>
     (atyp = 1 \<and> length b = 4 \<and> host = ip_string b \<or> atyp = 4 \<and> length b = 16 \<and> host = ip_string b \<or>
      atyp = 3 \<and> (\<exists>n name. b = n # name \<and> length name = unat n \<and> host = bytes_string name)))"
  by (auto simp: socks_reply.simps)

lemma readSocksAddress_iff:
  "readSocksAddress c = (Inr h, c') \<longleftrightarrow> (\<exists>r. socks_reply r h \<and> inp c = r @ inp c' \<and> c' = c\<lparr>inp := inp c'\<rparr>)"
proof
  assume "readSocksAddress c = (Inr h, c')"
  then obtain hdr c1 h1 c2 pb where H: "ReadFull ReplyHeader 4 c = (Inr hdr, c1)" "hdr ! 0 = 5" "hdr ! 1 = 0"
    and B: "read_bind_host (hdr ! 3) c1 = (Inr h1, c2)"
    and P: "ReadFull ReplyPort 2 c2 = (Inr pb, c')" "h = host_port h1 (uint (be16 (pb ! 0) (pb ! 1)))"
    unfolding readSocksAddress_def by (auto elim!: and_then_InrE split: if_splits)
  from H obtain rsv atyp where hdr: "hdr = [5, 0, rsv, atyp]" "inp c = hdr @ inp c1" "c1 = c\<lparr>inp := inp c1\<rparr>"
    using list4 [of hdr] by (auto simp: ReadFull_iff)
  from P obtain p q where p: "pb = [p, q]" "inp c2 = [p, q] @ inp c'" "c' = c2\<lparr>inp := inp c'\<rparr>"
    using list2 [of pb] by (auto simp: ReadFull_iff)
  from B obtain b where b: "inp c1 = b @ inp c2" "c2 = c1\<lparr>inp := inp c2\<rparr>"
    "(atyp = 1 \<and> length b = 4 \<and> h1 = ip_string b \<or> atyp = 4 \<and> length b = 16 \<and> h1 = ip_string b \<or>
      atyp = 3 \<and> (\<exists>n name. b = n # name \<and> length name = unat n \<and> h1 = bytes_string name))"
    unfolding read_bind_host_iff hdr(1) by auto
  have "socks_reply ([5, 0, rsv, atyp] @ b @ [p, q]) h"
    unfolding socks_reply_iff using b(3) P(2) p(1) by auto
  moreover have "inp c = ([5, 0, rsv, atyp] @ b @ [p, q]) @ inp c'" using hdr b(1) p(2) by simp
  moreover have "c' = c\<lparr>inp := inp c'\<rparr>"
    by (subst p(3), subst b(2), subst hdr(3)) simp
  ultimately show "\<exists>r. socks_reply r h \<and> inp c = r @ inp c' \<and> c' = c\<lparr>inp := inp c'\<rparr>" by blast
next
  assume "\<exists>r. socks_reply r h \<and> inp c = r @ inp c' \<and> c' = c\<lparr>inp := inp c'\<rparr>"
  then obtain rsv atyp b p q host where c: "inp c = [5, 0, rsv, atyp] @ b @ [p, q] @ inp c'" "c' = c\<lparr>inp := inp c'\<rparr>"
    and h: "h = host_port host (uint (be16 p q))"
    and b: "(atyp = 1 \<and> length b = 4 \<and> host = ip_string b \<or> atyp = 4 \<and> length b = 16 \<and> host = ip_string b \<or>
      atyp = 3 \<and> (\<exists>n name. b = n # name \<and> length name = unat n \<and> host = bytes_string name))"
    unfolding socks_reply_iff by auto
  let ?c1 = "c\<lparr>inp := b @ [p, q] @ inp c'\<rparr>" and ?c2 = "c\<lparr>inp := [p, q] @ inp c'\<rparr>"
  have 1: "ReadFull ReplyHeader 4 c = (Inr [5, 0, rsv, atyp], ?c1)"
    by (rule ReadFull_app) (use c in simp_all)
  have 2: "read_bind_host atyp ?c1 = (Inr host, ?c2)"
    unfolding read_bind_host_iff using b by (intro exI [of _ b]) auto
  have 3: "ReadFull ReplyPort 2 ?c2 = (Inr [p, q], c\<lparr>inp := inp c'\<rparr>)"
    using ReadFull_app [of "[p, q]" 2 ?c2 "inp c'" ReplyPort] by simp
  show "readSocksAddress c = (Inr h, c')"
    using 2 3 h c(2) by (simp add: readSocksAddress_def and_then_def 1 del: ReadFull_app)
qed

subsection \<open>The handshake\<close>

text \<open>The proxy's bytes that a handshake accepts, and what the client has then written.\<close>

inductive accepted :: "SOCKS5Client \<Rightarrow> bytes \<Rightarrow> bytes list \<Rightarrow> bool" for s where
  no_auth: "accepted s [5, 0] [methods s]"
| password: "accepted s [5, 2, 1, 0] [methods s, auth_message (username s) (password s)]"

text \<open>The parts of a connection the handshake leaves alone.\<close>

definition same_rest :: "pconn \<Rightarrow> pconn \<Rightarrow> bool" where
  "same_rest c c' \<longleftrightarrow> is_closed c' = is_closed c \<and> deadline_set c' = deadline_set c \<and>
     deadlines_ok c' = deadlines_ok c"

lemma same_rest_refl [simp]: "same_rest c c"
  by (simp add: same_rest_def)

lemma same_rest_trans: "same_rest a b \<Longrightarrow> same_rest b c \<Longrightarrow> same_rest a c"
  by (simp add: same_rest_def)

lemma same_rest_inp [simp]: "same_rest c (c\<lparr>inp := i\<rparr>)"
  by (simp add: same_rest_def)

lemma same_rest_ReadFull: "ReadFull st n c = (r, c') \<Longrightarrow> same_rest c c' \<and> out c' = out c"
  by (auto simp: ReadFull_def same_rest_def split: if_splits)

lemma same_rest_Write: "Write st b c = (r, c') \<Longrightarrow> same_rest c c' \<and> inp c' = inp c"
  by (auto simp: Write_def same_rest_def split: list.splits if_splits)

lemma authUserPass_InrD:
  assumes "authUserPass s c = (Inr u, c')"
  shows "inp c = [1, 0] @ inp c' \<and> out c' = out c @ [auth_message (username s) (password s)] \<and> same_rest c c'"
proof -
  from assms obtain c1 resp where W: "Write Authentication (auth_message (username s) (password s)) c = (Inr (), c1)"
    and R: "ReadFull Authentication 2 c1 = (Inr resp, c')" "resp ! 0 = 1" "resp ! 1 = 0"
    unfolding authUserPass_def by (auto elim!: and_then_InrE split: if_splits)
  from R have "resp = [1, 0]" using list2 [of resp] by (auto simp: ReadFull_iff)
  with Write_InrD [OF W] R(1) same_rest_ReadFull [OF R(1)] same_rest_Write [OF W] same_rest_trans
  show ?thesis by (auto simp: ReadFull_iff)
qed

lemma handshake_InrD:
  assumes "handshake s c = (Inr u, c')"
  shows "\<exists>sel outs. accepted s sel outs \<and> inp c = sel @ inp c' \<and> out c' = out c @ outs \<and> same_rest c c'"
proof -
  from assms obtain c1 resp c2 where W: "Write MethodSelection (methods s) c = (Inr (), c1)"
    and R: "ReadFull MethodSelection 2 c1 = (Inr resp, c2)" "resp ! 0 = 5"
    and B: "resp ! 1 = 0 \<and> c' = c2 \<or> resp ! 1 = 2 \<and> authUserPass s c2 = (Inr (), c')"
    unfolding handshake_def by (auto elim!: and_then_InrE split: if_splits)
  from R obtain m where m: "resp = [5, m]" using list2 [of resp] by (auto simp: ReadFull_iff)
  note w = Write_InrD [OF W] same_rest_ReadFull [OF R(1)] same_rest_Write [OF W]
  from B show ?thesis
  proof
    assume "resp ! 1 = 0 \<and> c' = c2"
    with m w R(1) show ?thesis
      using accepted.no_auth [of s] by (intro exI [of _ "[5, 0]"] exI [of _ "[methods s]"])
        (auto simp: ReadFull_iff intro: same_rest_trans)
  next
    assume A: "resp ! 1 = 2 \<and> authUserPass s c2 = (Inr (), c')"
    with authUserPass_InrD [of s c2 "()" c'] m w R(1) show ?thesis
      using accepted.password [of s]
      by (intro exI [of _ "[5, 2, 1, 0]"] exI [of _ "[methods s, auth_message (username s) (password s)]"])
        (auto simp: ReadFull_iff same_rest_def)
  qed
qed

lemma handshake_accepts:
  assumes "accepted s sel outs" and "inp c = sel @ rest" and "writes_ok c = []"
  shows "handshake s c = (Inr (), c\<lparr>inp := rest, out := out c @ outs\<rparr>)"
  using assms(1)
proof cases
  case no_auth
  have "ReadFull MethodSelection 2 (c\<lparr>out := out c @ [methods s]\<rparr>) =
      (Inr [5, 0], c\<lparr>out := out c @ [methods s], inp := rest\<rparr>)"
    by (rule ReadFull_app) (use assms no_auth in simp_all)
  with assms(3) no_auth show ?thesis by (simp add: handshake_def and_then_def del: ReadFull_app)
next
  case password
  let ?c1 = "c\<lparr>out := out c @ [methods s], inp := [1, 0] @ rest\<rparr>"
  let ?a = "auth_message (username s) (password s)"
  have 1: "ReadFull MethodSelection 2 (c\<lparr>out := out c @ [methods s]\<rparr>) = (Inr [5, 2], ?c1)"
    by (rule ReadFull_app) (use assms password in simp_all)
  have 2: "ReadFull Authentication 2 (?c1\<lparr>out := out c @ [methods s, ?a]\<rparr>) =
      (Inr [1, 0], c\<lparr>out := out c @ [methods s, ?a], inp := rest\<rparr>)"
    using ReadFull_app [of "[1, 0]" 2 "?c1\<lparr>out := out c @ [methods s, ?a]\<rparr>" rest Authentication] by simp
  have "Write Authentication ?a ?c1 = (Inr (), ?c1\<lparr>out := out c @ [methods s, ?a]\<rparr>)"
    using assms(3) by simp
  with 2 have "authUserPass s ?c1 = (Inr (), c\<lparr>out := out c @ [methods s, ?a], inp := rest\<rparr>)"
    by (simp add: authUserPass_def and_then_def del: ReadFull_app Write_ok)
  with 1 assms(3) password show ?thesis by (simp add: handshake_def and_then_def del: ReadFull_app)
qed

lemma sendConnect_InrD:
  assumes "sendConnect d p c = (Inr u, c')"
  shows "\<exists>a r h. ParseIP d = Some a \<and> socks_reply r h \<and> inp c = r @ inp c' \<and>
    out c' = out c @ [connect_request a p] \<and> same_rest c c'"
proof -
  from assms obtain a c1 h where a: "ParseIP d = Some a"
    and W: "Write ConnectRequest (connect_request a p) c = (Inr (), c1)"
    and R: "readSocksAddress c1 = (Inr h, c')"
    unfolding sendConnect_def by (auto elim!: and_then_InrE split: option.splits)
  from R obtain r where r: "socks_reply r h" "inp c1 = r @ inp c'" "c' = c1\<lparr>inp := inp c'\<rparr>"
    unfolding readSocksAddress_iff by blast
  have "out c' = out c1" "same_rest c1 c'" by (subst r(3), simp)+
  with a r(1,2) Write_InrD [OF W] same_rest_Write [OF W] show ?thesis
    by (auto intro: same_rest_trans)
qed

lemma sendConnect_accepts:
  assumes "ParseIP d = Some a" and "socks_reply r h" and "inp c = r @ rest" and "writes_ok c = []"
  shows "sendConnect d p c = (Inr (), c\<lparr>inp := rest, out := out c @ [connect_request a p]\<rparr>)"
proof -
  have "readSocksAddress (c\<lparr>out := out c @ [connect_request a p]\<rparr>) =
      (Inr h, c\<lparr>out := out c @ [connect_request a p], inp := rest\<rparr>)"
    unfolding readSocksAddress_iff using assms(2,3) by auto
  then show ?thesis using assms(1,4) by (simp add: sendConnect_def and_then_def)
qed

subsection \<open>The dial\<close>

text \<open>The destination as the forwarders give it: the text of an address of the netstack.\<close>

lemma connect_request_string:
  assumes "wf_ip a"
  shows "\<exists>b. ParseIP (ip_string a) = Some b \<and> connect_request b p = connect_request a p"
proof -
  have "ParseIP (ip_string a) = Some (the (To16 a))" by (rule ip_text.dec_enc [OF assms])
  moreover have "socks_addr (the (To16 a)) = socks_addr a"
    using assms by (auto simp: socks_addr_def To4_def To16_def wf_ip_def)
  ultimately show ?thesis by (simp add: connect_request_def)
qed

lemma close_on_error_Inr [simp]: "close_on_error m c = (Inr a, c') \<longleftrightarrow> m c = (Inr a, c')"
  by (auto simp: close_on_error_def split: prod.splits sum.splits)

lemma close_on_error_Inl: "close_on_error m c = (Inl e, c') \<Longrightarrow> is_closed c'"
  by (auto simp: close_on_error_def Close_def split: prod.splits sum.splits)

lemma and_then_Inl:
  "and_then m f c = (Inl e, c') \<Longrightarrow> (\<exists>a c1. m c = (Inr a, c1) \<and> f a c1 = (Inl e, c')) \<or> m c = (Inl e, c')"
  by (auto simp: and_then_def split: prod.splits sum.splits)

lemma SetDeadline_InrD:
  "SetDeadline on e c = (Inr u, c') \<Longrightarrow> deadline_set c' = on \<and> inp c' = inp c \<and> out c' = out c \<and> is_closed c' = is_closed c"
  by (auto simp: SetDeadline_def split: list.splits if_splits)

lemma SetDeadline_ok [simp]: "deadlines_ok c = [] \<Longrightarrow> SetDeadline on e c = (Inr (), c\<lparr>deadline_set := on\<rparr>)"
  by (simp add: SetDeadline_def)

lemma DialTCP_InrD:
  assumes "DialTCP net s d p = (Inr u, oc)"
  obtains c c1 c2 c3 c' where "DialContext net s = Some c" "oc = Some c'"
    "SetDeadline True SetDeadlineFailed c = (Inr (), c1)" "handshake s c1 = (Inr (), c2)"
    "sendConnect d p c2 = (Inr (), c3)" "SetDeadline False ClearDeadlineFailed c3 = (Inr (), c')"
  using assms by (auto simp: DialTCP_def split: option.splits prod.splits elim!: and_then_InrE)

subsection \<open>Reference readers of the proxy\<close>

text \<open>A CONNECT request as RFC 1928 defines it, read from a stream.\<close>

fun read_request :: "bytes \<Rightarrow> ((ip \<times> u16) \<times> bytes) option" where
  "read_request (v # cmd # rsv # atyp # bs) =
     (let n = (if atyp = 1 then 4 else 16) in
      if v \<noteq> 5 \<or> cmd \<noteq> 1 \<or> atyp \<notin> {1, 4} \<or> length bs < n + 2 then None
      else Some ((take n bs, be16 (bs ! n) (bs ! Suc n)), drop (n + 2) bs))"
| "read_request _ = None"

text \<open>A username/password message as RFC 1929 defines it, read from a stream.\<close>

fun read_counted :: "bytes \<Rightarrow> (bytes \<times> bytes) option" where
  "read_counted (n # bs) = (if unat n \<le> length bs then Some (take (unat n) bs, drop (unat n) bs) else None)"
| "read_counted [] = None"

definition read_auth :: "bytes \<Rightarrow> ((string \<times> string) \<times> bytes) option" where
  "read_auth bs =
     (case bs of
        [] \<Rightarrow> None
      | v # bs1 \<Rightarrow>
          (if v \<noteq> 1 then None
           else case read_counted bs1 of
             None \<Rightarrow> None
           | Some (u, bs2) \<Rightarrow>
               (case read_counted bs2 of
                  None \<Rightarrow> None
                | Some (p, rest) \<Rightarrow> Some ((bytes_string u, bytes_string p), rest))))"

lemma unat_of_char: "unat (of_char c :: byte) = of_char c"
proof -
  have "unat (of_char c :: byte) = of_char c mod 256"
    unfolding of_nat_of_char [symmetric, of c, where 'a = "byte"] by (simp add: unat_of_nat)
  then show ?thesis by simp
qed

lemma bytes_string_bytes [simp]: "bytes_string (string_bytes s) = s"
  by (induction s) (auto simp: bytes_string_def string_bytes_def unat_of_char)

lemma length_string_bytes [simp]: "length (string_bytes s) = length s"
  by (simp add: string_bytes_def)

lemma read_counted_app:
  "length b < 256 \<Longrightarrow> read_counted (word_of_nat (length b) # b @ rest) = Some (b, rest)"
  by (simp add: unat_of_nat)

definition short_credentials :: "string \<times> string \<Rightarrow> bool" where
  "short_credentials up \<longleftrightarrow> length (fst up) < 256 \<and> length (snd up) < 256"

interpretation auth: prefix_codec "\<lambda>(u, p). auth_message u p" read_auth short_credentials
proof unfold_locales
  fix x :: "string \<times> string" and rest :: bytes
  assume ok: "short_credentials x"
  obtain u p where x: "x = (u, p)" by (cases x)
  have "read_counted (word_of_nat (length u) # string_bytes u @ word_of_nat (length p) # string_bytes p @ rest)
      = Some (string_bytes u, word_of_nat (length p) # string_bytes p @ rest)"
    "read_counted (word_of_nat (length p) # string_bytes p @ rest) = Some (string_bytes p, rest)"
    using ok read_counted_app [of "string_bytes u"] read_counted_app [of "string_bytes p"]
    by (simp_all add: x short_credentials_def del: read_counted.simps)
  then show "read_auth ((case x of (u, p) \<Rightarrow> auth_message u p) @ rest) = Some (x, rest)"
    by (simp add: x read_auth_def auth_message_def del: read_counted.simps)
qed

definition normal_target :: "ip \<times> u16 \<Rightarrow> bool" where
  "normal_target t \<longleftrightarrow> wf_ip (fst t) \<and> ip_norm (fst t) = fst t"

lemma port_bytes: "word_of_int (uint (p :: u16) div 256) = hi8 p" "word_of_int (uint p) = lo8 p"
proof -
  have "uint p div 256 = uint (drop_bit 8 p)" by (simp add: drop_bit_eq_div uint_div)
  then show "word_of_int (uint p div 256) = hi8 p" by (simp add: hi8_def unsigned_ucast_eq)
  show "word_of_int (uint p) = lo8 p" by (simp add: lo8_def)
qed

lemma connect_request_bytes:
  "connect_request a (uint p) = [5, 1, 0, fst (socks_addr a)] @ snd (socks_addr a) @ [hi8 p, lo8 p]"
  by (simp add: connect_request_def port_bytes lo8_def split: prod.split)

lemma read_request_connect:
  assumes "wf_ip a"
  shows "read_request (connect_request a (uint p) @ rest) = Some ((ip_norm a, p), rest)"
proof -
  have w: "well_formed (fst (socks_addr a)) (ip_norm a)" "snd (socks_addr a) = ip_norm a"
    using socks_addr_wf [OF assms] by metis+
  then have n: "length (ip_norm a) = (if fst (socks_addr a) = 1 then 4 else 16)" "fst (socks_addr a) \<in> {1, 4}"
    by (auto simp: well_formed_def)
  then show ?thesis
    by (simp add: connect_request_bytes w(2) Let_def nth_append)
qed

interpretation request: prefix_codec "\<lambda>(a, p). connect_request a (uint p)" read_request normal_target
  by unfold_locales (auto simp: normal_target_def read_request_connect)

lemma DialTCP_sound:
  assumes "wf_ip a" and "DialTCP net s (ip_string a) (uint p) = (Inr u, oc)"
    and "DialContext net s = Some c" and "\<not> is_closed c"
  shows "\<exists>c' sel outs r h. oc = Some c' \<and> accepted s sel outs \<and> socks_reply r h \<and>
    inp c = sel @ r @ inp c' \<and> out c' = out c @ outs @ [connect_request a (uint p)] \<and>
    read_request (connect_request a (uint p)) = Some ((ip_norm a, p), []) \<and>
    \<not> is_closed c' \<and> \<not> deadline_set c'"
proof -
  from DialTCP_InrD [OF assms(2)] assms(3) obtain c1 c2 c3 c' where
    oc: "oc = Some c'" and d1: "SetDeadline True SetDeadlineFailed c = (Inr (), c1)"
    and h: "handshake s c1 = (Inr (), c2)" and sc: "sendConnect (ip_string a) (uint p) c2 = (Inr (), c3)"
    and d2: "SetDeadline False ClearDeadlineFailed c3 = (Inr (), c')"
    by (metis option.inject)
  from handshake_InrD [OF h] obtain sel outs where 1: "accepted s sel outs" "inp c1 = sel @ inp c2"
    "out c2 = out c1 @ outs" "same_rest c1 c2" by blast
  from sendConnect_InrD [OF sc] obtain b r h where 2: "ParseIP (ip_string a) = Some b" "socks_reply r h"
    "inp c2 = r @ inp c3" "out c3 = out c2 @ [connect_request b (uint p)]" "same_rest c2 c3" by blast
  have b: "connect_request b (uint p) = connect_request a (uint p)"
    using connect_request_string [OF assms(1), of "uint p"] 2(1) by auto
  have "read_request (connect_request a (uint p)) = Some ((ip_norm a, p), [])"
    using read_request_connect [OF assms(1), of p "[]"] by simp
  with oc 1 2 b SetDeadline_InrD [OF d1] SetDeadline_InrD [OF d2] assms(4) show ?thesis
    by (auto simp: same_rest_def)
qed

subsection \<open>Properties\<close>

text \<open>
  C5: what a successful dial means. If \<open>DialTCP\<close> to the text of an address succeeds, whatever
  the proxy did and whichever writes could have failed: the proxy's bytes were an accepted
  handshake and a success reply, and everything after them is still unread on the connection;
  the client wrote exactly the method selection, the credentials if they were asked for, and
  the CONNECT request, which an RFC 1928 proxy reads as this very destination (IPv4-mapped as
  IPv4) and port; the connection is open and its deadline is cleared.
\<close>

theorem DialTCP_success:
  assumes "wf_ip a" and "DialTCP net s (ip_string a) (uint p) = (Inr u, oc)"
    and "DialContext net s = Some c" and "\<not> is_closed c"
  shows "\<exists>c' sel outs r h. oc = Some c' \<and> accepted s sel outs \<and> socks_reply r h \<and>
    inp c = sel @ r @ inp c' \<and> out c' = out c @ outs @ [connect_request a (uint p)] \<and>
    read_request (connect_request a (uint p)) = Some ((ip_norm a, p), []) \<and>
    \<not> is_closed c' \<and> \<not> deadline_set c'"
  by (rule DialTCP_sound [OF assms])

definition demo_client :: SOCKS5Client where
  "demo_client = \<lparr>host = ''127.0.0.1'', port = 1080, username = ''u'', password = ''p''\<rparr>"

definition demo_conn :: pconn where
  "demo_conn = \<lparr>inp = [5, 2, 1, 0] @ [5, 0, 0, 1, 10, 0, 0, 1, 0, 80] @ [72, 105], out = [],
     writes_ok = [], deadlines_ok = [], deadline_set = False, is_closed = False\<rparr>"

lemma DialContext_demo: "DialContext (\<lambda>_. Some c) demo_client = Some c"
proof -
  have "CHR '':'' \<notin> set ''127.0.0.1''" "\<not> brackets ''127.0.0.1''" by (auto simp: brackets_def)
  from SplitHostPort_host_port [OF this] show ?thesis by (simp add: DialContext_def demo_client_def)
qed

lemma DialTCP_completes:
  assumes "DialContext net s = Some c" and "writes_ok c = []" and "deadlines_ok c = []"
    and "wf_ip a" and "accepted s sel outs" and "socks_reply r h" and "inp c = sel @ r @ rest"
  shows "DialTCP net s (ip_string a) p = (Inr (), Some (c\<lparr>inp := rest,
    out := out c @ outs @ [connect_request a p], deadline_set := False\<rparr>))"
proof -
  let ?c1 = "c\<lparr>deadline_set := True\<rparr>"
  let ?c2 = "?c1\<lparr>inp := r @ rest, out := out c @ outs\<rparr>"
  obtain b where b: "ParseIP (ip_string a) = Some b" "connect_request b p = connect_request a p"
    using connect_request_string [OF assms(4)] by blast
  have "handshake s ?c1 = (Inr (), ?c2)"
    using handshake_accepts [OF assms(5), of ?c1 "r @ rest"] assms by simp
  moreover have "sendConnect (ip_string a) p ?c2 = (Inr (), ?c2\<lparr>inp := rest, out := out c @ outs @ [connect_request a p]\<rparr>)"
    using sendConnect_accepts [OF b(1) assms(6), of ?c2 rest p] assms b(2) by simp
  ultimately show ?thesis
    using assms(1-3) by (simp add: DialTCP_def and_then_def close_on_error_def)
qed

lemma demo_reply: "socks_reply [5, 0, 0, 1, 10, 0, 0, 1, 0, 80] (host_port (ip_string [10, 0, 0, 1]) (uint (be16 0 80)))"
  using socks_reply.ipv4 [of "[10, 0, 0, 1]" 0 0 80] by simp

lemma DialTCP_success_witness:
  "\<exists>c'. DialTCP (\<lambda>_. Some demo_conn) demo_client (ip_string [1, 2, 3, 4]) (uint (443 :: u16)) = (Inr (), Some c') \<and>
     read_request (connect_request [1, 2, 3, 4] (uint (443 :: u16))) = Some (([1, 2, 3, 4], 443), []) \<and>
     \<not> is_closed c'"
proof -
  have w: "wf_ip [1, 2, 3, 4]" "ip_norm [1, 2, 3, 4] = [1, 2, 3, 4]"
    by (simp_all add: wf_ip_def ip_norm_def To4_def)
  have "inp demo_conn = [5, 2, 1, 0] @ [5, 0, 0, 1, 10, 0, 0, 1, 0, 80] @ [72, 105]" by (simp add: demo_conn_def)
  from DialTCP_completes [OF DialContext_demo _ _ w(1) accepted.password demo_reply this, of "uint (443 :: u16)"]
  obtain oc where oc: "DialTCP (\<lambda>_. Some demo_conn) demo_client (ip_string [1, 2, 3, 4]) (uint (443 :: u16)) = (Inr (), oc)"
    by (simp add: demo_conn_def)
  from DialTCP_success [OF w(1) this DialContext_demo] obtain c' where
    "oc = Some c'" "read_request (connect_request [1, 2, 3, 4] (uint (443 :: u16))) = Some (([1, 2, 3, 4], 443), [])"
    "\<not> is_closed c'" unfolding w(2) by (auto simp: demo_conn_def)
  with oc show ?thesis by blast
qed

text \<open>
  Nothing is needed beyond the protocol. When no write or deadline call fails, every
  stream of an accepted handshake and a success reply makes the dial succeed, with the bytes
  that follow left for the data pipe: \<open>DialTCP\<close> never reads ahead.
\<close>

theorem DialTCP_never_reads_ahead:
  assumes "DialContext net s = Some c" and "writes_ok c = []" and "deadlines_ok c = []"
    and "wf_ip a" and "accepted s sel outs" and "socks_reply r h" and "inp c = sel @ r @ rest"
  shows "\<exists>c'. DialTCP net s (ip_string a) p = (Inr (), Some c') \<and> inp c' = rest \<and>
    out c' = out c @ outs @ [connect_request a p]"
  using DialTCP_completes [OF assms] by simp

lemma DialTCP_never_reads_ahead_witness:
  "\<exists>c'. DialTCP (\<lambda>_. Some demo_conn) demo_client (ip_string [1, 2, 3, 4]) 443 = (Inr (), Some c') \<and> inp c' = [72, 105]"
proof -
  have w: "wf_ip [1, 2, 3, 4]" by (simp add: wf_ip_def)
  have "inp demo_conn = [5, 2, 1, 0] @ [5, 0, 0, 1, 10, 0, 0, 1, 0, 80] @ [72, 105]" by (simp add: demo_conn_def)
  from DialTCP_never_reads_ahead [OF DialContext_demo _ _ w accepted.password demo_reply this]
  show ?thesis by (auto simp: demo_conn_def)
qed

text \<open>
  C33: a failed dial leaks nothing. Whatever the proxy sends and whichever call fails, when
  \<open>DialTCP\<close> returns an error, either there was no connection or the connection has been closed.
\<close>

theorem DialTCP_error_closes:
  assumes "DialTCP net s d p = (Inl e, oc)"
  shows "oc = None \<and> e = DialFailed \<or> (\<exists>c'. oc = Some c' \<and> is_closed c')"
  using assms
  by (auto simp: DialTCP_def split: option.splits prod.splits dest!: and_then_Inl close_on_error_Inl)

lemma DialTCP_error_closes_witness:
  "\<exists>c'. DialTCP (\<lambda>_. Some (demo_conn\<lparr>inp := [5, 0xFF]\<rparr>)) demo_client ''1.2.3.4'' 443 =
     (Inl RejectedAllMethods, Some c') \<and> is_closed c'"
proof -
  have "\<exists>oc. DialTCP (\<lambda>_. Some (demo_conn\<lparr>inp := [5, 0xFF]\<rparr>)) demo_client ''1.2.3.4'' 443 = (Inl RejectedAllMethods, oc)"
    by (simp add: DialTCP_def DialContext_demo and_then_def close_on_error_def handshake_def ReadFull_def
        fail_def demo_conn_def)
  then obtain oc where "DialTCP (\<lambda>_. Some (demo_conn\<lparr>inp := [5, 0xFF]\<rparr>)) demo_client ''1.2.3.4'' 443 =
    (Inl RejectedAllMethods, oc)" by blast
  with DialTCP_error_closes [OF this] show ?thesis by auto
qed

text \<open>
  C37: credentials arrive as configured exactly when they fit. On a stream, an RFC 1929 proxy
  reads user name, password and the following bytes back from the authentication message
  when both have fewer than 256 characters; with a longer user name or password the length
  byte wraps and it never reads the configured pair.
\<close>

theorem auth_message_fits:
  "(\<exists>r. read_auth (auth_message u p @ rest) = Some ((u, p), r)) \<longleftrightarrow> length u < 256 \<and> length p < 256"
proof
  assume "length u < 256 \<and> length p < 256"
  then have "short_credentials (u, p)" by (simp add: short_credentials_def)
  from auth.dec_enc_append [OF this] show "\<exists>r. read_auth (auth_message u p @ rest) = Some ((u, p), r)" by simp
next
  assume "\<exists>r. read_auth (auth_message u p @ rest) = Some ((u, p), r)"
  then obtain r where r: "read_auth (auth_message u p @ rest) = Some ((u, p), r)" by blast
  have short: "length b < 256" if "read_counted bs = Some (b, t)" for bs b t
  proof -
    from that obtain n bs' where "length b = unat (n :: byte)" by (cases bs) (auto split: if_splits)
    then show ?thesis by simp
  qed
  from r show "length u < 256 \<and> length p < 256"
    by (auto simp: read_auth_def bytes_string_def dest!: short split: list.splits option.splits if_splits prod.splits)
qed

end
