(* ===== verification/Socks5_Associate.thy ===== *)
theory Socks5_Associate
  imports Socks5_Client
begin

text \<open>
  \<open>UDPAssociate\<close> of \<open>go/socks5.go\<close>: the control connection, the local UDP socket and the relay
  address the proxy names. Binding the local socket and resolving names are outside the
  program: the bound port (or failure) and the resolver are parameters.
\<close>

record udp_sock =
  local_port :: int
  sock_closed :: bool

record UDPAssociation =
  RelayAddr :: "ip \<times> nat"
  UDPConn :: udp_sock
  ctrl :: pconn

definition close_association :: "UDPAssociation \<Rightarrow> UDPAssociation" where
  "close_association a = a\<lparr>UDPConn := (UDPConn a)\<lparr>sock_closed := True\<rparr>, ctrl := Close (ctrl a)\<rparr>"

definition associate_request :: "int \<Rightarrow> bytes" where
  "associate_request boundPort =
     [0x05, 0x03, 0x00, 0x01, 127, 0, 0, 1, word_of_int (boundPort div 256), word_of_int boundPort]"

text \<open>Every error after the bind closes the socket and the connection.\<close>

definition UDPAssociate :: "network \<Rightarrow> int option \<Rightarrow> (string \<Rightarrow> ip option) \<Rightarrow> SOCKS5Client \<Rightarrow>
    (socks_error + ip \<times> nat) \<times> pconn option \<times> udp_sock option" where
  "UDPAssociate net listen lookup s =
     (case DialContext net s of
        None \<Rightarrow> (Inl DialFailed, None, None)
      | Some c \<Rightarrow>
          (case and_then (close_on_error (SetDeadline True SetDeadlineFailed)) (\<lambda>_.
                close_on_error (handshake s)) c of
             (Inl e, c1) \<Rightarrow> (Inl e, Some c1, None)
           | (Inr _, c1) \<Rightarrow>
               (case listen of
                  None \<Rightarrow> (Inl BindFailed, Some (Close c1), None)
                | Some boundPort \<Rightarrow>
                    (let udpConn = \<lparr>local_port = boundPort, sock_closed = False\<rparr> in
                     case and_then (Write AssociateRequest (associate_request boundPort)) (\<lambda>_.
                          and_then readSocksAddress (\<lambda>relayAddr.
                          and_then (case ResolveUDPAddr lookup relayAddr of
                                      None \<Rightarrow> fail (ResolveFailed relayAddr) | Some a \<Rightarrow> ret a) (\<lambda>udpAddr.
                          and_then (SetDeadline False ClearDeadlineFailed) (\<lambda>_. ret udpAddr)))) c1 of
                       (Inl e, c2) \<Rightarrow> (Inl e, Some (Close c2), Some (udpConn\<lparr>sock_closed := True\<rparr>))
                     | (Inr udpAddr, c2) \<Rightarrow> (Inr udpAddr, Some c2, Some udpConn)))))"

lemma UDPAssociate_InrD:
  assumes "UDPAssociate net listen lookup s = (Inr relay, oc, ou)"
  obtains c c1 c2 c3 c4 bp addr c' where "DialContext net s = Some c" "listen = Some bp"
    "SetDeadline True SetDeadlineFailed c = (Inr (), c1)" "handshake s c1 = (Inr (), c2)"
    "Write AssociateRequest (associate_request bp) c2 = (Inr (), c3)" "readSocksAddress c3 = (Inr addr, c4)"
    "ResolveUDPAddr lookup addr = Some relay" "SetDeadline False ClearDeadlineFailed c4 = (Inr (), c')"
    "oc = Some c'" "ou = Some \<lparr>local_port = bp, sock_closed = False\<rparr>"
  using assms
  by (auto simp: UDPAssociate_def Let_def split: option.splits prod.splits sum.splits elim!: and_then_InrE)

subsection \<open>Properties\<close>

text \<open>
  C23: a successful UDP ASSOCIATE. Whatever the proxy did: the handshake was accepted, the
  request named the bound local port on 127.0.0.1, the proxy's success reply was read to its
  last byte and no further, and the relay address is what its text resolves to; the control
  connection is open with its deadline cleared and the local socket is open.
\<close>

theorem UDPAssociate_success:
  assumes "UDPAssociate net (Some bp) lookup s = (Inr relay, oc, ou)"
    and "DialContext net s = Some c" and "\<not> is_closed c"
  shows "\<exists>c' sel outs r addr. oc = Some c' \<and> ou = Some \<lparr>local_port = bp, sock_closed = False\<rparr> \<and>
    accepted s sel outs \<and> socks_reply r addr \<and> inp c = sel @ r @ inp c' \<and>
    out c' = out c @ outs @ [associate_request bp] \<and> ResolveUDPAddr lookup addr = Some relay \<and>
    \<not> is_closed c' \<and> \<not> deadline_set c'"
proof -
  from assms(1) obtain d c1 c2 c3 c4 q addr c' where dq: "DialContext net s = Some d" "Some bp = Some q"
    and d1': "SetDeadline True SetDeadlineFailed d = (Inr (), c1)" and h: "handshake s c1 = (Inr (), c2)"
    and W: "Write AssociateRequest (associate_request q) c2 = (Inr (), c3)"
    and R: "readSocksAddress c3 = (Inr addr, c4)" and res: "ResolveUDPAddr lookup addr = Some relay"
    and d2: "SetDeadline False ClearDeadlineFailed c4 = (Inr (), c')"
    and o: "oc = Some c'" "ou = Some \<lparr>local_port = q, sock_closed = False\<rparr>"
    by (rule UDPAssociate_InrD)
  have d1: "SetDeadline True SetDeadlineFailed c = (Inr (), c1)" and q: "q = bp"
    using dq d1' assms(2) by simp_all
  from handshake_InrD [OF h] obtain sel outs where 1: "accepted s sel outs" "inp c1 = sel @ inp c2"
    "out c2 = out c1 @ outs" "same_rest c1 c2" by blast
  from R obtain r where r: "socks_reply r addr" "inp c3 = r @ inp c4" "c4 = c3\<lparr>inp := inp c4\<rparr>"
    unfolding readSocksAddress_iff by blast
  have "out c4 = out c3" "is_closed c4 = is_closed c3" by (subst r(3), simp)+
  with o [unfolded q] 1 r(1,2) res SetDeadline_InrD [OF d1] SetDeadline_InrD [OF d2] Write_InrD [OF W [unfolded q]] assms(3)
  show ?thesis by (auto simp: same_rest_def)
qed

definition demo_assoc_conn :: pconn where
  "demo_assoc_conn = demo_conn\<lparr>inp := [5, 0] @ [5, 0, 0, 1, 127, 0, 0, 1, 31, 144]\<rparr>"

lemma UDPAssociate_completes:
  assumes "DialContext net s = Some c" and "writes_ok c = []" and "deadlines_ok c = []"
    and "accepted s sel outs" and "socks_reply r addr" and "inp c = sel @ r @ rest"
  shows "UDPAssociate net (Some bp) lookup s =
    (let c' = c\<lparr>inp := rest, out := out c @ outs @ [associate_request bp]\<rparr> in
     case ResolveUDPAddr lookup addr of
       None \<Rightarrow> (Inl (ResolveFailed addr), Some (Close (c'\<lparr>deadline_set := True\<rparr>)), Some \<lparr>local_port = bp, sock_closed = True\<rparr>)
     | Some relay \<Rightarrow> (Inr relay, Some (c'\<lparr>deadline_set := False\<rparr>), Some \<lparr>local_port = bp, sock_closed = False\<rparr>))"
proof -
  let ?c1 = "c\<lparr>deadline_set := True\<rparr>"
  let ?c2 = "?c1\<lparr>inp := r @ rest, out := out c @ outs\<rparr>"
  let ?c3 = "?c2\<lparr>out := out c @ outs @ [associate_request bp]\<rparr>"
  have "handshake s ?c1 = (Inr (), ?c2)"
    using handshake_accepts [OF assms(4), of ?c1 "r @ rest"] assms by simp
  moreover have "readSocksAddress ?c3 = (Inr addr, ?c3\<lparr>inp := rest\<rparr>)"
    unfolding readSocksAddress_iff using assms(5) by auto
  ultimately show ?thesis
    using assms(1-3)
    by (simp add: UDPAssociate_def and_then_def close_on_error_def Let_def fail_def ret_def Close_def split: option.split)
qed

lemma demo_assoc:
  "\<exists>b oc. UDPAssociate (\<lambda>_. Some demo_assoc_conn) (Some 40000) lookup demo_client =
     (Inr (b, 8080), oc, Some \<lparr>local_port = 40000, sock_closed = False\<rparr>)"
proof -
  have r: "socks_reply [5, 0, 0, 1, 127, 0, 0, 1, 31, 144] (host_port (ip_string [127, 0, 0, 1]) (uint (be16 31 144)))"
    using socks_reply.ipv4 [where a = "[127, 0, 0, 1]" and rsv = 0 and h = 31 and l = 144] by simp
  have "uint (be16 31 144) = 8080" by code_simp
  moreover have "\<exists>b. ResolveUDPAddr lookup (host_port (ip_string [127, 0, 0, 1]) 8080) = Some (b, 8080)"
    using Resolve_v4 [where a = "[127, 0, 0, 1]" and p = 8080 and lookup = lookup] by (auto simp: wf_ip_def To4_def)
  ultimately obtain b where b: "ResolveUDPAddr lookup (host_port (ip_string [127, 0, 0, 1]) (uint (be16 31 144))) = Some (b, 8080)"
    by auto
  have i: "inp demo_assoc_conn = [5, 0] @ [5, 0, 0, 1, 127, 0, 0, 1, 31, 144] @ []" by (simp add: demo_assoc_conn_def)
  have "writes_ok demo_assoc_conn = []" "deadlines_ok demo_assoc_conn = []" by (simp_all add: demo_assoc_conn_def demo_conn_def)
  from UDPAssociate_completes [OF DialContext_demo this accepted.no_auth r i, where bp = 40000 and lookup = lookup] show ?thesis
    by (simp add: b Let_def)
qed

lemma UDPAssociate_success_witness:
  "\<exists>relay oc ou c'. UDPAssociate (\<lambda>_. Some demo_assoc_conn) (Some 40000) (\<lambda>_. None) demo_client = (Inr relay, oc, ou) \<and>
     oc = Some c' \<and> \<not> is_closed c' \<and> (\<exists>outs. out c' = outs @ [associate_request 40000])"
proof -
  obtain b oc where r: "UDPAssociate (\<lambda>_. Some demo_assoc_conn) (Some 40000) (\<lambda>_. None) demo_client =
     (Inr (b, 8080), oc, Some \<lparr>local_port = 40000, sock_closed = False\<rparr>)" using demo_assoc by blast
  from UDPAssociate_success [OF r DialContext_demo] r show ?thesis
    by (fastforce simp: demo_assoc_conn_def demo_conn_def)
qed

text \<open>
  C34: a failed UDP ASSOCIATE leaks nothing: on every error, whatever failed, the control
  connection (if it was dialed) and the local socket (if it was bound) have been closed.
\<close>

theorem UDPAssociate_error_closes:
  assumes "UDPAssociate net listen lookup s = (Inl e, oc, ou)"
  shows "(\<forall>c. oc = Some c \<longrightarrow> is_closed c) \<and> (\<forall>u. ou = Some u \<longrightarrow> sock_closed u) \<and>
    (oc = None \<longleftrightarrow> e = DialFailed \<and> DialContext net s = None)"
  using assms
  by (auto simp: UDPAssociate_def Let_def Close_def split: option.splits prod.splits sum.splits
      dest!: and_then_Inl close_on_error_Inl)

lemma UDPAssociate_error_closes_witness:
  "\<exists>e c' u'. UDPAssociate (\<lambda>_. Some (demo_conn\<lparr>inp := [5, 0]\<rparr>)) (Some 40000) (\<lambda>_. None) demo_client =
     (Inl e, Some c', Some u') \<and> is_closed c' \<and> sock_closed u'"
proof -
  have "\<exists>e c' u'. UDPAssociate (\<lambda>_. Some (demo_conn\<lparr>inp := [5, 0]\<rparr>)) (Some 40000) (\<lambda>_. None) demo_client =
     (Inl e, Some c', Some u')"
    by (simp add: UDPAssociate_def DialContext_demo and_then_def close_on_error_def handshake_def ReadFull_def
        readSocksAddress_def fail_def ret_def demo_conn_def Let_def)
  then obtain e c' u' where r: "UDPAssociate (\<lambda>_. Some (demo_conn\<lparr>inp := [5, 0]\<rparr>)) (Some 40000) (\<lambda>_. None) demo_client =
     (Inl e, Some c', Some u')" by blast
  with UDPAssociate_error_closes [OF r] show ?thesis by blast
qed

text \<open>
  A proxy that answers with an IPv6 relay address cannot be used for UDP, and neither can
  a proxy given as an IPv6 literal be dialed: the texts "host:port" carry no brackets, so the
  address is never split. The association is given up with both sockets closed.
\<close>

theorem ipv6_relay_unusable:
  assumes "length a = 16" and "To4 a = None"
    and "DialContext net s = Some c" and "writes_ok c = []" and "deadlines_ok c = []"
    and "accepted s sel outs" and "inp c = sel @ ([5, 0, rsv, 4] @ a @ [h, l]) @ rest"
  shows "\<exists>c'. UDPAssociate net (Some bp) lookup s =
      (Inl (ResolveFailed (host_port (ip_string a) (uint (be16 h l)))), Some c', Some \<lparr>local_port = bp, sock_closed = True\<rparr>) \<and>
    is_closed c' \<and>
    DialContext net (s\<lparr>host := ip_string a\<rparr>) = None"
proof -
  have "ResolveUDPAddr lookup (host_port (ip_string a) (uint (be16 h l))) = None"
    using SplitHostPort_v6 [OF assms(1,2)] by (simp add: ResolveUDPAddr_def)
  moreover have "DialContext net (s\<lparr>host := ip_string a\<rparr>) = None"
    using SplitHostPort_v6 [OF assms(1,2)] by (simp add: DialContext_def)
  ultimately show ?thesis
    using UDPAssociate_completes [OF assms(3-6) socks_reply.ipv6 [OF assms(1)] assms(7)]
    by (simp add: Let_def Close_def)
qed

lemma ipv6_relay_unusable_witness:
  "\<exists>e oc ou. UDPAssociate (\<lambda>_. Some (demo_conn\<lparr>inp := [5, 0] @ ([5, 0, 0, 4] @ replicate 15 0 @ [1] @ [0, 80])\<rparr>))
     (Some 40000) (\<lambda>_. None) demo_client = (Inl e, oc, ou)"
proof -
  have "length (replicate 15 0 @ [1 :: byte]) = 16" "To4 (replicate 15 0 @ [1]) = None"
    by (simp_all add: To4_def) code_simp
  from ipv6_relay_unusable [OF this DialContext_demo _ _ accepted.no_auth, of "demo_conn\<lparr>inp := [5, 0] @ ([5, 0, 0, 4] @ replicate 15 0 @ [1] @ [0, 80])\<rparr>" 0 0 80 "[]" 40000 "\<lambda>_. None"]
  show ?thesis by (fastforce simp: demo_conn_def)
qed

end
