(* ===== verification/Forwarders.thy ===== *)
theory Forwarders
  imports Engine_State Socks5_Associate
begin

text \<open>
  The flow handlers of \<open>go/engine.go\<close>: the UDP forwarder callback with its slot reservation,
  \<open>handleUDPForwarder\<close> and \<open>handleTCPForwarder\<close>, for any number of flows at once. A flow is a
  goroutine, numbered by \<open>nat\<close>; the netstack connection of flow \<open>t\<close> and its \<open>trackedConn\<close> are
  numbered \<open>t\<close> as well. Every step is one call or one atomic operation of the code, so that
  flows interleave between any two of them; \<open>Validate\<close>, \<open>DialTCP\<close> and \<open>UDPAssociate\<close> are one
  step each here (\<open>Engine_Hook\<close> interleaves inside \<open>Validate\<close>, \<open>Socks5_Client\<close> follows every
  read and write of a dial). The network, the resolver and the callback may change from
  step to step. The data pipes are the steps \<open>pipe_end\<close>; \<open>Pipe_TCP\<close> and \<open>Pipe_UDP\<close> open them.
\<close>

definition maxUDPConns :: int where "maxUDPConns = 512"

subsection \<open>Flows\<close>

text \<open>
  How a handler ended: refused at the cap, without an endpoint, with its connection closed, by
  a recovered panic. UDP flows end in \<open>FDone\<close>, TCP flows in \<open>TDone\<close>.
\<close>

datatype fend = Refused | NoEndpoint | Closed | Panicked

datatype fpc =
    FNew
  | UOver
  | UReserved flow
  | UEndpoint flow
  | UAllowed flow
  | UAssociated flow
  | UNumbered flow u64
  | UPiping flow u64
  | UClosed flow u64
  | UExit fend
  | TStart flow
  | TEndpoint flow
  | TAllowed flow
  | TDialed flow
  | TNumbered flow u64
  | TTracked flow u64
  | TPiping flow u64
  | TClosed flow u64
  | TUntracked flow
  | FDone fend
  | TDone fend

text \<open>
  \<open>completed\<close> logs the calls \<open>req.Complete(rst)\<close>, \<open>consents\<close> the arguments the callback said
  yes to, \<open>wire\<close> what was written to the proxy for a flow, \<open>seqs\<close> counts the additions to
  \<open>connsSeq\<close>.
\<close>

record fsys =
  eng :: Engine
  fpcs :: "nat \<Rightarrow> fpc"
  completed :: "(nat \<times> bool) list"
  consents :: "validator_args list"
  wire :: "nat \<Rightarrow> bytes list"
  seqs :: nat

definition goto :: "nat \<Rightarrow> fpc \<Rightarrow> fsys \<Rightarrow> fsys" where
  "goto t p s = s\<lparr>fpcs := (fpcs s)(t := p)\<rparr>"

definition on_engine :: "(Engine \<Rightarrow> Engine) \<Rightarrow> fsys \<Rightarrow> fsys" where
  "on_engine f s = s\<lparr>eng := f (eng s)\<rparr>"

definition add_udp :: "int \<Rightarrow> Engine \<Rightarrow> Engine" where
  "add_udp d e = e\<lparr>activeUDPConns := activeUDPConns e + d\<rparr>"

definition add_tcp :: "int \<Rightarrow> Engine \<Rightarrow> Engine" where
  "add_tcp d e = e\<lparr>activeConns := activeConns e + d\<rparr>"

definition dial_failed :: "Engine \<Rightarrow> Engine" where
  "dial_failed e = e\<lparr>socksDialFails := socksDialFails e + 1\<rparr>"

definition complete :: "nat \<Rightarrow> bool \<Rightarrow> fsys \<Rightarrow> fsys" where
  "complete t rst s = s\<lparr>completed := (t, rst) # completed s\<rparr>"

text \<open>The call \<open>hook.Validate\<close> of a handler: the decision and the system afterwards.\<close>

definition validate_flow :: "time \<Rightarrow> time \<Rightarrow> flow \<Rightarrow> fsys \<Rightarrow> bool \<times> fsys" where
  "validate_flow n1 n2 f s =
     (case Validate n1 n2 f (hook (eng s)) of
        ((allowed, _), asked, h) \<Rightarrow>
          (allowed, s\<lparr>eng := (eng s)\<lparr>hook := h\<rparr>,
                      consents := (case asked of Some a \<Rightarrow> if allowed then a # consents s else consents s
                                   | None \<Rightarrow> consents s)\<rparr>))"

text \<open>\<open>e.connsSeq.Add(1)\<close>\<close>

definition next_id :: "fsys \<Rightarrow> u64" where "next_id s = connsSeq (eng s) + 1"

definition take_id :: "fsys \<Rightarrow> fsys" where
  "take_id s = s\<lparr>eng := (eng s)\<lparr>connsSeq := next_id s\<rparr>, seqs := Suc (seqs s)\<rparr>"

text \<open>The tracked connection a TCP flow starts with.\<close>

definition new_tc :: "nat \<Rightarrow> flow \<Rightarrow> int \<Rightarrow> trackedConn" where
  "new_tc t f nowMs =
     \<lparr>app = t, proxy = t, dst = host_port (ip_string (f_dst f)) (uint (f_dport f)),
      createdMs = nowMs, lastTxMs = nowMs, lastRxMs = nowMs\<rparr>"

text \<open>Connections the network gives are new.\<close>

definition fresh_net :: "network \<Rightarrow> bool" where
  "fresh_net net \<longleftrightarrow> (\<forall>hp c. net hp = Some c \<longrightarrow> out c = [] \<and> \<not> is_closed c)"

definition wf_flow :: "flow \<Rightarrow> bool" where
  "wf_flow f \<longleftrightarrow> wf_ip (f_src f) \<and> wf_ip (f_dst f)"

text \<open>
  The netstack names a flow by its own view of it: the remote end is the app, the local end
  the destination on the internet.
\<close>

record TransportEndpointID =
  LocalPort :: u16
  LocalAddress :: ip
  RemotePort :: u16
  RemoteAddress :: ip

definition id_flow :: "TransportEndpointID \<Rightarrow> byte \<Rightarrow> flow" where
  "id_flow i proto =
     \<lparr>f_src = RemoteAddress i, f_sport = RemotePort i, f_dst = LocalAddress i, f_dport = LocalPort i, f_proto = proto\<rparr>"

text \<open>The forwarder callback's test \<open>e.activeUDPConns.Add(1) > maxUDPConns\<close>, before the addition.\<close>

definition cap_reached :: "Engine \<Rightarrow> bool" where
  "cap_reached e \<longleftrightarrow> activeUDPConns e + 1 > maxUDPConns"

text \<open>The SOCKS5 client the handlers of an engine create.\<close>

definition NewSOCKS5Client :: "string \<Rightarrow> int \<Rightarrow> string \<Rightarrow> string \<Rightarrow> SOCKS5Client" where
  "NewSOCKS5Client h p user pass = \<lparr>host = h, port = p, username = user, password = pass\<rparr>"

definition client_of :: "engine_config \<Rightarrow> SOCKS5Client" where
  "client_of cfg = NewSOCKS5Client (cfg_host cfg) (cfg_port cfg) (cfg_user cfg) (cfg_pass cfg)"

subsection \<open>Steps\<close>

inductive fstep :: "SOCKS5Client \<Rightarrow> fsys \<Rightarrow> fsys \<Rightarrow> bool" for cl where
  \<comment> \<open>the UDP forwarder callback\<close>
  udp_over: "fpcs s t = FNew \<Longrightarrow> cap_reached (eng s) \<Longrightarrow>
     fstep cl s (goto t UOver (on_engine (add_udp 1) s))"
| udp_refuse: "fpcs s t = UOver \<Longrightarrow> fstep cl s (goto t (FDone Refused) (on_engine (add_udp (-1)) s))"
| udp_reserve: "fpcs s t = FNew \<Longrightarrow> \<not> cap_reached (eng s) \<Longrightarrow> wf_flow f \<Longrightarrow>
     f = id_flow i ProtocolUDP \<Longrightarrow> fstep cl s (goto t (UReserved f) (on_engine (add_udp 1) s))"
  \<comment> \<open>\<open>handleUDPForwarder\<close>\<close>
| udp_no_endpoint: "fpcs s t = UReserved f \<Longrightarrow> fstep cl s (goto t (UExit NoEndpoint) s)"
| udp_endpoint: "fpcs s t = UReserved f \<Longrightarrow> fstep cl s (goto t (UEndpoint f) s)"
| udp_allowed: "fpcs s t = UEndpoint f \<Longrightarrow> validate_flow n1 n2 f s = (True, s') \<Longrightarrow>
     fstep cl s (goto t (UAllowed f) s')"
| udp_denied: "fpcs s t = UEndpoint f \<Longrightarrow> validate_flow n1 n2 f s = (False, s') \<Longrightarrow>
     fstep cl s (goto t (UExit Closed) (on_engine (close_conn t) s'))"
| udp_associated: "fpcs s t = UAllowed f \<Longrightarrow> fresh_net net \<Longrightarrow>
     UDPAssociate net listen lookup cl = (Inr relay, Some c, ou) \<Longrightarrow>
     fstep cl s (goto t (UAssociated f) (s\<lparr>wire := (wire s)(t := out c)\<rparr>))"
| udp_assoc_failed: "fpcs s t = UAllowed f \<Longrightarrow> UDPAssociate net listen lookup cl = (Inl err, oc, ou) \<Longrightarrow>
     fstep cl s (goto t (UExit Closed) (on_engine (close_conn t \<circ> dial_failed) s))"
| udp_number: "fpcs s t = UAssociated f \<Longrightarrow> fstep cl s (goto t (UNumbered f (next_id s)) (take_id s))"
| udp_track: "fpcs s t = UNumbered f n \<Longrightarrow> fstep cl s (goto t (UPiping f n) (on_engine (trackUDPConn n t) s))"
| udp_pipe_end: "fpcs s t = UPiping f n \<Longrightarrow> fstep cl s (goto t (UClosed f n) (on_engine (close_conn t) s))"
| udp_untrack: "fpcs s t = UClosed f n \<Longrightarrow>
     fstep cl s (goto t (UExit Closed) (on_engine (untrackUDPConn n) s))"
| udp_panic: "fpcs s t \<in> {UReserved f, UEndpoint f, UAllowed f, UAssociated f} \<Longrightarrow>
     fstep cl s (goto t (UExit Panicked) s)"
| udp_release: "fpcs s t = UExit r \<Longrightarrow> fstep cl s (goto t (FDone r) (on_engine (add_udp (-1)) s))"
  \<comment> \<open>\<open>handleTCPForwarder\<close>\<close>
| tcp_start: "fpcs s t = FNew \<Longrightarrow> wf_flow f \<Longrightarrow> f = id_flow i ProtocolTCP \<Longrightarrow> fstep cl s (goto t (TStart f) s)"
| tcp_no_endpoint: "fpcs s t = TStart f \<Longrightarrow> fstep cl s (goto t (TDone NoEndpoint) (complete t True s))"
| tcp_endpoint: "fpcs s t = TStart f \<Longrightarrow> fstep cl s (goto t (TEndpoint f) (complete t False s))"
| tcp_allowed: "fpcs s t = TEndpoint f \<Longrightarrow> validate_flow n1 n2 f s = (True, s') \<Longrightarrow>
     fstep cl s (goto t (TAllowed f) s')"
| tcp_denied: "fpcs s t = TEndpoint f \<Longrightarrow> validate_flow n1 n2 f s = (False, s') \<Longrightarrow>
     fstep cl s (goto t (TDone Closed) (on_engine (close_conn t) s'))"
| tcp_dialed: "fpcs s t = TAllowed f \<Longrightarrow> fresh_net net \<Longrightarrow>
     DialTCP net cl (ip_string (f_dst f)) (uint (f_dport f)) = (Inr (), Some c) \<Longrightarrow>
     fstep cl s (goto t (TDialed f) (s\<lparr>wire := (wire s)(t := out c)\<rparr>))"
| tcp_dial_failed: "fpcs s t = TAllowed f \<Longrightarrow>
     DialTCP net cl (ip_string (f_dst f)) (uint (f_dport f)) = (Inl err, oc) \<Longrightarrow>
     fstep cl s (goto t (TDone Closed) (on_engine (close_conn t \<circ> dial_failed) s))"
| tcp_number: "fpcs s t = TDialed f \<Longrightarrow>
     fstep cl s (goto t (TNumbered f (next_id s))
       (on_engine (\<lambda>e. e\<lparr>tcs := (tcs e)(t := new_tc t f nowMs)\<rparr>) (take_id s)))"
| tcp_track: "fpcs s t = TNumbered f n \<Longrightarrow> fstep cl s (goto t (TTracked f n) (on_engine (trackConn n t) s))"
| tcp_count: "fpcs s t = TTracked f n \<Longrightarrow> fstep cl s (goto t (TPiping f n) (on_engine (add_tcp 1) s))"
| tcp_pipe_end: "fpcs s t = TPiping f n \<Longrightarrow> fstep cl s (goto t (TClosed f n) (on_engine (close_conn t) s))"
| tcp_untrack: "fpcs s t = TClosed f n \<Longrightarrow> fstep cl s (goto t (TUntracked f) (on_engine (untrackConn n) s))"
| tcp_uncount: "fpcs s t = TUntracked f \<Longrightarrow> fstep cl s (goto t (TDone Closed) (on_engine (add_tcp (-1)) s))"
| tcp_panic: "fpcs s t \<in> {TEndpoint f, TAllowed f} \<Longrightarrow> fstep cl s (goto t (TDone Panicked) s)"
  \<comment> \<open>the other goroutines of the engine\<close>
| set_validator: "fstep cl s (on_engine (\<lambda>e. e\<lparr>hook := SetValidator v (hook e)\<rparr>) s)"
| close_all: "fstep cl s (on_engine (\<lambda>e. snd (CloseAllConnections o1 o2 e)) s)"
| stop: "Stop (eng s) = Some e' \<Longrightarrow> fstep cl s (on_engine (\<lambda>_. e') s)"

definition finit :: "Engine \<Rightarrow> fsys" where
  "finit e = \<lparr>eng = e, fpcs = (\<lambda>_. FNew), completed = [], consents = [], wire = (\<lambda>_. []), seqs = 0\<rparr>"

text \<open>Reachable from a new engine with a new hook, whose settings make the client.\<close>

inductive freach :: "SOCKS5Client \<Rightarrow> fsys \<Rightarrow> bool" for cl where
  init: "cl = client_of cfg \<Longrightarrow>
     freach cl (finit ((new_engine m a q (NewEngineHook cap ttls))\<lparr>config := cfg\<rparr>))"
| step: "freach cl s \<Longrightarrow> fstep cl s s' \<Longrightarrow> freach cl s'"

subsection \<open>Counting\<close>

text \<open>Flows that hold a UDP slot or have one added, flows let past the cap, counted TCP flows.\<close>

fun holds_slot :: "fpc \<Rightarrow> bool" where
  "holds_slot UOver = True" | "holds_slot (UReserved f) = True" | "holds_slot (UEndpoint f) = True"
| "holds_slot (UAllowed f) = True" | "holds_slot (UAssociated f) = True" | "holds_slot (UNumbered f n) = True"
| "holds_slot (UPiping f n) = True" | "holds_slot (UClosed f n) = True" | "holds_slot (UExit r) = True"
| "holds_slot _ = False"

definition admitted :: "fpc \<Rightarrow> bool" where
  "admitted p \<longleftrightarrow> holds_slot p \<and> p \<noteq> UOver"

fun counted :: "fpc \<Rightarrow> bool" where
  "counted (TPiping f n) = True" | "counted (TClosed f n) = True" | "counted (TUntracked f) = True"
| "counted _ = False"

text \<open>The number of flows in a state with \<open>P\<close>, and what one move does to it.\<close>

definition flows :: "(fpc \<Rightarrow> bool) \<Rightarrow> (nat \<Rightarrow> fpc) \<Rightarrow> nat set" where
  "flows P fs = {t. P (fs t)}"

lemma flows_upd: "flows P (fs(t := p)) = (if P p then insert t (flows P fs) else flows P fs - {t})"
  by (auto simp: flows_def)

lemma flows_move:
  assumes "finite (flows P fs)"
  shows "finite (flows P (fs(t := p)))"
    and "int (card (flows P (fs(t := p)))) =
      int (card (flows P fs)) + (if P p then 1 else 0) - (if P (fs t) then 1 else 0)"
proof -
  have m: "t \<in> flows P fs \<longleftrightarrow> P (fs t)" by (simp add: flows_def)
  have "card (flows P fs) > 0" if "P (fs t)"
    using that m assms by (auto simp: card_gt_0_iff)
  then show "int (card (flows P (fs(t := p)))) =
      int (card (flows P fs)) + (if P p then 1 else 0) - (if P (fs t) then 1 else 0)"
    using assms m by (auto simp: flows_upd card_insert_if card_Diff_singleton of_nat_diff Suc_leI insert_absorb)
  show "finite (flows P (fs(t := p)))" using assms by (simp add: flows_upd)
qed

definition counts_ok :: "fsys \<Rightarrow> bool" where
  "counts_ok s \<longleftrightarrow> finite (flows holds_slot (fpcs s)) \<and> finite (flows admitted (fpcs s)) \<and>
     finite (flows counted (fpcs s)) \<and>
     activeUDPConns (eng s) = int (card (flows holds_slot (fpcs s))) \<and>
     int (card (flows admitted (fpcs s))) \<le> maxUDPConns \<and>
     activeConns (eng s) = int (card (flows counted (fpcs s)))"

lemma admitted_le_holds:
  "finite (flows holds_slot fs) \<Longrightarrow> card (flows admitted fs) \<le> card (flows holds_slot fs)"
  by (rule card_mono) (auto simp: flows_def admitted_def)

lemmas fstep_defs = cap_reached_def goto_def on_engine_def add_udp_def add_tcp_def dial_failed_def complete_def take_id_def
  next_id_def close_conn_def trackConn_def untrackConn_def trackUDPConn_def untrackUDPConn_def

lemma validate_flow_frame:
  assumes "validate_flow n1 n2 f s = (a, s')"
  shows "fpcs s' = fpcs s" "completed s' = completed s" "wire s' = wire s" "seqs s' = seqs s"
    "\<exists>h. eng s' = (eng s)\<lparr>hook := h\<rparr>"
  using assms by (auto simp: validate_flow_def split: prod.splits)

lemma Stop_frame:
  assumes "Stop e = Some e'"
  shows "activeUDPConns e' = activeUDPConns e" "activeConns e' = activeConns e" "conns e' = conns e"
    "udpConns e' = udpConns e" "connsSeq e' = connsSeq e" "hook e' = hook e" "closed_conns e' = closed_conns e"
    "tcs e' = tcs e"
  using assms by (auto simp: Stop_def Let_def split: if_splits)

lemma CloseAll_frame: "\<exists>cs. snd (CloseAllConnections o1 o2 e) = e\<lparr>closed_conns := closed_conns e @ cs\<rparr>"
  by (auto simp: CloseAllConnections_def Let_def fold_close_conn)

lemma counts_move:
  assumes ok: "counts_ok s" and fs: "fpcs s' = (fpcs s)(t := p)"
    and udp: "activeUDPConns (eng s') =
      activeUDPConns (eng s) + (if holds_slot p then 1 else 0) - (if holds_slot (fpcs s t) then 1 else 0)"
    and tcp: "activeConns (eng s') =
      activeConns (eng s) + (if counted p then 1 else 0) - (if counted (fpcs s t) then 1 else 0)"
    and adm: "admitted p \<Longrightarrow> admitted (fpcs s t) \<or> activeUDPConns (eng s) + 1 \<le> maxUDPConns"
  shows "counts_ok s'"
proof -
  have fin: "finite (flows holds_slot (fpcs s))" "finite (flows admitted (fpcs s))" "finite (flows counted (fpcs s))"
    using ok by (simp_all add: counts_ok_def)
  note m = flows_move(2) [OF fin(1), of t p] flows_move(2) [OF fin(2), of t p] flows_move(2) [OF fin(3), of t p]
  have "int (card (flows admitted (fpcs s))) \<le> activeUDPConns (eng s)"
    using admitted_le_holds [OF fin(1)] ok by (simp add: counts_ok_def)
  then have "int (card (flows admitted ((fpcs s)(t := p)))) \<le> maxUDPConns"
    using m(2) adm ok by (auto simp: counts_ok_def split: if_splits)
  then show ?thesis
    using ok m flows_move(1) [OF fin(1), of t p] flows_move(1) [OF fin(2), of t p] flows_move(1) [OF fin(3), of t p]
    by (simp add: counts_ok_def fs udp tcp)
qed

lemma counts_same:
  "counts_ok s \<Longrightarrow> fpcs s' = fpcs s \<Longrightarrow> activeUDPConns (eng s') = activeUDPConns (eng s) \<Longrightarrow>
   activeConns (eng s') = activeConns (eng s) \<Longrightarrow> counts_ok s'"
  by (simp add: counts_ok_def)

lemma counts_step:
  assumes "fstep cl s s'" and "counts_ok s"
  shows "counts_ok s'"
  using assms(1)
proof cases
  case (udp_allowed t f n1 n2 s1)
  from validate_flow_frame [OF udp_allowed(3)] show ?thesis
    by (intro counts_move [OF assms(2), of _ t "UAllowed f"])
      (use udp_allowed in \<open>auto simp: fstep_defs admitted_def\<close>)
next
  case (udp_denied t f n1 n2 s1)
  from validate_flow_frame [OF udp_denied(3)] show ?thesis
    by (intro counts_move [OF assms(2), of _ t "UExit Closed"])
      (use udp_denied in \<open>auto simp: fstep_defs admitted_def\<close>)
next
  case (tcp_allowed t f n1 n2 s1)
  from validate_flow_frame [OF tcp_allowed(3)] show ?thesis
    by (intro counts_move [OF assms(2), of _ t "TAllowed f"])
      (use tcp_allowed in \<open>auto simp: fstep_defs admitted_def\<close>)
next
  case (tcp_denied t f n1 n2 s1)
  from validate_flow_frame [OF tcp_denied(3)] show ?thesis
    by (intro counts_move [OF assms(2), of _ t "TDone Closed"])
      (use tcp_denied in \<open>auto simp: fstep_defs admitted_def\<close>)
next
  case (stop e')
  from Stop_frame [OF stop(2)] show ?thesis
    by (intro counts_same [OF assms(2)]) (auto simp: stop(1) fstep_defs)
next
  case (close_all o1 o2)
  from CloseAll_frame [of o1 o2 "eng s"] show ?thesis
    by (intro counts_same [OF assms(2)]) (auto simp: close_all fstep_defs)
next
  case (set_validator v)
  show ?thesis by (intro counts_same [OF assms(2)]) (auto simp: set_validator fstep_defs)
qed (rule counts_move [OF assms(2)], (auto simp: fstep_defs admitted_def) [], (auto simp: fstep_defs admitted_def))+

lemma counts_reach: "freach cl s \<Longrightarrow> counts_ok s"
proof (induction rule: freach.induct)
  case (init cfg m a q cap ttls)
  show ?case by (simp add: counts_ok_def finit_def new_engine_def flows_def admitted_def maxUDPConns_def)
qed (rule counts_step)

subsection \<open>Consent\<close>

text \<open>The flow a handler works for; the flow it has validated; the flow it has dialed for.\<close>

fun flow_of :: "fpc \<Rightarrow> flow option" where
  "flow_of (UReserved f) = Some f" | "flow_of (UEndpoint f) = Some f" | "flow_of (UAllowed f) = Some f"
| "flow_of (UAssociated f) = Some f" | "flow_of (UNumbered f n) = Some f" | "flow_of (UPiping f n) = Some f"
| "flow_of (UClosed f n) = Some f" | "flow_of (TStart f) = Some f" | "flow_of (TEndpoint f) = Some f"
| "flow_of (TAllowed f) = Some f" | "flow_of (TDialed f) = Some f" | "flow_of (TNumbered f n) = Some f"
| "flow_of (TTracked f n) = Some f" | "flow_of (TPiping f n) = Some f" | "flow_of (TClosed f n) = Some f"
| "flow_of (TUntracked f) = Some f" | "flow_of _ = None"

fun past_validation :: "fpc \<Rightarrow> bool" where
  "past_validation (UReserved f) = False" | "past_validation (UEndpoint f) = False"
| "past_validation (TStart f) = False" | "past_validation (TEndpoint f) = False"
| "past_validation p = (flow_of p \<noteq> None)"

fun tcp_connected :: "fpc \<Rightarrow> bool" where
  "tcp_connected (TDialed f) = True" | "tcp_connected (TNumbered f n) = True" | "tcp_connected (TTracked f n) = True"
| "tcp_connected (TPiping f n) = True" | "tcp_connected (TClosed f n) = True" | "tcp_connected (TUntracked f) = True"
| "tcp_connected _ = False"

definition consented :: "validator_args list \<Rightarrow> (ConnectionKey \<times> ValidationResult) set" where
  "consented cs = {(k, r). Allowed r \<longrightarrow> key_args k \<in> set cs}"

definition hook_ok :: "EngineHook \<Rightarrow> validator_args list \<Rightarrow> bool" where
  "hook_ok h cs \<longleftrightarrow> lru_ok (hcache h) \<and> set (entries (hcache h)) \<subseteq> consented cs"

definition requests :: "flow \<Rightarrow> bytes list \<Rightarrow> bool" where
  "requests f w \<longleftrightarrow> (\<exists>outs. w = outs @ [connect_request (f_dst f) (uint (f_dport f))])"

definition pc_consent :: "fsys \<Rightarrow> nat \<Rightarrow> bool" where
  "pc_consent s t \<longleftrightarrow> (\<forall>f. flow_of (fpcs s t) = Some f \<longrightarrow>
     wf_flow f \<and>
     (past_validation (fpcs s t) \<longrightarrow> flow_args f \<in> set (consents s)) \<and>
     (tcp_connected (fpcs s t) \<longrightarrow> requests f (wire s t)))"

definition consent_ok :: "fsys \<Rightarrow> bool" where
  "consent_ok s \<longleftrightarrow> hook_ok (hook (eng s)) (consents s) \<and> (\<forall>t. pc_consent s t)"

lemma validate_flow_sound:
  assumes "validate_flow n1 n2 f s = (a, s')" and ok: "hook_ok (hook (eng s)) (consents s)"
  shows "hook_ok (hook (eng s')) (consents s') \<and> set (consents s) \<subseteq> set (consents s') \<and>
     (a \<longrightarrow> flow_args f \<in> set (consents s'))"
proof -
  let ?h = "hook (eng s)" and ?k = "flow_key f"
  have lru: "lru_ok (hcache ?h)" and sub: "set (entries (hcache ?h)) \<subseteq> consented (consents s)"
    using ok by (simp_all add: hook_ok_def)
  obtain res c where g: "Get n1 ?k (hcache ?h) = (res, c)" by fastforce
  note c = lru.get_invar [OF lru g] lru.keep_get [OF lru g sub]
  show ?thesis
  proof (cases res)
    case (Some r)
    from lru.hit_justified [OF lru sub g [unfolded Some]]
    have "Allowed r \<longrightarrow> flow_args f \<in> set (consents s)" by (simp add: consented_def)
    with assms(1) g Some c show ?thesis
      by (auto simp: validate_flow_def Validate_def Let_def hook_ok_def)
  next
    case None
    show ?thesis
    proof (cases "validator ?h")
      case None
      with assms(1) g \<open>res = None\<close> c show ?thesis
        by (auto simp: validate_flow_def Validate_def Let_def hook_ok_def)
    next
      case (Some v)
      let ?a = "v (flow_args f)" and ?r = "\<lparr>Allowed = v (flow_args f), UID = -1, Expired = 0\<rparr>"
      let ?cs = "if ?a then flow_args f # consents s else consents s"
      have s': "a = ?a" "consents s' = ?cs" "hook (eng s') = ?h\<lparr>hcache := Add n2 ?k ?r c\<rparr>"
        using assms(1) g \<open>res = None\<close> Some by (auto simp: validate_flow_def Validate_def Let_def)
      have "set (entries c) \<subseteq> consented ?cs" using c(2) by (auto simp: consented_def)
      from lru.keep_add [OF c(1) this, of ?k n2 ?r]
      have "set (entries (Add n2 ?k ?r c)) \<subseteq> consented ?cs" by (auto simp: consented_def)
      with s' c lru.add_invar [OF c(1)] show ?thesis by (auto simp: hook_ok_def)
    qed
  qed
qed

lemma consent_move:
  assumes "consent_ok s" and "fpcs s' = (fpcs s)(t := p)" and "hook_ok (hook (eng s')) (consents s')"
    and "set (consents s) \<subseteq> set (consents s')" and "\<And>u. u \<noteq> t \<Longrightarrow> wire s' u = wire s u"
    and "pc_consent s' t"
  shows "consent_ok s'"
  using assms by (auto simp: consent_ok_def pc_consent_def)

lemma consent_validate:
  assumes "consent_ok s" and "validate_flow n1 n2 f s = (a, s1)" and "flow_of (fpcs s t) = Some f"
    and "fpcs s' = (fpcs s1)(t := p)" and "consents s' = consents s1" and "hook (eng s') = hook (eng s1)"
    and "wire s' = wire s1" and "flow_of p = (if a then Some f else None)" and "\<not> tcp_connected p"
  shows "consent_ok s'"
proof -
  have "hook_ok (hook (eng s)) (consents s)" "wf_flow f"
    using assms(1,3) by (auto simp: consent_ok_def pc_consent_def)
  with validate_flow_sound [OF assms(2)] validate_flow_frame [OF assms(2)] assms
  show ?thesis
    by (intro consent_move [OF assms(1), of _ t p]) (auto simp: pc_consent_def)
qed

lemma tcp_requests:
  assumes "fresh_net net" and "wf_flow f"
    and "DialTCP net cl (ip_string (f_dst f)) (uint (f_dport f)) = (Inr (), Some c)"
  shows "requests f (out c)"
proof -
  from DialTCP_InrD [OF assms(3)] obtain d where d: "DialContext net cl = Some d" by metis
  then have "out d = []" "\<not> is_closed d"
    using assms(1) by (auto simp: DialContext_def fresh_net_def split: option.splits)
  with DialTCP_sound [OF _ assms(3) d] assms(2) show ?thesis
    by (auto simp: requests_def wf_flow_def)
qed

lemma consent_keep:
  assumes "consent_ok s" and "fpcs s' = (fpcs s)(t := p)" and "hook (eng s') = hook (eng s)"
    and "consents s' = consents s" and "wire s' = wire s"
    and "flow_of p = None \<or> flow_of p = flow_of (fpcs s t) \<and> (past_validation p \<longrightarrow> past_validation (fpcs s t)) \<and>
      (tcp_connected p \<longrightarrow> tcp_connected (fpcs s t))"
  shows "consent_ok s'"
  using assms by (intro consent_move [OF assms(1,2)]) (auto simp: consent_ok_def pc_consent_def)

lemma consent_step:
  assumes "fstep cl s s'" and "consent_ok s"
  shows "consent_ok s'"
  using assms(1)
proof cases
  case (udp_allowed t f n1 n2 s1)
  show ?thesis
    by (rule consent_validate [OF assms(2) udp_allowed(3), of t _ "UAllowed f"]) (auto simp: udp_allowed fstep_defs)
next
  case (udp_denied t f n1 n2 s1)
  show ?thesis
    by (rule consent_validate [OF assms(2) udp_denied(3), of t _ "UExit Closed"]) (auto simp: udp_denied fstep_defs)
next
  case (tcp_allowed t f n1 n2 s1)
  show ?thesis
    by (rule consent_validate [OF assms(2) tcp_allowed(3), of t _ "TAllowed f"]) (auto simp: tcp_allowed fstep_defs)
next
  case (tcp_denied t f n1 n2 s1)
  show ?thesis
    by (rule consent_validate [OF assms(2) tcp_denied(3), of t _ "TDone Closed"]) (auto simp: tcp_denied fstep_defs)
next
  case (tcp_start t f i)
  from tcp_start(3) show ?thesis
    by (intro consent_move [OF assms(2), of _ t "TStart f"])
      (use assms(2) in \<open>auto simp: tcp_start(1,2) fstep_defs consent_ok_def pc_consent_def\<close>)
next
  case (udp_reserve t f i)
  from udp_reserve(4) show ?thesis
    by (intro consent_move [OF assms(2), of _ t "UReserved f"])
      (use assms(2) in \<open>auto simp: udp_reserve(1-3) fstep_defs consent_ok_def pc_consent_def\<close>)
next
  case (udp_associated t f net listen lookup relay c ou)
  have "wf_flow f" "flow_args f \<in> set (consents s)"
    using assms(2) udp_associated(2) by (auto simp: consent_ok_def pc_consent_def dest: spec [of _ t])
  then show ?thesis
    by (intro consent_move [OF assms(2), of _ t "UAssociated f"])
      (use assms(2) in \<open>auto simp: udp_associated fstep_defs consent_ok_def pc_consent_def\<close>)
next
  case (tcp_dialed t f net c)
  have "wf_flow f" "flow_args f \<in> set (consents s)"
    using assms(2) tcp_dialed(2) by (auto simp: consent_ok_def pc_consent_def dest: spec [of _ t])
  with tcp_requests [OF tcp_dialed(3) _ tcp_dialed(4)] show ?thesis
    by (intro consent_move [OF assms(2), of _ t "TDialed f"])
      (use assms(2) in \<open>auto simp: tcp_dialed fstep_defs consent_ok_def pc_consent_def\<close>)
next
  case (stop e')
  from Stop_frame [OF stop(2)] assms(2) show ?thesis
    by (auto simp: stop(1) fstep_defs consent_ok_def pc_consent_def)
next
  case (close_all o1 o2)
  from CloseAll_frame [of o1 o2 "eng s"] assms(2) show ?thesis
    by (auto simp: close_all fstep_defs consent_ok_def pc_consent_def)
next
  case (set_validator v)
  from assms(2) show ?thesis
    by (auto simp: set_validator fstep_defs consent_ok_def pc_consent_def hook_ok_def SetValidator_def)
qed (rule consent_keep [OF assms(2)], (auto simp: fstep_defs) [], (auto simp: fstep_defs))+

lemma consent_reach: "freach cl s \<Longrightarrow> consent_ok s"
proof (induction rule: freach.induct)
  case (init cfg m a q cap ttls)
  show ?case
    by (simp add: consent_ok_def pc_consent_def hook_ok_def finit_def new_engine_def NewEngineHook_def
        NewLRUCache_def lru_ok_def lru_links_def entries_def)
qed (rule consent_step)

subsection \<open>Tables\<close>

text \<open>The id a flow has drawn, and the table it is entered in.\<close>

fun drawn :: "fpc \<Rightarrow> u64 option" where
  "drawn (UNumbered f n) = Some n" | "drawn (UPiping f n) = Some n" | "drawn (UClosed f n) = Some n"
| "drawn (TNumbered f n) = Some n" | "drawn (TTracked f n) = Some n" | "drawn (TPiping f n) = Some n"
| "drawn (TClosed f n) = Some n" | "drawn _ = None"

fun in_udp_table :: "fpc \<Rightarrow> u64 option" where
  "in_udp_table (UPiping f n) = Some n" | "in_udp_table (UClosed f n) = Some n" | "in_udp_table _ = None"

fun in_tcp_table :: "fpc \<Rightarrow> u64 option" where
  "in_tcp_table (TTracked f n) = Some n" | "in_tcp_table (TPiping f n) = Some n"
| "in_tcp_table (TClosed f n) = Some n" | "in_tcp_table _ = None"

lemma in_table_drawn: "in_udp_table p = Some n \<Longrightarrow> drawn p = Some n" "in_tcp_table p = Some n \<Longrightarrow> drawn p = Some n"
  by (cases p; simp)+

text \<open>Ids are drawn one after the other, so they differ until the 64-bit counter wraps.\<close>

definition ids_ok :: "fsys \<Rightarrow> bool" where
  "ids_ok s \<longleftrightarrow> connsSeq (eng s) = word_of_nat (seqs s) \<and>
     (\<forall>t n. drawn (fpcs s t) = Some n \<longrightarrow> unat n \<le> seqs s) \<and>
     (\<forall>t u n. drawn (fpcs s t) = Some n \<longrightarrow> drawn (fpcs s u) = Some n \<longrightarrow> t = u)"

lemma seqs_mono: "fstep cl s s' \<Longrightarrow> seqs s \<le> seqs s'"
  by (cases rule: fstep.cases) (auto simp: fstep_defs dest: validate_flow_frame(4))

lemma take_id_fresh:
  assumes "ids_ok s" and "Suc (seqs s) < 2 ^ 64"
  shows "unat (next_id s) = Suc (seqs s)" "next_id s = word_of_nat (Suc (seqs s))"
    "drawn (fpcs s t) \<noteq> Some (next_id s)"
proof -
  show n: "next_id s = word_of_nat (Suc (seqs s))" using assms(1) by (simp add: next_id_def ids_ok_def)
  show u: "unat (next_id s) = Suc (seqs s)" unfolding n using assms(2) by (simp add: unat_of_nat take_bit_nat_eq_self_iff del: of_nat_Suc)
  show "drawn (fpcs s t) \<noteq> Some (next_id s)"
  proof
    assume "drawn (fpcs s t) = Some (next_id s)"
    then have "unat (next_id s) \<le> seqs s" using assms(1) by (auto simp: ids_ok_def)
    with u show False by simp
  qed
qed

lemma ids_keep:
  assumes "ids_ok s" and "fpcs s' = (fpcs s)(t := p)" and "connsSeq (eng s') = connsSeq (eng s)"
    and "seqs s' = seqs s" and "drawn p = None \<or> drawn p = drawn (fpcs s t)"
  shows "ids_ok s'"
proof -
  have "drawn (fpcs s' u) = Some n \<Longrightarrow> drawn (fpcs s u) = Some n" for u n
    using assms(2,5) by (auto split: if_splits)
  with assms(1,3,4) show ?thesis unfolding ids_ok_def by metis
qed

lemma ids_draw:
  assumes "ids_ok s" and "Suc (seqs s) < 2 ^ 64" and "fpcs s' = (fpcs s)(t := p)"
    and "connsSeq (eng s') = next_id s" and "seqs s' = Suc (seqs s)" and "drawn p = Some (next_id s)"
  shows "ids_ok s'"
  using assms take_id_fresh [OF assms(1,2)] unfolding ids_ok_def by (auto intro: le_SucI)

lemma ids_same:
  "ids_ok s \<Longrightarrow> fpcs s' = fpcs s \<Longrightarrow> connsSeq (eng s') = connsSeq (eng s) \<Longrightarrow> seqs s' = seqs s \<Longrightarrow> ids_ok s'"
  by (simp add: ids_ok_def)

lemma ids_step:
  assumes "fstep cl s s'" and "ids_ok s" and "seqs s' < 2 ^ 64"
  shows "ids_ok s'"
  using assms(1)
proof cases
  case (udp_allowed t f n1 n2 s1)
  from validate_flow_frame [OF udp_allowed(3)] show ?thesis
    by (intro ids_keep [OF assms(2), of _ t "UAllowed f"]) (use udp_allowed in \<open>auto simp: fstep_defs\<close>)
next
  case (udp_denied t f n1 n2 s1)
  from validate_flow_frame [OF udp_denied(3)] show ?thesis
    by (intro ids_keep [OF assms(2), of _ t "UExit Closed"]) (use udp_denied in \<open>auto simp: fstep_defs\<close>)
next
  case (tcp_allowed t f n1 n2 s1)
  from validate_flow_frame [OF tcp_allowed(3)] show ?thesis
    by (intro ids_keep [OF assms(2), of _ t "TAllowed f"]) (use tcp_allowed in \<open>auto simp: fstep_defs\<close>)
next
  case (tcp_denied t f n1 n2 s1)
  from validate_flow_frame [OF tcp_denied(3)] show ?thesis
    by (intro ids_keep [OF assms(2), of _ t "TDone Closed"]) (use tcp_denied in \<open>auto simp: fstep_defs\<close>)
next
  case (udp_number t f)
  show ?thesis
    by (rule ids_draw [OF assms(2), of _ t "UNumbered f (next_id s)"])
      (use assms(3) udp_number in \<open>auto simp: goto_def take_id_def\<close>)
next
  case (tcp_number t f nowMs)
  show ?thesis
    by (rule ids_draw [OF assms(2), of _ t "TNumbered f (next_id s)"])
      (use assms(3) tcp_number in \<open>auto simp: goto_def take_id_def on_engine_def\<close>)
next
  case (stop e')
  from Stop_frame [OF stop(2)] show ?thesis
    by (intro ids_same [OF assms(2)]) (auto simp: stop(1) fstep_defs)
next
  case (close_all o1 o2)
  from CloseAll_frame [of o1 o2 "eng s"] show ?thesis
    by (intro ids_same [OF assms(2)]) (auto simp: close_all fstep_defs)
next
  case (set_validator v)
  show ?thesis by (intro ids_same [OF assms(2)]) (auto simp: set_validator fstep_defs)
qed (rule ids_keep [OF assms(2)], (auto simp: fstep_defs) [], (auto simp: fstep_defs))+

text \<open>A table holds exactly the flows that a function of their state puts there.\<close>

definition table_of :: "(u64 \<rightharpoonup> nat) \<Rightarrow> (fpc \<Rightarrow> u64 option) \<Rightarrow> (nat \<Rightarrow> fpc) \<Rightarrow> bool" where
  "table_of m g fs \<longleftrightarrow> (\<forall>n t. m n = Some t \<longleftrightarrow> g (fs t) = Some n)"

lemma table_keep: "table_of m g fs \<Longrightarrow> g p = g (fs t) \<Longrightarrow> table_of m g (fs(t := p))"
  by (auto simp: table_of_def)

lemma table_insert:
  "table_of m g fs \<Longrightarrow> g (fs t) = None \<Longrightarrow> g p = Some n \<Longrightarrow> (\<And>u. g (fs u) \<noteq> Some n) \<Longrightarrow>
   table_of (m(n \<mapsto> t)) g (fs(t := p))"
  by (auto simp: table_of_def)

lemma table_delete:
  assumes "table_of m g fs" and "g (fs t) = Some n" and "g p = None"
  shows "table_of (m(n := None)) g (fs(t := p))"
  using assms unfolding table_of_def by (auto split: if_splits) (metis option.inject)+

definition tables_ok :: "fsys \<Rightarrow> bool" where
  "tables_ok s \<longleftrightarrow> table_of (udpConns (eng s)) in_udp_table (fpcs s) \<and>
     table_of (conns (eng s)) in_tcp_table (fpcs s) \<and>
     (\<forall>t. in_tcp_table (fpcs s t) \<noteq> None \<or> (\<exists>f n. fpcs s t = TNumbered f n) \<longrightarrow> app (tcs (eng s) t) = t)"

lemma tables_keep:
  assumes "tables_ok s" and "fpcs s' = (fpcs s)(t := p)" and "udpConns (eng s') = udpConns (eng s)"
    and "conns (eng s') = conns (eng s)" and "in_udp_table p = in_udp_table (fpcs s t)"
    and "in_tcp_table p = in_tcp_table (fpcs s t)" and "\<And>u. u \<noteq> t \<Longrightarrow> tcs (eng s') u = tcs (eng s) u"
    and "in_tcp_table p \<noteq> None \<or> (\<exists>f n. p = TNumbered f n) \<Longrightarrow> app (tcs (eng s') t) = t"
  shows "tables_ok s'"
  using assms by (auto simp: tables_ok_def table_keep)

lemma tables_same:
  "tables_ok s \<Longrightarrow> fpcs s' = fpcs s \<Longrightarrow> udpConns (eng s') = udpConns (eng s) \<Longrightarrow>
   conns (eng s') = conns (eng s) \<Longrightarrow> tcs (eng s') = tcs (eng s) \<Longrightarrow> tables_ok s'"
  by (simp add: tables_ok_def)

lemma tables_step:
  assumes "fstep cl s s'" and "ids_ok s" and "tables_ok s"
  shows "tables_ok s'"
  using assms(1)
proof cases
  case (udp_allowed t f n1 n2 s1)
  from validate_flow_frame [OF udp_allowed(3)] show ?thesis
    by (intro tables_keep [OF assms(3), of _ t "UAllowed f"]) (use udp_allowed in \<open>auto simp: fstep_defs\<close>)
next
  case (udp_denied t f n1 n2 s1)
  from validate_flow_frame [OF udp_denied(3)] show ?thesis
    by (intro tables_keep [OF assms(3), of _ t "UExit Closed"]) (use udp_denied in \<open>auto simp: fstep_defs\<close>)
next
  case (tcp_allowed t f n1 n2 s1)
  from validate_flow_frame [OF tcp_allowed(3)] show ?thesis
    by (intro tables_keep [OF assms(3), of _ t "TAllowed f"]) (use tcp_allowed in \<open>auto simp: fstep_defs\<close>)
next
  case (tcp_denied t f n1 n2 s1)
  from validate_flow_frame [OF tcp_denied(3)] show ?thesis
    by (intro tables_keep [OF assms(3), of _ t "TDone Closed"]) (use tcp_denied in \<open>auto simp: fstep_defs\<close>)
next
  case (udp_track t f n)
  have "in_udp_table (fpcs s u) \<noteq> Some n" for u
  proof
    assume u: "in_udp_table (fpcs s u) = Some n"
    have "drawn (fpcs s t) = Some n" using udp_track(2) by simp
    with assms(2) in_table_drawn(1) [OF u] have "u = t" unfolding ids_ok_def by metis
    with u udp_track(2) show False by simp
  qed
  with assms(3) udp_track(2) show ?thesis
    by (auto simp: udp_track(1) tables_ok_def fstep_defs intro: table_insert table_keep)
next
  case (tcp_track t f n)
  have "in_tcp_table (fpcs s u) \<noteq> Some n" for u
  proof
    assume u: "in_tcp_table (fpcs s u) = Some n"
    have "drawn (fpcs s t) = Some n" using tcp_track(2) by simp
    with assms(2) in_table_drawn(2) [OF u] have "u = t" unfolding ids_ok_def by metis
    with u tcp_track(2) show False by simp
  qed
  with assms(3) tcp_track(2) show ?thesis
    by (auto simp: tcp_track(1) tables_ok_def fstep_defs intro: table_insert table_keep)
next
  case (udp_untrack t f n)
  with assms(3) show ?thesis
    by (auto simp: tables_ok_def fstep_defs intro: table_delete table_keep)
next
  case (tcp_untrack t f n)
  with assms(3) show ?thesis
    by (auto simp: tables_ok_def fstep_defs intro: table_delete table_keep)
next
  case (stop e')
  from Stop_frame [OF stop(2)] show ?thesis
    by (intro tables_same [OF assms(3)]) (auto simp: stop(1) fstep_defs)
next
  case (close_all o1 o2)
  from CloseAll_frame [of o1 o2 "eng s"] show ?thesis
    by (intro tables_same [OF assms(3)]) (auto simp: close_all fstep_defs)
next
  case (set_validator v)
  show ?thesis by (intro tables_same [OF assms(3)]) (auto simp: set_validator fstep_defs)
next
  case (tcp_number t f nowMs)
  show ?thesis
    by (rule tables_keep [OF assms(3), of _ t "TNumbered f (next_id s)"])
      (auto simp: tcp_number fstep_defs new_tc_def)
next
  case (tcp_count t f n)
  with assms(3) show ?thesis
    by (intro tables_keep [OF assms(3), of _ t "TPiping f n"]) (auto simp: fstep_defs tables_ok_def)
next
  case (tcp_pipe_end t f n)
  with assms(3) show ?thesis
    by (intro tables_keep [OF assms(3), of _ t "TClosed f n"]) (auto simp: fstep_defs tables_ok_def)
qed (rule tables_keep [OF assms(3)], (auto simp: fstep_defs) [], (auto simp: fstep_defs))+

lemma tables_reach: "freach cl s \<Longrightarrow> seqs s < 2 ^ 64 \<Longrightarrow> ids_ok s \<and> tables_ok s"
proof (induction rule: freach.induct)
  case (init cfg m a q cap ttls)
  show ?case by (simp add: ids_ok_def tables_ok_def table_of_def finit_def new_engine_def)
next
  case (step s s')
  with seqs_mono [OF step(2)] ids_step [OF step(2)] tables_step [OF step(2)] show ?case by auto
qed

subsection \<open>Ends\<close>

text \<open>
  Flows whose connection must have been closed; flows whose request has been completed: those
  of TCP from the attempt to create an endpoint on.
\<close>

fun must_be_closed :: "fpc \<Rightarrow> bool" where
  "must_be_closed (UClosed f n) = True" | "must_be_closed (UExit r) = (r = Closed)"
| "must_be_closed (TClosed f n) = True" | "must_be_closed (TUntracked f) = True"
| "must_be_closed (FDone r) = (r = Closed)" | "must_be_closed (TDone r) = (r = Closed)" | "must_be_closed _ = False"

fun past_endpoint :: "fpc \<Rightarrow> bool" where
  "past_endpoint (TEndpoint f) = True" | "past_endpoint (TAllowed f) = True" | "past_endpoint (TDialed f) = True"
| "past_endpoint (TNumbered f n) = True" | "past_endpoint (TTracked f n) = True"
| "past_endpoint (TPiping f n) = True" | "past_endpoint (TClosed f n) = True"
| "past_endpoint (TUntracked f) = True" | "past_endpoint (TDone r) = True" | "past_endpoint _ = False"

text \<open>The arguments of the calls \<open>Complete\<close> for a flow that are right for its state.\<close>

definition completion :: "fpc \<Rightarrow> bool list" where
  "completion p = (if p = TDone NoEndpoint then [True] else if past_endpoint p then [False] else [])"

definition completions :: "nat \<Rightarrow> fsys \<Rightarrow> bool list" where
  "completions t s = map snd (filter (\<lambda>c. fst c = t) (completed s))"

definition ends_ok :: "fsys \<Rightarrow> bool" where
  "ends_ok s \<longleftrightarrow> (\<forall>t. (must_be_closed (fpcs s t) \<longrightarrow> t \<in> set (closed_conns (eng s))) \<and>
     completions t s = completion (fpcs s t))"

lemma ends_move:
  assumes "ends_ok s" and "fpcs s' = (fpcs s)(t := p)"
    and "set (closed_conns (eng s)) \<subseteq> set (closed_conns (eng s'))"
    and "must_be_closed p \<Longrightarrow> must_be_closed (fpcs s t) \<or> t \<in> set (closed_conns (eng s'))"
    and "\<And>u. u \<noteq> t \<Longrightarrow> completions u s' = completions u s"
    and "completions t s = completion (fpcs s t) \<Longrightarrow> completions t s' = completion p"
  shows "ends_ok s'"
  using assms unfolding ends_ok_def by (auto 0 3)

lemma ends_same:
  "ends_ok s \<Longrightarrow> fpcs s' = fpcs s \<Longrightarrow> completed s' = completed s \<Longrightarrow>
   set (closed_conns (eng s)) \<subseteq> set (closed_conns (eng s')) \<Longrightarrow> ends_ok s'"
  by (auto simp: ends_ok_def completions_def)

lemma ends_step:
  assumes "fstep cl s s'" and "ends_ok s"
  shows "ends_ok s'"
  using assms(1)
proof cases
  case (udp_allowed t f n1 n2 s1)
  from validate_flow_frame [OF udp_allowed(3)] show ?thesis
    by (intro ends_move [OF assms(2), of _ t "UAllowed f"])
      (use udp_allowed in \<open>auto simp: fstep_defs completions_def completion_def\<close>)
next
  case (udp_denied t f n1 n2 s1)
  from validate_flow_frame [OF udp_denied(3)] show ?thesis
    by (intro ends_move [OF assms(2), of _ t "UExit Closed"])
      (use udp_denied in \<open>auto simp: fstep_defs completions_def completion_def\<close>)
next
  case (tcp_allowed t f n1 n2 s1)
  from validate_flow_frame [OF tcp_allowed(3)] show ?thesis
    by (intro ends_move [OF assms(2), of _ t "TAllowed f"])
      (use tcp_allowed in \<open>auto simp: fstep_defs completions_def completion_def\<close>)
next
  case (tcp_denied t f n1 n2 s1)
  from validate_flow_frame [OF tcp_denied(3)] show ?thesis
    by (intro ends_move [OF assms(2), of _ t "TDone Closed"])
      (use tcp_denied in \<open>auto simp: fstep_defs completions_def completion_def\<close>)
next
  case (stop e')
  from Stop_frame [OF stop(2)] show ?thesis
    by (intro ends_same [OF assms(2)]) (auto simp: stop(1) fstep_defs)
next
  case (close_all o1 o2)
  from CloseAll_frame [of o1 o2 "eng s"] show ?thesis
    by (intro ends_same [OF assms(2)]) (auto simp: close_all fstep_defs)
next
  case (set_validator v)
  show ?thesis by (intro ends_same [OF assms(2)]) (auto simp: set_validator fstep_defs)
qed (rule ends_move [OF assms(2)], (auto simp: fstep_defs) [], (auto simp: fstep_defs completions_def completion_def))+

lemma ends_reach: "freach cl s \<Longrightarrow> ends_ok s"
proof (induction rule: freach.induct)
  case (init cfg m a q cap ttls)
  show ?case by (simp add: ends_ok_def completions_def completion_def finit_def)
qed (rule ends_step)

subsection \<open>A run\<close>

definition demo_tcp_flow :: flow where
  "demo_tcp_flow = \<lparr>f_src = [10, 1, 2, 3], f_sport = 40000, f_dst = [1, 2, 3, 4], f_dport = 443, f_proto = ProtocolTCP\<rparr>"

lemma demo_tcp_flow_id: "demo_tcp_flow =
    id_flow \<lparr>LocalPort = 443, LocalAddress = [1, 2, 3, 4], RemotePort = 40000, RemoteAddress = [10, 1, 2, 3]\<rparr> ProtocolTCP"
  by (simp add: demo_tcp_flow_def id_flow_def)

definition demo_config :: engine_config where
  "demo_config = \<lparr>cfg_tunFD = 5, cfg_host = ''127.0.0.1'', cfg_port = 1080, cfg_user = ''u'', cfg_pass = ''p''\<rparr>"

lemma demo_run: "\<exists>s n. freach demo_client s \<and> fpcs s = (\<lambda>_. FNew)(0 := TPiping demo_tcp_flow n) \<and> seqs s = 1"
proof -
  let ?f = demo_tcp_flow and ?yes = "\<lambda>_ :: validator_args. True"
  define s0 where "s0 = finit ((new_engine 1500 False True (NewEngineHook 8 60))\<lparr>config := demo_config\<rparr>)"
  define s1 where "s1 = on_engine (\<lambda>e. e\<lparr>hook := SetValidator (Some ?yes) (hook e)\<rparr>) s0"
  define s2 where "s2 = goto 0 (TStart ?f) s1"
  define s3 where "s3 = goto 0 (TEndpoint ?f) (complete 0 False s2)"
  define s4 where "s4 = snd (validate_flow 0 0 ?f s3)"
  have 0: "freach demo_client s0" unfolding s0_def
    by (rule freach.init) (simp add: client_of_def NewSOCKS5Client_def demo_config_def demo_client_def)
  have 1: "freach demo_client s1" unfolding s1_def by (rule freach.step [OF 0]) (rule fstep.set_validator)
  have f1: "fpcs s1 = (\<lambda>_. FNew)" "seqs s1 = 0" "cache (hcache (hook (eng s1))) = Map.empty" "validator (hook (eng s1)) = Some ?yes"
    by (simp_all add: s1_def s0_def on_engine_def finit_def new_engine_def SetValidator_def NewEngineHook_def NewLRUCache_def)
  have 2: "freach demo_client s2" unfolding s2_def
    by (rule freach.step [OF 1], rule fstep.tcp_start [OF _ _ demo_tcp_flow_id])
      (simp_all add: f1 demo_tcp_flow_def wf_flow_def wf_ip_def)
  have 3: "freach demo_client s3" unfolding s3_def
    by (rule freach.step [OF 2], rule fstep.tcp_endpoint) (simp add: s2_def goto_def)
  have f3: "fpcs s3 = (\<lambda>_. FNew)(0 := TEndpoint ?f)" "seqs s3 = 0" "hook (eng s3) = hook (eng s1)"
    by (simp_all add: s3_def s2_def goto_def complete_def f1)
  have v: "validate_flow 0 0 ?f s3 = (True, s4)"
    unfolding s4_def using f1 f3 by (simp add: validate_flow_def Validate_def Let_def Get_def)
  note f4 = validate_flow_frame [OF v]
  have 4: "freach demo_client (goto 0 (TAllowed ?f) s4)"
    by (rule freach.step [OF 3], rule fstep.tcp_allowed [OF _ v]) (simp add: f3)
  define s5 where "s5 = goto 0 (TAllowed ?f) s4"
  have w: "wf_ip (f_dst ?f)" by (simp add: demo_tcp_flow_def wf_ip_def)
  have "inp demo_conn = [5, 2, 1, 0] @ [5, 0, 0, 1, 10, 0, 0, 1, 0, 80] @ [72, 105]" by (simp add: demo_conn_def)
  from DialTCP_completes [OF DialContext_demo _ _ w accepted.password demo_reply this, of "uint (f_dport ?f)"]
  obtain c where c: "DialTCP (\<lambda>_. Some demo_conn) demo_client (ip_string (f_dst ?f)) (uint (f_dport ?f)) = (Inr (), Some c)"
    by (simp add: demo_conn_def)
  define s6 where "s6 = goto 0 (TDialed ?f) (s5\<lparr>wire := (wire s5)(0 := out c)\<rparr>)"
  have 6: "freach demo_client s6" unfolding s6_def
    by (rule freach.step [OF 4 [folded s5_def]], rule fstep.tcp_dialed [OF _ _ c])
      (simp_all add: s5_def goto_def fresh_net_def demo_conn_def)
  define s7 where "s7 = goto 0 (TNumbered ?f (next_id s6)) (on_engine (\<lambda>e. e\<lparr>tcs := (tcs e)(0 := new_tc 0 ?f 0)\<rparr>) (take_id s6))"
  have 7: "freach demo_client s7" unfolding s7_def
    by (rule freach.step [OF 6], rule fstep.tcp_number) (simp add: s6_def goto_def)
  define s8 where "s8 = goto 0 (TTracked ?f (next_id s6)) (on_engine (trackConn (next_id s6) 0) s7)"
  have 8: "freach demo_client s8" unfolding s8_def
    by (rule freach.step [OF 7], rule fstep.tcp_track) (simp add: s7_def goto_def)
  define s9 where "s9 = goto 0 (TPiping ?f (next_id s6)) (on_engine (add_tcp 1) s8)"
  have 9: "freach demo_client s9" unfolding s9_def
    by (rule freach.step [OF 8], rule fstep.tcp_count) (simp add: s8_def goto_def)
  have "fpcs s9 = (\<lambda>_. FNew)(0 := TPiping ?f (next_id s6))" "seqs s9 = 1"
    by (simp_all add: s9_def s8_def s7_def s6_def s5_def goto_def on_engine_def take_id_def f4 f3)
  with 9 show ?thesis by blast
qed

text \<open>A system at rest: every handler that was started has ended.\<close>

definition at_rest :: "fsys \<Rightarrow> bool" where
  "at_rest s \<longleftrightarrow> (\<forall>t. fpcs s t = FNew \<or> (\<exists>r. fpcs s t = FDone r \<or> fpcs s t = TDone r))"

lemma at_rest_flows:
  "at_rest s \<Longrightarrow> flows holds_slot (fpcs s) = {} \<and> flows counted (fpcs s) = {}"
  unfolding at_rest_def flows_def by (metis (mono_tags, lifting) empty_Collect_eq holds_slot.simps counted.simps)

subsection \<open>Properties\<close>

text \<open>
  C7: the cap on UDP associations holds under every interleaving. In every reachable state
  the counter is exactly the number of flows holding a slot (those being refused included),
  at most 512 flows have been let past the cap and not yet released theirs, whatever handlers
  fail, are denied, panic or finish in between; and the TCP counter is exactly the number of
  running TCP pipes.
\<close>

theorem udp_slots_exact:
  assumes "freach cl s"
  shows "finite (flows holds_slot (fpcs s)) \<and> finite (flows counted (fpcs s)) \<and>
    activeUDPConns (eng s) = int (card (flows holds_slot (fpcs s))) \<and>
    card (flows admitted (fpcs s)) \<le> 512 \<and>
    ActiveConns (eng s) = int (card (flows holds_slot (fpcs s)) + card (flows counted (fpcs s)))"
  using counts_reach [OF assms] by (simp add: counts_ok_def ActiveConns_def maxUDPConns_def)

lemma udp_slots_exact_witness:
  "\<exists>s. freach demo_client s \<and> fpcs s \<noteq> (\<lambda>_. FNew) \<and> ActiveConns (eng s) = 1"
proof -
  obtain s n where s: "freach demo_client s" "fpcs s = (\<lambda>_. FNew)(0 := TPiping demo_tcp_flow n)"
    using demo_run by blast
  have "flows holds_slot (fpcs s) = {}" "flows counted (fpcs s) = {0}" by (auto simp: s(2) flows_def)
  with udp_slots_exact [OF s(1)] have "ActiveConns (eng s) = 1" by simp
  moreover have "fpcs s 0 \<noteq> FNew" by (simp add: s(2))
  ultimately show ?thesis using s(1) by (metis (full_types))
qed

text \<open>
  C1: no flow is carried without consent, and to no other destination. In every reachable
  state, a handler that has passed validation works for a flow to whose very addresses, ports
  and protocol the callback has said yes; and when it has a proxy connection for TCP, the last
  message it sent there is a CONNECT request that a proxy reads as exactly this flow's
  destination (an IPv4-mapped address as IPv4) and port.
\<close>

theorem flows_carried_with_consent:
  assumes "freach cl s" and "flow_of (fpcs s t) = Some f" and "past_validation (fpcs s t)"
  shows "flow_args f \<in> set (consents s) \<and>
    (tcp_connected (fpcs s t) \<longrightarrow> (\<exists>outs req. wire s t = outs @ [req] \<and>
       read_request req = Some ((ip_norm (f_dst f), f_dport f), [])))"
proof -
  from consent_reach [OF assms(1)] assms(2,3) have *: "wf_flow f" "flow_args f \<in> set (consents s)"
    "tcp_connected (fpcs s t) \<longrightarrow> requests f (wire s t)"
    by (auto simp: consent_ok_def pc_consent_def)
  have "read_request (connect_request (f_dst f) (uint (f_dport f))) = Some ((ip_norm (f_dst f), f_dport f), [])"
    using read_request_connect [of "f_dst f" "f_dport f" "[]"] *(1) by (simp add: wf_flow_def)
  with * show ?thesis unfolding requests_def by blast
qed

lemma flows_carried_with_consent_witness:
  "\<exists>s. freach demo_client s \<and> flow_args demo_tcp_flow \<in> set (consents s) \<and>
     (\<exists>outs req. wire s 0 = outs @ [req] \<and> read_request req = Some ((ip_norm [1, 2, 3, 4], 443), []))"
proof -
  obtain s n where s: "freach demo_client s" "fpcs s = (\<lambda>_. FNew)(0 := TPiping demo_tcp_flow n)"
    using demo_run by blast
  from flows_carried_with_consent [OF s(1), of 0 demo_tcp_flow] s show ?thesis
    by (auto simp: demo_tcp_flow_def)
qed

text \<open>
  C12: the tables hold exactly the running flows, until the 64-bit id counter wraps. In every
  reachable state, the TCP table maps ids one-to-one to the flows between \<open>trackConn\<close> and
  \<open>untrackConn\<close>, the UDP table to those between its two calls, and \<open>CloseAllConnections\<close>, in
  whatever order it iterates, closes exactly these flows' netstack connections.
\<close>

theorem tables_hold_running_flows:
  assumes "freach cl s" and "seqs s < 2 ^ 64"
    and "enumerates o1 (conns (eng s))" and "enumerates o2 (udpConns (eng s))"
  shows "(\<forall>n t. conns (eng s) n = Some t \<longleftrightarrow> in_tcp_table (fpcs s t) = Some n) \<and>
    (\<forall>n t. udpConns (eng s) n = Some t \<longleftrightarrow> in_udp_table (fpcs s t) = Some n) \<and>
    (\<exists>cs. snd (CloseAllConnections o1 o2 (eng s)) = (eng s)\<lparr>closed_conns := closed_conns (eng s) @ cs\<rparr> \<and>
      set cs = {t. in_tcp_table (fpcs s t) \<noteq> None \<or> in_udp_table (fpcs s t) \<noteq> None})"
proof -
  from tables_reach [OF assms(1,2)] have T: "tables_ok s" by blast
  then have tab: "table_of (conns (eng s)) in_tcp_table (fpcs s)" "table_of (udpConns (eng s)) in_udp_table (fpcs s)"
    and app: "\<And>t. in_tcp_table (fpcs s t) \<noteq> None \<Longrightarrow> app (tcs (eng s) t) = t"
    by (auto simp: tables_ok_def)
  have ran: "ran (conns (eng s)) = {t. in_tcp_table (fpcs s t) \<noteq> None}"
    "ran (udpConns (eng s)) = {t. in_udp_table (fpcs s t) \<noteq> None}"
    using tab by (auto simp: ran_def table_of_def)
  have "(\<lambda>p. app (tcs (eng s) p)) ` ran (conns (eng s)) = ran (conns (eng s))"
    using app by (force simp: ran)
  moreover have "set (map (\<lambda>tc. app (tcs (eng s) tc)) (snapshot (conns (eng s)) o1) @ snapshot (udpConns (eng s)) o2) =
      (\<lambda>p. app (tcs (eng s) p)) ` ran (conns (eng s)) \<union> ran (udpConns (eng s))"
    using set_snapshot [OF assms(3)] set_snapshot [OF assms(4)] by simp
  ultimately have "set (map (\<lambda>tc. app (tcs (eng s) tc)) (snapshot (conns (eng s)) o1) @ snapshot (udpConns (eng s)) o2) =
      {t. in_tcp_table (fpcs s t) \<noteq> None \<or> in_udp_table (fpcs s t) \<noteq> None}"
    by (auto simp: ran)
  then show ?thesis
    using tab by (auto simp: table_of_def CloseAllConnections_def Let_def fold_close_conn)
qed

lemma tables_hold_running_flows_witness:
  "\<exists>s n. freach demo_client s \<and> conns (eng s) n = Some 0"
proof -
  obtain s n where s: "freach demo_client s" "fpcs s = (\<lambda>_. FNew)(0 := TPiping demo_tcp_flow n)" "seqs s = 1"
    using demo_run by blast
  then have "seqs s < 2 ^ 64" by simp
  from tables_reach [OF s(1) this] have t: "table_of (conns (eng s)) in_tcp_table (fpcs s)"
    "table_of (udpConns (eng s)) in_udp_table (fpcs s)" by (auto simp: tables_ok_def)
  have "in_tcp_table (fpcs s u) = Some m \<longleftrightarrow> u = 0 \<and> m = n" "in_udp_table (fpcs s u) = Some m \<longleftrightarrow> False" for u m
    by (auto simp: s(2))
  note tab = this
  have c: "conns (eng s) m = Some u \<longleftrightarrow> u = 0 \<and> m = n" for u m
    using t(1) unfolding table_of_def by (simp only: tab)
  have c': "udpConns (eng s) m \<noteq> Some u" for u m
    using t(2) unfolding table_of_def by (simp only: tab not_False_eq_True)
  have "dom (conns (eng s)) = {n}"
    by (rule set_eqI) (metis c domD domI singletonD singletonI)
  then have "enumerates [n] (conns (eng s))" by (simp add: enumerates_def)
  moreover have "udpConns (eng s) = Map.empty"
    by (rule ext) (metis c' not_None_eq)
  then have "enumerates [] (udpConns (eng s))" by (simp add: enumerates_def)
  ultimately have "enumerates [n] (conns (eng s))" "enumerates [] (udpConns (eng s))" by blast+
  from tables_hold_running_flows [OF s(1) \<open>seqs s < 2 ^ 64\<close> this]
  have "conns (eng s) n = Some 0" by (metis fun_upd_same in_tcp_table.simps(2) s(2))
  with s(1) show ?thesis by blast
qed

text \<open>
  C13: nothing is left over. In every reachable state, a handler that ended without a panic
  after it had an endpoint has closed its netstack connection. The forwarder's request of a
  TCP flow has been completed, exactly once, as soon as and whenever the creation of its
  endpoint has been tried, denied, failed and panicking flows included, with a reset exactly
  when there is no endpoint; so no entry of the netstack's table of pending requests leaks.
  When all handlers have ended, both counters are zero and (unless the id counter has
  wrapped) both tables are empty.
\<close>

theorem handlers_leave_nothing:
  assumes "freach cl s"
  shows "(\<forall>t. fpcs s t = FDone Closed \<or> fpcs s t = TDone Closed \<longrightarrow> t \<in> set (closed_conns (eng s))) \<and>
    (\<forall>t. completions t s =
      (if fpcs s t = TDone NoEndpoint then [True] else if past_endpoint (fpcs s t) then [False] else [])) \<and>
    (at_rest s \<longrightarrow> activeUDPConns (eng s) = 0 \<and> activeConns (eng s) = 0 \<and>
      (seqs s < 2 ^ 64 \<longrightarrow> conns (eng s) = Map.empty \<and> udpConns (eng s) = Map.empty))"
proof -
  have ends: "must_be_closed (fpcs s t) \<Longrightarrow> t \<in> set (closed_conns (eng s))" "completions t s = completion (fpcs s t)" for t
    using ends_reach [OF assms] by (auto simp: ends_ok_def)
  moreover have "activeUDPConns (eng s) = 0 \<and> activeConns (eng s) = 0" if "at_rest s"
    using counts_reach [OF assms] at_rest_flows [OF that] by (simp add: counts_ok_def)
  moreover have "conns (eng s) = Map.empty \<and> udpConns (eng s) = Map.empty" if r: "at_rest s" and "seqs s < 2 ^ 64"
  proof -
    have "in_tcp_table (fpcs s t) = None \<and> in_udp_table (fpcs s t) = None" for t
      using r unfolding at_rest_def by (metis in_tcp_table.simps in_udp_table.simps)
    then show ?thesis
      using tables_reach [OF assms that(2)] by (auto simp: tables_ok_def table_of_def intro!: ext)
  qed
  ultimately show ?thesis by (auto simp: completion_def)
qed

lemma handlers_leave_nothing_witness:
  "\<exists>s. freach demo_client s \<and> tcp_connected (fpcs s 0) \<and> completions 0 s = [False]"
proof -
  obtain s n where s: "freach demo_client s" "fpcs s = (\<lambda>_. FNew)(0 := TPiping demo_tcp_flow n)"
    using demo_run by blast
  with handlers_leave_nothing [OF s(1)] show ?thesis by (intro exI [of _ s]) auto
qed

end
