(* ===== verification/Draining.thy ===== *)
theory Draining
  imports Main
begin

text \<open>
  The contract of a teardown: once a flow is \<open>down\<close>, its goroutines only run towards their
  end. Every step they take themselves (\<open>own\<close>) lowers the \<open>load\<close>, the environment never
  raises it, and while the flow has not \<open>ended\<close> some own step is possible. Then the flow can
  always end, and no run takes more own steps than its load. Both data pipes of the program
  interpret it.
\<close>

inductive run :: "('s \<Rightarrow> 's \<Rightarrow> bool) \<Rightarrow> 's \<Rightarrow> 's list \<Rightarrow> bool" for step where
  stop: "run step s []"
| go: "step s s' \<Longrightarrow> run step s' ss \<Longrightarrow> run step s (s' # ss)"

inductive_cases run_ConsE: "run step s (s' # ss)"

fun own_steps :: "('s \<Rightarrow> 's \<Rightarrow> bool) \<Rightarrow> 's \<Rightarrow> 's list \<Rightarrow> nat" where
  "own_steps own s [] = 0"
| "own_steps own s (s' # ss) = (if own s s' then 1 else 0) + own_steps own s' ss"

locale draining =
  fixes step :: "'s \<Rightarrow> 's \<Rightarrow> bool"
    and own :: "'s \<Rightarrow> 's \<Rightarrow> bool"
    and down :: "'s \<Rightarrow> bool"
    and ended :: "'s \<Rightarrow> bool"
    and load :: "'s \<Rightarrow> nat"
  assumes down_kept: "down s \<Longrightarrow> step s s' \<Longrightarrow> down s'"
    and own_sinks: "down s \<Longrightarrow> step s s' \<Longrightarrow> own s s' \<Longrightarrow> load s' < load s"
    and others_keep: "down s \<Longrightarrow> step s s' \<Longrightarrow> \<not> own s s' \<Longrightarrow> load s' \<le> load s"
    and progress: "down s \<Longrightarrow> \<not> ended s \<Longrightarrow> \<exists>s'. step s s' \<and> own s s'"
begin

lemma own_steps_bounded: "run step s ss \<Longrightarrow> down s \<Longrightarrow> own_steps own s ss \<le> load s"
proof (induction rule: run.induct)
  case (go s s' ss)
  then have "own_steps own s' ss \<le> load s'" using down_kept by blast
  then show ?case
    using own_sinks [OF go(4,1)] others_keep [OF go(4,1)] by (cases "own s s'") auto
qed simp

lemma can_end: "down s \<Longrightarrow> \<exists>ss. run step s ss \<and> length ss \<le> load s \<and> ended (last (s # ss))"
proof (induction "load s" arbitrary: s rule: less_induct)
  case less
  show ?case
  proof (cases "ended s")
    case True
    then show ?thesis by (intro exI [of _ "[]"]) (auto intro: run.stop)
  next
    case False
    then obtain s' where s': "step s s'" "own s s'" using progress less.prems by blast
    have lt: "load s' < load s" using own_sinks [OF less.prems s'] .
    from less.hyps [OF lt down_kept [OF less.prems s'(1)]] obtain ss where
      ss: "run step s' ss" "length ss \<le> load s'" "ended (last (s' # ss))" by blast
    then show ?thesis
      using s'(1) lt by (intro exI [of _ "s' # ss"]) (auto intro: run.go)
  qed
qed

end

end
