(* ===== verification/Pipe_TCP.thy ===== *)
theory Pipe_TCP
  imports Engine_State Draining "HOL-Library.Sublist"
begin

text \<open>
  The data pipe of a TCP flow, \<open>pipeConnections\<close> of \<open>go/engine.go\<close>: two goroutines copy
  between the app's connection and the proxy's, stamp their activity, pass an end of stream on
  as a half-close and watch for idleness. Direction \<open>Up\<close> reads the app and writes the proxy,
  \<open>Down\<close> the other way round; the connection a direction reads is the one the other writes.
  Every \<open>Read\<close>, \<open>Write\<close>, verdict and \<open>CloseWrite\<close> is one step, so the goroutines interleave
  with each other, with arriving data, ends and failures of the peers, with the clock, and
  with \<open>CloseAllConnections\<close> closing the app side.
\<close>

datatype dir = Up | Down

fun other :: "dir \<Rightarrow> dir" where
  "other Up = Down"
| "other Down = Up"

text \<open>The error of a \<open>Read\<close>, if any; what a goroutine does next.\<close>

datatype read_err = NoErr | Timeout | EOF | OtherErr

datatype ppc =
    PRead
  | PWrite bytes read_err
  | PErr read_err
  | PExit

text \<open>
  For direction \<open>d\<close>: \<open>arrived d\<close> is all that has arrived at the connection it reads, \<open>unread d\<close>
  what it has not read, \<open>fin_in d\<close> whether the peer there has ended its stream, \<open>broken d\<close>
  whether that connection has failed, \<open>closed d\<close> whether it was closed locally; \<open>delivered d\<close>
  is what was written to the other connection, \<open>fin_out d\<close> whether \<open>CloseWrite\<close> succeeded on it,
  \<open>wdeadline d\<close> the write deadline set on it. \<open>seen d\<close> is no variable of the code: it records, for
  the properties, when \<open>d\<close> last read payload (at first, when the pipe started).
\<close>

record pipe =
  ptc :: trackedConn
  clock :: int
  kills :: nat
  arrived :: "dir \<Rightarrow> bytes"
  unread :: "dir \<Rightarrow> bytes"
  fin_in :: "dir \<Rightarrow> bool"
  broken :: "dir \<Rightarrow> bool"
  closed :: "dir \<Rightarrow> bool"
  delivered :: "dir \<Rightarrow> bytes"
  fin_out :: "dir \<Rightarrow> bool"
  wdeadline :: "dir \<Rightarrow> int"
  seen :: "dir \<Rightarrow> int"
  ppc :: "dir \<Rightarrow> ppc"
  shut :: bool
  returned :: bool

definition buf_size :: nat where "buf_size = 32768"

definition pgoto :: "dir \<Rightarrow> ppc \<Rightarrow> pipe \<Rightarrow> pipe" where
  "pgoto d p s = s\<lparr>ppc := (ppc s)(d := p)\<rparr>"

subsection \<open>The code\<close>

text \<open>\<open>touched.Store(now)\<close>\<close>

definition touch :: "dir \<Rightarrow> pipe \<Rightarrow> pipe" where
  "touch d s = (case d of
     Up \<Rightarrow> s\<lparr>ptc := (ptc s)\<lparr>lastTxMs := clock s\<rparr>\<rparr>
   | Down \<Rightarrow> s\<lparr>ptc := (ptc s)\<lparr>lastRxMs := clock s\<rparr>\<rparr>)"

text \<open>\<open>shutdown\<close>: both connections are closed, once.\<close>

definition shutdown :: "pipe \<Rightarrow> pipe" where
  "shutdown s = (if shut s then s else s\<lparr>shut := True, closed := (\<lambda>_. True)\<rparr>)"

text \<open>After \<open>src.Read\<close> returned \<open>data\<close> and \<open>err\<close>.\<close>

definition after_read :: "dir \<Rightarrow> bytes \<Rightarrow> read_err \<Rightarrow> pipe \<Rightarrow> pipe" where
  "after_read d data err s =
     (let s = s\<lparr>unread := (unread s)(d := drop (length data) (unread s d))\<rparr> in
      if 0 < length data then
        pgoto d (PWrite data err) ((touch d s)\<lparr>wdeadline := (wdeadline s)(d := clock s + tcpIdleTimeout_ms)\<rparr>)
      else if err = NoErr then pgoto d PRead s
      else pgoto d (PErr err) s)"

text \<open>\<open>dst.Write\<close> of all the data succeeded; or it failed after the first \<open>n\<close> bytes.\<close>

definition write_done :: "dir \<Rightarrow> bytes \<Rightarrow> read_err \<Rightarrow> pipe \<Rightarrow> pipe" where
  "write_done d data err s =
     (let s = s\<lparr>delivered := (delivered s)(d := delivered s d @ data)\<rparr> in
      if err = NoErr then pgoto d PRead s else pgoto d (PErr err) s)"

definition write_failed :: "dir \<Rightarrow> bytes \<Rightarrow> nat \<Rightarrow> pipe \<Rightarrow> pipe" where
  "write_failed d data n s =
     pgoto d PExit (shutdown (s\<lparr>delivered := (delivered s)(d := delivered s d @ take n data)\<rparr>))"

text \<open>The error branch: the idle verdict on a timeout, the half-close on an end of stream (\<open>cw\<close>: does \<open>CloseWrite\<close> succeed), teardown otherwise.\<close>

definition handle_err :: "dir \<Rightarrow> read_err \<Rightarrow> bool \<Rightarrow> pipe \<Rightarrow> pipe" where
  "handle_err d err cw s =
     (case err of
        Timeout \<Rightarrow>
          (case idleVerdict (clock s) (ptc s) of (expired, zombie) \<Rightarrow>
             if \<not> expired then pgoto d PRead s
             else pgoto d PExit (shutdown (if zombie then s\<lparr>kills := Suc (kills s)\<rparr> else s)))
      | EOF \<Rightarrow>
          if cw then pgoto d PExit (s\<lparr>fin_out := (fin_out s)(d := True)\<rparr>)
          else pgoto d PExit (shutdown s)
      | _ \<Rightarrow> pgoto d PExit (shutdown s))"

text \<open>
  What a \<open>Read\<close> may return: on an open connection some of the unread bytes, with end of
  stream only after the last of them and only if the peer has ended, a failure only if the
  connection has failed, a timeout at any moment; on a connection closed locally no data and
  an error or end of stream (the netstack reports either).
\<close>

definition may_read :: "dir \<Rightarrow> bytes \<Rightarrow> read_err \<Rightarrow> pipe \<Rightarrow> bool" where
  "may_read d data err s \<longleftrightarrow>
     (if closed s d then data = [] \<and> err \<in> {EOF, OtherErr}
      else prefix data (unread s d) \<and> length data \<le> buf_size \<and>
        (err = EOF \<longrightarrow> data = unread s d \<and> fin_in s d) \<and> (err = OtherErr \<longrightarrow> broken s d) \<and>
        (err = NoErr \<longrightarrow> data \<noteq> []))"

text \<open>What the run records of a \<open>Read\<close>.\<close>

definition see :: "dir \<Rightarrow> bytes \<Rightarrow> pipe \<Rightarrow> pipe" where
  "see d data s = (if data = [] then s else s\<lparr>seen := (seen s)(d := clock s)\<rparr>)"

text \<open>
  A \<open>Write\<close> fails only on a connection that has failed, that was closed locally, or that has
  not taken the data by the deadline; \<open>CloseWrite\<close>, which both kinds of connection have, only
  on one that has failed or was closed locally.
\<close>

inductive pstep :: "pipe \<Rightarrow> pipe \<Rightarrow> bool" where
  read_step: "ppc s d = PRead \<Longrightarrow> may_read d data err s \<Longrightarrow> pstep s (see d data (after_read d data err s))"
| write_step: "ppc s d = PWrite data err \<Longrightarrow> \<not> closed s (other d) \<Longrightarrow> pstep s (write_done d data err s)"
| write_fails: "ppc s d = PWrite data err \<Longrightarrow>
     broken s (other d) \<or> closed s (other d) \<or> wdeadline s d \<le> clock s \<Longrightarrow> pstep s (write_failed d data n s)"
| error_step: "ppc s d = PErr err \<Longrightarrow> cw \<or> broken s (other d) \<or> closed s (other d) \<Longrightarrow> pstep s (handle_err d err cw s)"
| join_step: "ppc s Up = PExit \<Longrightarrow> ppc s Down = PExit \<Longrightarrow> \<not> returned s \<Longrightarrow>
     pstep s ((shutdown s)\<lparr>returned := True\<rparr>)"
| arrive: "\<not> fin_in s d \<Longrightarrow> pstep s (s\<lparr>arrived := (arrived s)(d := arrived s d @ b),
     unread := (unread s)(d := unread s d @ b)\<rparr>)"
| peer_end: "pstep s (s\<lparr>fin_in := (fin_in s)(d := True)\<rparr>)"
| failure: "pstep s (s\<lparr>broken := (broken s)(d := True)\<rparr>)"
| tick: "0 \<le> t \<Longrightarrow> pstep s (s\<lparr>clock := clock s + t\<rparr>)"
| close_app: "pstep s (s\<lparr>closed := (closed s)(Up := True)\<rparr>)"

definition pipe_init :: "trackedConn \<Rightarrow> int \<Rightarrow> pipe" where
  "pipe_init t now =
     \<lparr>ptc = t\<lparr>lastTxMs := now, lastRxMs := now\<rparr>, clock = now, kills = 0, arrived = (\<lambda>_. []),
      unread = (\<lambda>_. []), fin_in = (\<lambda>_. False), broken = (\<lambda>_. False), closed = (\<lambda>_. False),
      delivered = (\<lambda>_. []), fin_out = (\<lambda>_. False),
      wdeadline = (\<lambda>_. 0), seen = (\<lambda>_. now), ppc = (\<lambda>_. PRead), shut = False, returned = False\<rparr>"

inductive preach :: "pipe \<Rightarrow> bool" where
  init: "preach (pipe_init t now)"
| step: "preach s \<Longrightarrow> pstep s s' \<Longrightarrow> preach s'"

subsection \<open>The streams\<close>

text \<open>What a goroutine holds in its buffer.\<close>

fun held :: "ppc \<Rightarrow> bytes" where
  "held (PWrite data err) = data"
| "held _ = []"

fun held_err :: "ppc \<Rightarrow> read_err" where
  "held_err (PWrite data err) = err"
| "held_err (PErr err) = err"
| "held_err _ = NoErr"

text \<open>
  A direction that has not failed has delivered, holds and has still to read, in this order,
  exactly what arrived; after an exit what it delivered is a prefix. An end of stream in hand
  means that nothing is left to read, unless the connection was closed locally.
\<close>

definition stream_ok :: "pipe \<Rightarrow> dir \<Rightarrow> bool" where
  "stream_ok s d \<longleftrightarrow>
     (if ppc s d = PExit then prefix (delivered s d) (arrived s d)
      else arrived s d = delivered s d @ held (ppc s d) @ unread s d) \<and>
     (held_err (ppc s d) = EOF \<longrightarrow> unread s d = [] \<and> fin_in s d \<or> closed s d) \<and>
     (fin_out s d \<longrightarrow> ppc s d = PExit \<and> (delivered s d = arrived s d \<and> fin_in s d \<or> closed s d)) \<and>
     ppc s d \<noteq> PErr NoErr"

lemmas pipe_defs = after_read_def write_done_def write_failed_def handle_err_def pgoto_def touch_def
  shutdown_def Let_def


lemma stream_ok_frame:
  "stream_ok s d \<Longrightarrow> ppc s' d = ppc s d \<Longrightarrow> delivered s' d = delivered s d \<Longrightarrow> arrived s' d = arrived s d \<Longrightarrow>
   unread s' d = unread s d \<Longrightarrow> fin_in s' d = fin_in s d \<Longrightarrow> fin_out s' d = fin_out s d \<Longrightarrow>
   (closed s d \<Longrightarrow> closed s' d) \<Longrightarrow> stream_ok s' d"
  by (auto simp: stream_ok_def)

lemma after_read_frame:
  "arrived (after_read d data err s) = arrived s" "delivered (after_read d data err s) = delivered s"
  "fin_in (after_read d data err s) = fin_in s" "fin_out (after_read d data err s) = fin_out s"
  "closed (after_read d data err s) = closed s" "shut (after_read d data err s) = shut s"
  "kills (after_read d data err s) = kills s" "clock (after_read d data err s) = clock s"
  "returned (after_read d data err s) = returned s" "broken (after_read d data err s) = broken s"
  "unread (after_read d data err s) = (unread s)(d := drop (length data) (unread s d))"
  "ppc (after_read d data err s) =
     (ppc s)(d := (if data \<noteq> [] then PWrite data err else if err = NoErr then PRead else PErr err))"
  by (cases d; simp add: after_read_def pgoto_def touch_def Let_def)+

lemma see_frame [simp]:
  "arrived (see d data s) = arrived s" "delivered (see d data s) = delivered s"
  "fin_in (see d data s) = fin_in s" "fin_out (see d data s) = fin_out s"
  "closed (see d data s) = closed s" "shut (see d data s) = shut s"
  "kills (see d data s) = kills s" "clock (see d data s) = clock s"
  "returned (see d data s) = returned s" "broken (see d data s) = broken s"
  "unread (see d data s) = unread s" "ppc (see d data s) = ppc s" "ptc (see d data s) = ptc s"
  "wdeadline (see d data s) = wdeadline s"
  "seen (see d data s) = (if data = [] then seen s else (seen s)(d := clock s))"
  by (simp_all add: see_def)

lemma shutdown_frame [simp]:
  "arrived (shutdown s) = arrived s" "delivered (shutdown s) = delivered s" "fin_in (shutdown s) = fin_in s"
  "fin_out (shutdown s) = fin_out s" "kills (shutdown s) = kills s" "clock (shutdown s) = clock s"
  "returned (shutdown s) = returned s" "unread (shutdown s) = unread s" "ppc (shutdown s) = ppc s"
  "ptc (shutdown s) = ptc s" "shut (shutdown s)" "closed s d \<Longrightarrow> closed (shutdown s) d"
  "broken (shutdown s) = broken s"
  by (simp_all add: shutdown_def)

lemma write_done_frame:
  "arrived (write_done d data err s) = arrived s" "unread (write_done d data err s) = unread s"
  "delivered (write_done d data err s) = (delivered s)(d := delivered s d @ data)"
  "fin_in (write_done d data err s) = fin_in s" "fin_out (write_done d data err s) = fin_out s"
  "closed (write_done d data err s) = closed s" "shut (write_done d data err s) = shut s"
  "kills (write_done d data err s) = kills s" "clock (write_done d data err s) = clock s"
  "returned (write_done d data err s) = returned s" "ptc (write_done d data err s) = ptc s"
  "broken (write_done d data err s) = broken s"
  "ppc (write_done d data err s) = (ppc s)(d := (if err = NoErr then PRead else PErr err))"
  by (simp_all add: write_done_def pgoto_def Let_def)

lemma write_failed_frame:
  "arrived (write_failed d data n s) = arrived s" "unread (write_failed d data n s) = unread s"
  "delivered (write_failed d data n s) = (delivered s)(d := delivered s d @ take n data)"
  "fin_in (write_failed d data n s) = fin_in s" "fin_out (write_failed d data n s) = fin_out s"
  "closed s u \<Longrightarrow> closed (write_failed d data n s) u" "shut (write_failed d data n s)"
  "kills (write_failed d data n s) = kills s" "clock (write_failed d data n s) = clock s"
  "returned (write_failed d data n s) = returned s" "ptc (write_failed d data n s) = ptc s"
  "ppc (write_failed d data n s) = (ppc s)(d := PExit)"
  by (simp_all add: write_failed_def pgoto_def)

lemma handle_err_frame:
  "arrived (handle_err d err cw s) = arrived s" "unread (handle_err d err cw s) = unread s"
  "delivered (handle_err d err cw s) = delivered s" "fin_in (handle_err d err cw s) = fin_in s"
  "closed s u \<Longrightarrow> closed (handle_err d err cw s) u" "clock (handle_err d err cw s) = clock s"
  "returned (handle_err d err cw s) = returned s" "ptc (handle_err d err cw s) = ptc s"
  "fin_out (handle_err d err cw s) = (fin_out s)(d := fin_out s d \<or> err = EOF \<and> cw)"
  "ppc (handle_err d err cw s) =
     (ppc s)(d := (if err = Timeout \<and> \<not> fst (idleVerdict (clock s) (ptc s)) then PRead else PExit))"
  by (auto simp: handle_err_def pgoto_def fun_eq_iff split: read_err.splits prod.splits)

lemma stream_step:
  assumes "pstep s s'" and "\<And>d. stream_ok s d"
  shows "stream_ok s' d"
  using assms(1)
proof cases
  case (read_step d' data err)
  have o: "stream_ok s d" "stream_ok s d'" by (rule assms(2))+
  show ?thesis
  proof (cases "d = d'")
    case True
    have pc: "ppc s d' = PRead" by (rule read_step(2))
    consider "closed s d'" "data = []" "err \<in> {EOF, OtherErr}"
      | rest where "\<not> closed s d'" "unread s d' = data @ rest" "err = EOF \<Longrightarrow> rest = [] \<and> fin_in s d'" "err = NoErr \<Longrightarrow> data \<noteq> []"
      using read_step(3) by (auto simp: may_read_def prefix_def split: if_splits)
    then show ?thesis
    proof cases
      case 1
      with o(2) pc show ?thesis
        by (auto simp: read_step(1) True stream_ok_def after_read_frame)
    next
      case (2 rest)
      with o(2) pc show ?thesis
        by (cases "data = []"; cases err) (simp_all add: read_step(1) True stream_ok_def after_read_frame)
    qed
  next
    case False
    then show ?thesis
      by (intro stream_ok_frame [OF o(1)]) (simp_all add: read_step(1) after_read_frame)
  qed
next
  case (write_step d' data err)
  with assms(2) [of d] show ?thesis by (auto simp: stream_ok_def write_done_frame)
next
  case (write_fails d' data err n)
  show ?thesis
  proof (cases "d = d'")
    case True
    have "arrived s d = delivered s d @ data @ unread s d" "\<not> fin_out s d"
      using assms(2) [of d] write_fails(2) True by (auto simp: stream_ok_def)
    moreover have "prefix (delivered s d @ take n data) (delivered s d @ data @ unread s d)"
      by (metis append_assoc append_take_drop_id prefixI same_prefix_prefix)
    ultimately show ?thesis
      by (simp add: write_fails(1) True stream_ok_def write_failed_frame)
  next
    case False
    then show ?thesis
      by (intro stream_ok_frame [OF assms(2)]) (simp_all add: write_fails(1) write_failed_frame)
  qed
next
  case (error_step d' err cw)
  show ?thesis
  proof (cases "d = d'")
    case True
    have o: "arrived s d = delivered s d @ unread s d" "err = EOF \<Longrightarrow> unread s d = [] \<and> fin_in s d \<or> closed s d" "\<not> fin_out s d"
      using assms(2) [of d] error_step(2) True by (auto simp: stream_ok_def)
    then have "err = EOF \<and> cw \<Longrightarrow> delivered s d = arrived s d \<and> fin_in s d \<or> closed (handle_err d' err cw s) d"
      using True handle_err_frame(5) [of s d d' err cw] by auto
    with o show ?thesis
      by (auto simp: error_step(1) True stream_ok_def handle_err_frame)
  next
    case False
    then show ?thesis
      by (intro stream_ok_frame [OF assms(2)]) (simp_all add: error_step(1) handle_err_frame)
  qed
next
  case join_step
  then show ?thesis by (intro stream_ok_frame [OF assms(2)]) simp_all
next
  case (arrive d' b)
  with assms(2) [of d] show ?thesis by (auto simp: stream_ok_def)
qed (use assms(2) [of d] in \<open>auto simp: stream_ok_def\<close>)

lemma stream_reach: "preach s \<Longrightarrow> stream_ok s d"
proof (induction arbitrary: d rule: preach.induct)
  case (init t now)
  show ?case by (simp add: stream_ok_def pipe_init_def)
qed (rule stream_step)

subsection \<open>Teardown\<close>

text \<open>
  Shutting down closes both connections, and nothing else closes the proxy's; a goroutine
  that ended while the flow is up has passed an end of stream on; the pipe has returned only
  with everything closed; each goroutine counts at most one zombie, as it ends.
\<close>

definition teardown_ok :: "pipe \<Rightarrow> bool" where
  "teardown_ok s \<longleftrightarrow> (shut s \<longrightarrow> closed s Up \<and> closed s Down) \<and> (closed s Down \<longrightarrow> shut s) \<and>
     (\<forall>d. ppc s d = PExit \<longrightarrow> \<not> shut s \<longrightarrow> fin_out s d) \<and>
     (returned s \<longrightarrow> shut s \<and> ppc s Up = PExit \<and> ppc s Down = PExit) \<and>
     kills s \<le> (if ppc s Up = PExit then 1 else 0) + (if ppc s Down = PExit then 1 else 0)"

lemma not_closed_Down_ok: "teardown_ok s \<Longrightarrow> \<not> shut s \<Longrightarrow> \<not> closed s Down"
  by (auto simp: teardown_ok_def)

lemma shutdown_closed: "\<not> shut s \<Longrightarrow> closed (shutdown s) d" "shut s \<Longrightarrow> shutdown s = s"
  by (simp_all add: shutdown_def)

lemma handle_err_shut:
  "\<not> shut s \<Longrightarrow> shut (handle_err d err cw s) \<longleftrightarrow>
     (err = Timeout \<and> fst (idleVerdict (clock s) (ptc s)) \<or> err = EOF \<and> \<not> cw \<or> err \<in> {NoErr, OtherErr})"
  "shut s \<Longrightarrow> shut (handle_err d err cw s)"
  "kills (handle_err d err cw s) = kills s +
     (if err = Timeout \<and> fst (idleVerdict (clock s) (ptc s)) \<and> snd (idleVerdict (clock s) (ptc s)) then 1 else 0)"
  "closed (handle_err d err cw s) u = (closed s u \<or> shut (handle_err d err cw s) \<and> \<not> shut s)"
  by (auto simp: handle_err_def pgoto_def shutdown_def split: read_err.splits prod.splits)

lemma write_failed_closed: "closed (write_failed d data n s) u = (closed s u \<or> \<not> shut s)"
  by (auto simp: write_failed_def pgoto_def shutdown_def)

lemma teardown_step:
  assumes "pstep s s'" and ok: "teardown_ok s"
  shows "teardown_ok s'"
  using assms(1)
proof cases
  case (read_step d data err)
  with ok show ?thesis by (auto simp: teardown_ok_def after_read_frame)
next
  case (write_step d data err)
  with ok show ?thesis by (auto simp: teardown_ok_def write_done_frame)
next
  case (write_fails d data err n)
  with ok show ?thesis
    by (cases d) (auto simp: teardown_ok_def write_failed_frame write_failed_closed)
next
  case (error_step d err cw)
  have r: "\<not> returned s" using ok error_step(2) by (cases d) (auto simp: teardown_ok_def)
  have k: "fst (idleVerdict (clock s) (ptc s)) \<Longrightarrow> err = Timeout \<Longrightarrow> ppc s' d = PExit"
    by (simp add: error_step(1) handle_err_frame)
  show ?thesis
  proof (cases "shut s")
    case True
    with ok error_step r show ?thesis
      by (cases d) (auto simp: teardown_ok_def handle_err_frame handle_err_shut split: if_splits)
  next
    case False
    with ok error_step r show ?thesis
      by (cases d; cases err) (auto simp: teardown_ok_def handle_err_frame handle_err_shut split: if_splits)
  qed
next
  case join_step
  with ok show ?thesis
    by (cases "shut s") (auto simp: teardown_ok_def shutdown_closed)
next
  case (close_app)
  with ok show ?thesis by (auto simp: teardown_ok_def)
qed (use ok in \<open>auto simp: teardown_ok_def\<close>)

lemma teardown_reach: "preach s \<Longrightarrow> teardown_ok s"
proof (induction rule: preach.induct)
  case (init t now)
  show ?case by (simp add: teardown_ok_def pipe_init_def)
qed (rule teardown_step)

lemma not_closed_Down: "preach s \<Longrightarrow> \<not> shut s \<Longrightarrow> \<not> closed s Down"
  using teardown_reach not_closed_Down_ok by blast

text \<open>How many steps of its own a goroutine may still take once the flow is down.\<close>

fun rank :: "ppc \<Rightarrow> nat" where
  "rank PExit = 0"
| "rank (PErr err) = (if err = Timeout then 3 else 1)"
| "rank PRead = 2"
| "rank (PWrite data err) = 4"

lemma rank_step:
  assumes "pstep s s'" and "shut s" and "teardown_ok s"
  shows "shut s' \<and> (ppc s' = ppc s \<or> (\<exists>d. rank (ppc s' d) < rank (ppc s d) \<and> ppc s' (other d) = ppc s (other d)))"
  using assms(1)
proof cases
  case (read_step d data err)
  have "closed s d" using assms(2,3) by (cases d) (auto simp: teardown_ok_def)
  with read_step(3) have "data = []" "err \<in> {EOF, OtherErr}" by (auto simp: may_read_def)
  with read_step assms(2) show ?thesis
    by (cases d) (auto simp: after_read_frame intro: exI [of _ d])
next
  case (write_step d data err)
  have "closed s (other d)" using assms(2,3) by (cases d) (auto simp: teardown_ok_def)
  with write_step show ?thesis by simp
next
  case (write_fails d data err n)
  then show ?thesis by (cases d) (auto simp: write_failed_frame intro: exI [of _ d])
next
  case (error_step d err cw)
  then show ?thesis using handle_err_shut(2) [OF assms(2)]
    by (cases d) (auto simp: handle_err_frame intro: exI [of _ d])
qed (use assms(2) in auto)

text \<open>The goroutines' own steps are those that change a program counter or return.\<close>

definition pipe_own :: "pipe \<Rightarrow> pipe \<Rightarrow> bool" where
  "pipe_own s s' \<longleftrightarrow> ppc s' \<noteq> ppc s \<or> returned s' \<noteq> returned s"

definition pipe_down :: "pipe \<Rightarrow> bool" where
  "pipe_down s \<longleftrightarrow> shut s \<and> teardown_ok s"

definition pipe_load :: "pipe \<Rightarrow> nat" where
  "pipe_load s = rank (ppc s Up) + rank (ppc s Down) + (if returned s then 0 else 1)"

lemma returned_step: "pstep s s' \<Longrightarrow> returned s' \<noteq> returned s \<Longrightarrow> ppc s' = ppc s \<and> \<not> returned s \<and> returned s'"
  by (cases rule: pstep.cases)
    (auto simp: after_read_frame write_done_frame write_failed_frame handle_err_frame)

lemma down_step_load:
  assumes "pstep s s'" and "pipe_down s"
  shows "pipe_load s' < pipe_load s \<or> \<not> pipe_own s s' \<and> pipe_load s' = pipe_load s"
proof -
  from rank_step [OF assms(1)] assms(2) have r: "ppc s' = ppc s \<or>
      (\<exists>d. rank (ppc s' d) < rank (ppc s d) \<and> ppc s' (other d) = ppc s (other d))"
    by (simp add: pipe_down_def)
  show ?thesis
  proof (cases "returned s' = returned s")
    case True
    from r show ?thesis
    proof
      assume "\<exists>d. rank (ppc s' d) < rank (ppc s d) \<and> ppc s' (other d) = ppc s (other d)"
      then obtain d where d: "rank (ppc s' d) < rank (ppc s d)" "ppc s' (other d) = ppc s (other d)" by blast
      then show ?thesis using True by (cases d) (simp_all add: pipe_load_def)
    qed (use True in \<open>simp add: pipe_own_def pipe_load_def\<close>)
  next
    case False
    from returned_step [OF assms(1) this] show ?thesis by (simp add: pipe_load_def)
  qed
qed

lemma pipe_progress:
  assumes "pipe_down s" and "\<not> returned s"
  shows "\<exists>s'. pstep s s' \<and> pipe_own s s'"
proof -
  have step: "\<exists>s'. pstep s s' \<and> pipe_own s s'" if "ppc s d \<noteq> PExit" for d
  proof (cases "ppc s d")
    case PRead
    have "closed s d" using assms(1) by (cases d) (auto simp: pipe_down_def teardown_ok_def)
    then have "may_read d [] OtherErr s" by (simp add: may_read_def)
    from pstep.read_step [OF PRead this] show ?thesis
      using PRead by (intro exI [of _ "see d [] (after_read d [] OtherErr s)"]) (auto simp: pipe_own_def after_read_frame fun_eq_iff intro: exI [of _ d])
  next
    case (PWrite data err)
    have "closed s (other d)" using assms(1) by (cases d) (auto simp: pipe_down_def teardown_ok_def)
    then have "broken s (other d) \<or> closed s (other d) \<or> wdeadline s d \<le> clock s" by simp
    from pstep.write_fails [OF PWrite this, of 0] show ?thesis
      using PWrite by (intro exI [of _ "write_failed d data 0 s"]) (auto simp: pipe_own_def write_failed_frame fun_eq_iff intro: exI [of _ d])
  next
    case (PErr err)
    from pstep.error_step [OF PErr, of True] show ?thesis
      using PErr by (intro exI [of _ "handle_err d err True s"]) (auto simp: pipe_own_def handle_err_frame fun_eq_iff intro: exI [of _ d])
  qed (use that in simp)
  show ?thesis
  proof (cases "ppc s Up = PExit \<and> ppc s Down = PExit")
    case True
    then show ?thesis
      using pstep.join_step [of s] assms(2) by (intro exI [of _ "(shutdown s)\<lparr>returned := True\<rparr>"]) (auto simp: pipe_own_def)
  qed (use step in blast)
qed

interpretation tcp_pipe: draining pstep pipe_own pipe_down returned pipe_load
proof unfold_locales
  fix s s' assume d: "pipe_down s" and st: "pstep s s'"
  show "pipe_down s'"
    using rank_step [OF st] teardown_step [OF st] d by (auto simp: pipe_down_def)
  show "pipe_own s s' \<Longrightarrow> pipe_load s' < pipe_load s"
    using down_step_load [OF st d] by blast
  show "\<not> pipe_own s s' \<Longrightarrow> pipe_load s' \<le> pipe_load s"
    using down_step_load [OF st d] by fastforce
next
  fix s assume "pipe_down s" "\<not> returned s"
  then show "\<exists>s'. pstep s s' \<and> pipe_own s s'" by (rule pipe_progress)
qed

subsection \<open>Idleness\<close>

lemma idleVerdict_iff:
  "fst (idleVerdict now t) \<longleftrightarrow> max (lastTxMs t) (lastRxMs t) + 300000 \<le> now \<or>
     lastRxMs t < lastTxMs t \<and> lastTxMs t + 120000 \<le> now"
  "snd (idleVerdict now t) \<longleftrightarrow> lastRxMs t < lastTxMs t \<and> lastTxMs t + 120000 \<le> now \<and> now < lastTxMs t + 300000"
  by (auto simp: idleVerdict_def Let_def tcpIdleTimeout_ms_def tcpZombieTimeout_ms_def max_def)

text \<open>A run that ends with both goroutines finding the same zombie.\<close>

definition zombie_run :: "pipe list" where
  "zombie_run =
     (let s0 = pipe_init zero_tc 0;
          s1 = s0\<lparr>clock := clock s0 + 1\<rparr>;
          s2 = s1\<lparr>arrived := (arrived s1)(Up := arrived s1 Up @ [1]), unread := (unread s1)(Up := unread s1 Up @ [1])\<rparr>;
          s3 = see Up [1] (after_read Up [1] NoErr s2);
          s4 = write_done Up [1] NoErr s3;
          s5 = s4\<lparr>clock := clock s4 + 120000\<rparr>;
          s6 = see Up [] (after_read Up [] Timeout s5);
          s7 = see Down [] (after_read Down [] Timeout s6);
          s8 = handle_err Up Timeout True s7
      in [s0, s1, s2, s3, s4, s5, s6, s7, s8, handle_err Down Timeout True s8])"

lemma zombie_run_reach: "preach (last zombie_run) \<and> kills (last zombie_run) = 2 \<and> shut (last zombie_run)"
proof -
  define s0 where "s0 = pipe_init zero_tc 0"
  define s1 where "s1 = s0\<lparr>clock := clock s0 + 1\<rparr>"
  define s2 where "s2 = s1\<lparr>arrived := (arrived s1)(Up := arrived s1 Up @ [1]), unread := (unread s1)(Up := unread s1 Up @ [1])\<rparr>"
  define s3 where "s3 = see Up [1] (after_read Up [1] NoErr s2)"
  define s4 where "s4 = write_done Up [1] NoErr s3"
  define s5 where "s5 = s4\<lparr>clock := clock s4 + 120000\<rparr>"
  define s6 where "s6 = see Up [] (after_read Up [] Timeout s5)"
  define s7 where "s7 = see Down [] (after_read Down [] Timeout s6)"
  define s8 where "s8 = handle_err Up Timeout True s7"
  define s9 where "s9 = handle_err Down Timeout True s8"
  have init: "preach s0" unfolding s0_def by (rule preach.init)
  have 1: "preach s1" unfolding s1_def by (rule preach.step [OF init], rule pstep.tick) simp
  have 2: "preach s2" unfolding s2_def by (rule preach.step [OF 1], rule pstep.arrive) (simp add: s1_def s0_def pipe_init_def)
  have 3: "preach s3" unfolding s3_def by (rule preach.step [OF 2], rule pstep.read_step)
      (simp_all add: s2_def s1_def s0_def pipe_init_def may_read_def buf_size_def)
  have p3: "ppc s3 Up = PWrite [1] NoErr" "ppc s3 Down = PRead" "closed s3 = (\<lambda>_. False)"
    by (simp_all add: s3_def s2_def s1_def s0_def after_read_frame pipe_init_def)
  have 4: "preach s4" unfolding s4_def by (rule preach.step [OF 3], rule pstep.write_step) (simp_all add: p3)
  have 5: "preach s5" unfolding s5_def by (rule preach.step [OF 4], rule pstep.tick) simp
  have p5: "ppc s5 Up = PRead" "ppc s5 Down = PRead" "closed s5 = (\<lambda>_. False)"
    by (simp_all add: s5_def s4_def write_done_frame p3)
  have 6: "preach s6" unfolding s6_def
    by (rule preach.step [OF 5], rule pstep.read_step) (simp_all add: may_read_def p5)
  have p6: "ppc s6 Up = PErr Timeout" "ppc s6 Down = PRead" "closed s6 = (\<lambda>_. False)"
    by (simp_all add: s6_def after_read_frame p5)
  have 7: "preach s7" unfolding s7_def
    by (rule preach.step [OF 6], rule pstep.read_step) (simp_all add: may_read_def p6)
  have p7: "ppc s7 Up = PErr Timeout" "ppc s7 Down = PErr Timeout"
    by (simp_all add: s7_def after_read_frame p6)
  have 8: "preach s8" unfolding s8_def by (rule preach.step [OF 7], rule pstep.error_step) (simp_all add: p7)
  have p8: "ppc s8 Down = PErr Timeout" by (simp add: s8_def handle_err_frame p7)
  have 9: "preach s9" unfolding s9_def by (rule preach.step [OF 8], rule pstep.error_step) (simp_all add: p8)
  have t: "lastTxMs (ptc s7) = 1" "lastRxMs (ptc s7) = 0" "clock s7 = 120001" "kills s7 = 0"
    by (simp_all add: s7_def s6_def s5_def s4_def s3_def s2_def s1_def s0_def after_read_def write_done_def
        touch_def pgoto_def Let_def pipe_init_def zero_tc_def)
  have v: "fst (idleVerdict (clock s7) (ptc s7))" "snd (idleVerdict (clock s7) (ptc s7))"
    unfolding idleVerdict_iff t by simp_all
  have s8: "kills s8 = 1" "clock s8 = clock s7" "ptc s8 = ptc s7"
    using v t(4) by (simp_all add: s8_def handle_err_shut handle_err_frame)
  have down: "shut s8" by (cases "shut s7") (simp_all add: s8_def handle_err_shut v)
  have "kills s9 = 2" using v s8 by (simp add: s9_def handle_err_shut)
  moreover have "shut s9" unfolding s9_def using handle_err_shut(2) [OF down] .
  moreover have "last zombie_run = s9" by (simp add: zombie_run_def Let_def s9_def s8_def s7_def s6_def s5_def s4_def s3_def s2_def s1_def s0_def)
  ultimately show ?thesis using 9 by simp
qed

lemma kills_bound: "preach s \<Longrightarrow> kills s \<le> 2"
  using teardown_reach [of s] by (auto simp: teardown_ok_def split: if_splits)

text \<open>
  The activity stamps are the times payload was last read, a write's deadline is five minutes
  after that, and a read failure in hand means that the connection read has failed or was
  closed locally.
\<close>

definition causes_ok :: "pipe \<Rightarrow> bool" where
  "causes_ok s \<longleftrightarrow> lastTxMs (ptc s) = seen s Up \<and> lastRxMs (ptc s) = seen s Down \<and>
     (\<forall>d. (held (ppc s d) \<noteq> [] \<longrightarrow> wdeadline s d = seen s d + 300000) \<and>
       (\<forall>err. ppc s d \<noteq> PWrite [] err) \<and>
       (held_err (ppc s d) = OtherErr \<longrightarrow> broken s d \<or> closed s d))"

lemma after_read_stamps:
  "lastTxMs (ptc (after_read d data err s)) = (if d = Up \<and> data \<noteq> [] then clock s else lastTxMs (ptc s))"
  "lastRxMs (ptc (after_read d data err s)) = (if d = Down \<and> data \<noteq> [] then clock s else lastRxMs (ptc s))"
  "wdeadline (after_read d data err s) = (if data = [] then wdeadline s else (wdeadline s)(d := clock s + 300000))"
  "seen (after_read d data err s) = seen s"
  by (cases d; simp add: after_read_def pgoto_def touch_def Let_def tcpIdleTimeout_ms_def)+

lemma stamps_kept [simp]:
  "seen (shutdown s) = seen s" "wdeadline (shutdown s) = wdeadline s"
  "seen (write_done d data err s) = seen s" "wdeadline (write_done d data err s) = wdeadline s"
  "seen (write_failed d data n s) = seen s" "wdeadline (write_failed d data n s) = wdeadline s"
  "seen (handle_err d err cw s) = seen s" "wdeadline (handle_err d err cw s) = wdeadline s"
  "broken (write_failed d data n s) = broken s" "broken (handle_err d err cw s) = broken s"
  by (auto simp: pipe_defs split: read_err.splits prod.splits)

lemma causes_step:
  assumes "pstep s s'" and ok: "causes_ok s"
  shows "causes_ok s'"
  using assms(1)
proof cases
  case (read_step d data err)
  have "err = OtherErr \<Longrightarrow> broken s d \<or> closed s d" using read_step(3) by (auto simp: may_read_def split: if_splits)
  with ok read_step show ?thesis
    by (cases d) (auto simp: causes_ok_def after_read_frame after_read_stamps)
next
  case (write_step d data err)
  then have "held_err (ppc s d) = err" by simp
  with ok write_step show ?thesis by (auto simp: causes_ok_def write_done_frame)
next
  case (write_fails d data err n)
  with ok show ?thesis by (auto simp: causes_ok_def write_failed_frame)
next
  case (error_step d err cw)
  with ok show ?thesis by (auto simp: causes_ok_def handle_err_frame)
qed (use ok in \<open>auto simp: causes_ok_def\<close>)

lemma causes_reach: "preach s \<Longrightarrow> causes_ok s"
proof (induction rule: preach.induct)
  case (init t now)
  show ?case by (simp add: causes_ok_def pipe_init_def)
qed (rule causes_step)

subsection \<open>Half-close\<close>





text \<open>The app has sent a request and shut down its side; the request is delivered.\<close>

definition eof_state :: pipe where
  "eof_state =
     (let s0 = pipe_init zero_tc 0;
          s1 = s0\<lparr>arrived := (arrived s0)(Up := arrived s0 Up @ [1]), unread := (unread s0)(Up := unread s0 Up @ [1])\<rparr>;
          s2 = s1\<lparr>fin_in := (fin_in s1)(Up := True)\<rparr>
      in write_done Up [1] EOF (see Up [1] (after_read Up [1] EOF s2)))"

lemma eof_state_facts:
  "ppc eof_state = (\<lambda>_. PRead)(Up := PErr EOF)" "closed eof_state = (\<lambda>_. False)" "broken eof_state = (\<lambda>_. False)"
  "shut eof_state = False" "fin_out eof_state = (\<lambda>_. False)" "delivered eof_state Up = [1]"
  by (auto simp: eof_state_def Let_def write_done_frame after_read_frame pipe_init_def)

lemma eof_state_reach: "preach eof_state"
proof -
  define s0 where "s0 = pipe_init zero_tc 0"
  define s1 where "s1 = s0\<lparr>arrived := (arrived s0)(Up := arrived s0 Up @ [1]), unread := (unread s0)(Up := unread s0 Up @ [1])\<rparr>"
  define s2 where "s2 = s1\<lparr>fin_in := (fin_in s1)(Up := True)\<rparr>"
  define s3 where "s3 = see Up [1] (after_read Up [1] EOF s2)"
  note defs = s3_def s2_def s1_def s0_def
  have 0: "preach s0" unfolding s0_def by (rule preach.init)
  have 1: "preach s1" unfolding s1_def by (rule preach.step [OF 0], rule pstep.arrive) (simp add: s0_def pipe_init_def)
  have 2: "preach s2" unfolding s2_def by (rule preach.step [OF 1], rule pstep.peer_end)
  have 3: "preach s3" unfolding s3_def by (rule preach.step [OF 2], rule pstep.read_step)
      (simp_all add: s2_def s1_def s0_def pipe_init_def may_read_def buf_size_def)
  have "preach (write_done Up [1] EOF s3)"
    by (rule preach.step [OF 3], rule pstep.write_step) (simp_all add: defs after_read_frame pipe_init_def)
  then show ?thesis by (simp add: eof_state_def Let_def defs)
qed



subsection \<open>Properties\<close>

text \<open>
  C4: the pipe keeps both byte streams intact. In every reachable state and for both
  directions, what has been delivered is a prefix of what arrived; while the direction runs,
  nothing is lost between the two: delivered, in the buffer and still unread make up exactly
  what arrived. A step that passes an end of stream on comes after the last byte: by then all
  that arrived has been delivered and the peer has ended, unless the connection the direction
  reads was closed locally before (\<open>CloseAllConnections\<close>), in which case an end of stream can
  be passed on with bytes undelivered.
\<close>

theorem pipe_streams:
  assumes "preach s"
  shows "prefix (delivered s d) (arrived s d) \<and>
    (ppc s d \<noteq> PExit \<longrightarrow> arrived s d = delivered s d @ held (ppc s d) @ unread s d) \<and>
    (fin_out s d \<longrightarrow> delivered s d = arrived s d \<and> fin_in s d \<or> closed s d) \<and>
    (\<forall>s'. pstep s s' \<and> fin_out s' d \<and> \<not> fin_out s d \<and> \<not> closed s d \<longrightarrow> delivered s' d = arrived s' d \<and> fin_in s' d)"
proof -
  have "delivered s' d = arrived s' d \<and> fin_in s' d"
    if "pstep s s'" "fin_out s' d" "\<not> fin_out s d" "\<not> closed s d" for s'
    using that(1)
  proof cases
    case (error_step d' err cw)
    with that have "ppc s d = PErr EOF" by (auto simp: handle_err_frame split: if_splits)
    with stream_reach [OF assms, of d] that(4) show ?thesis
      by (simp add: stream_ok_def error_step(1) handle_err_frame)
  qed (use that in \<open>simp_all add: after_read_frame write_done_frame write_failed_frame\<close>)
  with stream_reach [OF assms, of d] show ?thesis by (auto simp: stream_ok_def split: if_splits)
qed

lemma pipe_streams_witness:
  "pstep eof_state (handle_err Up EOF True eof_state) \<and> fin_out (handle_err Up EOF True eof_state) Up \<and>
   delivered (handle_err Up EOF True eof_state) Up = arrived (handle_err Up EOF True eof_state) Up"
proof -
  have st: "pstep eof_state (handle_err Up EOF True eof_state)"
    by (rule pstep.error_step) (simp_all add: eof_state_facts)
  have f: "fin_out (handle_err Up EOF True eof_state) Up" by (simp add: handle_err_frame)
  show ?thesis using pipe_streams [OF eof_state_reach, of Up] st f eof_state_facts(2,5) by auto
qed



text \<open>
  C16: why a flow is torn down. A step that shuts a flow down has one of these causes: a
  connection has failed; the app's connection was closed by \<open>CloseAllConnections\<close>; a connection
  has not taken a write for five minutes; no payload was read in either direction for five
  minutes; the upstream has not answered the last payload of the app for two minutes; or both
  directions have ended by passing an end of stream on. So an end of stream that can be passed
  on tears nothing down, traffic in the last two minutes keeps a flow, and a download alone
  keeps it for five.
\<close>

theorem teardown_causes:
  assumes "preach s" and "pstep s s'" and "\<not> shut s" and "shut s'"
  shows "broken s Up \<or> broken s Down \<or> closed s Up \<or>
    (\<exists>d data err. ppc s d = PWrite data err \<and> seen s d + 300000 \<le> clock s) \<or>
    seen s Up + 300000 \<le> clock s \<and> seen s Down + 300000 \<le> clock s \<or>
    seen s Down < seen s Up \<and> seen s Up + 120000 \<le> clock s \<or>
    fin_out s Up \<and> fin_out s Down"
  using assms(2)
proof cases
  case (write_fails d data err n)
  have "wdeadline s d = seen s d + 300000"
    using causes_reach [OF assms(1)] write_fails(2) by (auto simp: causes_ok_def dest: spec [of _ d])
  with write_fails(2,3) not_closed_Down [OF assms(1,3)] show ?thesis by (cases d) auto
next
  case (error_step d err cw)
  have c: "held_err (ppc s d) = OtherErr \<longrightarrow> broken s d \<or> closed s d" "ppc s d \<noteq> PErr NoErr"
    "lastTxMs (ptc s) = seen s Up" "lastRxMs (ptc s) = seen s Down"
    using causes_reach [OF assms(1)] stream_reach [OF assms(1), of d] by (auto simp: causes_ok_def stream_ok_def)
  from assms(3,4) error_step handle_err_shut(1) [of s d err cw] c(2) consider
    "err = Timeout" "fst (idleVerdict (clock s) (ptc s))" | "\<not> cw" | "err = OtherErr" by auto
  then show ?thesis
  proof cases
    case 1
    then show ?thesis unfolding idleVerdict_iff(1) c(3,4) by auto
  next
    case 2
    with error_step(3) not_closed_Down [OF assms(1,3)] show ?thesis by (cases d) auto
  next
    case 3
    with c(1) error_step(2) not_closed_Down [OF assms(1,3)] show ?thesis by (cases d) auto
  qed
next
  case join_step
  with assms(3) teardown_reach [OF assms(1)] show ?thesis by (auto simp: teardown_ok_def)
qed (use assms(3,4) in \<open>simp_all add: after_read_frame write_done_frame\<close>)

lemma teardown_causes_witness:
  "\<exists>s s'. preach s \<and> pstep s s' \<and> \<not> shut s \<and> shut s' \<and> seen s Up + 300000 \<le> clock s \<and> seen s Down + 300000 \<le> clock s"
proof -
  define s0 where "s0 = pipe_init zero_tc 0"
  define s1 where "s1 = s0\<lparr>clock := clock s0 + 300000\<rparr>"
  define s where "s = see Up [] (after_read Up [] Timeout s1)"
  have 0: "preach s0" unfolding s0_def by (rule preach.init)
  have 1: "preach s1" unfolding s1_def by (rule preach.step [OF 0], rule pstep.tick) simp
  have 2: "preach s" unfolding s_def
    by (rule preach.step [OF 1], rule pstep.read_step) (simp_all add: s1_def s0_def pipe_init_def may_read_def)
  have f: "clock s = 300000" "seen s = (\<lambda>_. 0)" "ppc s Up = PErr Timeout" "\<not> shut s" "broken s = (\<lambda>_. False)"
    "closed s = (\<lambda>_. False)" "fin_out s = (\<lambda>_. False)" "ppc s Down = PRead"
    by (simp_all add: s_def s1_def s0_def after_read_frame after_read_stamps pipe_init_def)
  have st: "pstep s (handle_err Up Timeout True s)" by (rule pstep.error_step) (simp_all add: f)
  have "ptc s = zero_tc\<lparr>lastTxMs := 0, lastRxMs := 0\<rparr>"
    by (simp add: s_def s1_def s0_def after_read_def pgoto_def pipe_init_def)
  then have "fst (idleVerdict (clock s) (ptc s))" by (simp add: idleVerdict_iff f)
  then have sh: "shut (handle_err Up Timeout True s)"
    using handle_err_shut(1) [of s Up Timeout True] f(4) by simp
  have "seen s Up + 300000 \<le> clock s \<and> seen s Down + 300000 \<le> clock s"
    using teardown_causes [OF 2 st f(4) sh] f by (auto simp: f)
  with 2 st f(4) sh show ?thesis by blast
qed

text \<open>
  C15: a flow that is shut down ends. From every reachable state in which the flow is down,
  the goroutines take at most 9 more steps of their own in any run, whatever the peers and
  the clock do meanwhile, and within at most 9 steps the pipe can have returned.
\<close>

theorem pipe_drains:
  assumes "preach s" and "shut s"
  shows "(\<forall>ss. run pstep s ss \<longrightarrow> own_steps pipe_own s ss \<le> 9) \<and>
    (\<exists>ss. run pstep s ss \<and> length ss \<le> 9 \<and> returned (last (s # ss)))"
proof -
  have d: "pipe_down s" using assms teardown_reach by (simp add: pipe_down_def)
  have "rank p \<le> 4" for p by (cases p) auto
  then have "rank (ppc s Up) + rank (ppc s Down) \<le> 8" by (metis add_mono numeral_Bit0)
  then have "pipe_load s \<le> 9" by (simp add: pipe_load_def)
  with tcp_pipe.own_steps_bounded [OF _ d] tcp_pipe.can_end [OF d] show ?thesis by (meson le_trans)
qed

lemma pipe_drains_witness:
  "\<exists>ss. run pstep (last zombie_run) ss \<and> length ss \<le> 9 \<and> returned (last (last zombie_run # ss))"
  using pipe_drains zombie_run_reach by blast

text \<open>
  The zombie counter is not exact: no connection adds more than two to it, but one
  connection can add two, when both goroutines find the same silence before the first of them
  has closed the connections.
\<close>

theorem zombie_counted_twice:
  "(\<forall>s. preach s \<longrightarrow> kills s \<le> 2) \<and> (\<exists>s. preach s \<and> kills s = 2)"
  using kills_bound zombie_run_reach by blast

lemma zombie_counted_twice_witness: "kills (last zombie_run) \<le> 2"
  using zombie_counted_twice zombie_run_reach by blast

end
