(* ===== verification/Pipe_UDP.thy ===== *)
theory Pipe_UDP
  imports Socks5_Datagram Draining "HOL-Library.Sublist"
begin

text \<open>
  The relay of a UDP flow, \<open>pipeUDP\<close> of \<open>go/engine.go\<close>: one goroutine wraps the app's
  datagrams and sends them to the proxy's relay, one unwraps what the relay sends and gives
  it to the app, one watches the control connection; the first to end closes everything.
  Each read, write and end is one step; arriving datagrams, from the relay or from anybody
  else, the clock, failures and \<open>CloseAllConnections\<close> are steps of the environment.
\<close>

definition udpIdleTimeout_ms :: int where "udpIdleTimeout_ms = 60000"

datatype xpc = XRead | XWrite bytes | XExit

text \<open>What is fixed for a flow: the relay, the destination, the buffer size.\<close>

record uflow =
  relay :: "ip \<times> nat"
  udst :: ip
  uport :: int
  umtu :: nat

text \<open>
  \<open>app_in\<close> and \<open>sock_in\<close> are the datagrams waiting at the app's connection and at the local
  socket (with their sender), \<open>app_sent\<close> and \<open>sock_got\<close> all that ever arrived there, \<open>taken\<close>
  what was read from the app; \<open>to_relay\<close> and \<open>to_app\<close> are what was written. \<open>tx_deadline\<close>
  and \<open>rx_deadline\<close> are the read deadlines. \<open>tx_seen\<close> and \<open>rx_seen\<close> are no variables of the code:
  they record, for the properties, when the last datagram was read from the app and from the
  socket (at first, when the relay started).
\<close>

record upipe =
  uclock :: int
  app_in :: "bytes list"
  app_sent :: "bytes list"
  sock_in :: "((ip \<times> nat) option \<times> bytes) list"
  sock_got :: "((ip \<times> nat) option \<times> bytes) list"
  taken :: "bytes list"
  to_relay :: "bytes list"
  to_app :: "bytes list"
  tx_deadline :: int
  rx_deadline :: int
  tx_seen :: int
  rx_seen :: int
  tx_pc :: xpc
  rx_pc :: xpc
  ctrl_done :: bool
  ctrl_ended :: bool
  app_failed :: bool
  sock_failed :: bool
  app_closed :: bool
  assoc_closed :: bool
  ushut :: bool
  ureturned :: bool

subsection \<open>The code\<close>

definition ushutdown :: "upipe \<Rightarrow> upipe" where
  "ushutdown s = (if ushut s then s else s\<lparr>ushut := True, app_closed := True, assoc_closed := True\<rparr>)"

text \<open>Back to the top of the loops: the deadline is set anew before every read.\<close>

definition tx_loop :: "upipe \<Rightarrow> upipe" where
  "tx_loop s = s\<lparr>tx_pc := XRead, tx_deadline := uclock s + udpIdleTimeout_ms\<rparr>"

definition rx_loop :: "upipe \<Rightarrow> upipe" where
  "rx_loop s = s\<lparr>rx_pc := XRead, rx_deadline := uclock s + udpIdleTimeout_ms\<rparr>"

definition tx_exit :: "upipe \<Rightarrow> upipe" where "tx_exit s = (ushutdown s)\<lparr>tx_pc := XExit\<rparr>"
definition rx_exit :: "upipe \<Rightarrow> upipe" where "rx_exit s = (ushutdown s)\<lparr>rx_pc := XExit\<rparr>"

text \<open>TUN to relay: a datagram read into a buffer of \<open>mtu\<close> bytes is wrapped (\<open>None\<close> would be a panic).\<close>

definition tx_read :: "uflow \<Rightarrow> bytes \<Rightarrow> upipe \<Rightarrow> upipe go" where
  "tx_read u b s =
     do { let data = take (umtu u) b;
          datagram \<leftarrow> EncodeUDPDatagram (udst u) (uport u) data;
          Some (s\<lparr>taken := taken s @ [data], tx_pc := XWrite datagram\<rparr>) }"

text \<open>
  Relay to TUN: the payload of a datagram, if it comes from the relay and can be decoded;
  other datagrams are skipped.
\<close>

definition relay_payload :: "uflow \<Rightarrow> (ip \<times> nat) option \<Rightarrow> bytes \<Rightarrow> bytes option go" where
  "relay_payload u from b =
     (case from of
        None \<Rightarrow> Some None
      | Some (fip, fport) \<Rightarrow>
          if \<not> ip_equal fip (fst (relay u)) \<or> fport \<noteq> snd (relay u) then Some None
          else do {
            res \<leftarrow> DecodeUDPDatagram b;
            (case res of Inl err \<Rightarrow> Some None | Inr (_, _, payload) \<Rightarrow> Some (Some payload)) })"

definition rx_read :: "uflow \<Rightarrow> (ip \<times> nat) option \<Rightarrow> bytes \<Rightarrow> upipe \<Rightarrow> upipe go" where
  "rx_read u from b s =
     do { res \<leftarrow> relay_payload u from (take (umtu u + 22) b);
          (case res of
             None \<Rightarrow> Some (rx_loop s)
           | Some payload \<Rightarrow> Some (s\<lparr>rx_pc := XWrite payload\<rparr>)) }"

inductive ustep :: "uflow \<Rightarrow> upipe \<Rightarrow> upipe \<Rightarrow> bool" for u where
  tx_data: "tx_pc s = XRead \<Longrightarrow> \<not> app_closed s \<Longrightarrow> app_in s = b # bs \<Longrightarrow>
     tx_read u b (s\<lparr>app_in := bs\<rparr>) = Some s' \<Longrightarrow> ustep u s (s'\<lparr>tx_seen := uclock s\<rparr>)"
| tx_error: "tx_pc s = XRead \<Longrightarrow>
     app_closed s \<or> app_failed s \<or> tx_deadline s \<le> uclock s \<Longrightarrow> ustep u s (tx_exit s)"
| tx_sent: "tx_pc s = XWrite d \<Longrightarrow> \<not> assoc_closed s \<Longrightarrow>
     ustep u s (tx_loop (s\<lparr>to_relay := to_relay s @ [d]\<rparr>))"
| tx_failed: "tx_pc s = XWrite d \<Longrightarrow> assoc_closed s \<or> sock_failed s \<Longrightarrow> ustep u s (tx_exit s)"
| rx_data: "rx_pc s = XRead \<Longrightarrow> \<not> assoc_closed s \<Longrightarrow> sock_in s = (from, b) # bs \<Longrightarrow>
     rx_read u from b (s\<lparr>sock_in := bs\<rparr>) = Some s' \<Longrightarrow> ustep u s (s'\<lparr>rx_seen := uclock s\<rparr>)"
| rx_error: "rx_pc s = XRead \<Longrightarrow>
     assoc_closed s \<or> sock_failed s \<or> rx_deadline s \<le> uclock s \<Longrightarrow> ustep u s (rx_exit s)"
| rx_given: "rx_pc s = XWrite p \<Longrightarrow> \<not> app_closed s \<Longrightarrow>
     ustep u s (rx_loop (s\<lparr>to_app := to_app s @ [p]\<rparr>))"
| rx_failed: "rx_pc s = XWrite p \<Longrightarrow> app_closed s \<or> app_failed s \<Longrightarrow> ustep u s (rx_exit s)"
| ctrl_end: "\<not> ctrl_done s \<Longrightarrow> ctrl_ended s \<or> assoc_closed s \<Longrightarrow>
     ustep u s ((ushutdown s)\<lparr>ctrl_done := True\<rparr>)"
| join: "tx_pc s = XExit \<Longrightarrow> rx_pc s = XExit \<Longrightarrow> \<not> ureturned s \<Longrightarrow>
     ustep u s ((ushutdown s)\<lparr>ureturned := True\<rparr>)"
| app_sends: "ustep u s (s\<lparr>app_in := app_in s @ [b], app_sent := app_sent s @ [b]\<rparr>)"
| sock_gets: "ustep u s (s\<lparr>sock_in := sock_in s @ [m], sock_got := sock_got s @ [m]\<rparr>)"
| proxy_ends: "ustep u s (s\<lparr>ctrl_ended := True\<rparr>)"
| app_fails: "ustep u s (s\<lparr>app_failed := True\<rparr>)"
| sock_fails: "ustep u s (s\<lparr>sock_failed := True\<rparr>)"
| utick: "0 \<le> t \<Longrightarrow> ustep u s (s\<lparr>uclock := uclock s + t\<rparr>)"
| close_app: "ustep u s (s\<lparr>app_closed := True\<rparr>)"

definition upipe_init :: "int \<Rightarrow> upipe" where
  "upipe_init now =
     \<lparr>uclock = now, app_in = [], app_sent = [], sock_in = [], sock_got = [], taken = [], to_relay = [],
      to_app = [], tx_deadline = now + udpIdleTimeout_ms, rx_deadline = now + udpIdleTimeout_ms,
      tx_seen = now, rx_seen = now, tx_pc = XRead, rx_pc = XRead, ctrl_done = False, ctrl_ended = False, app_failed = False,
      sock_failed = False, app_closed = False, assoc_closed = False, ushut = False, ureturned = False\<rparr>"

inductive ureach :: "uflow \<Rightarrow> upipe \<Rightarrow> bool" for u where
  init: "ureach u (upipe_init now)"
| step: "ureach u s \<Longrightarrow> ustep u s s' \<Longrightarrow> ureach u s'"

subsection \<open>Invariants\<close>

lemmas upipe_defs = tx_loop_def rx_loop_def tx_exit_def rx_exit_def ushutdown_def

text \<open>The wrapped form of a payload for the flow's destination.\<close>

definition wrap :: "uflow \<Rightarrow> bytes \<Rightarrow> bytes" where
  "wrap u p = the (EncodeUDPDatagram (udst u) (uport u) p)"

lemma Encode_wrap: "EncodeUDPDatagram (udst u) (uport u) p = Some (wrap u p)"
  by (simp add: wrap_def EncodeUDPDatagram_eq)

lemma tx_read_eq: "tx_read u b s = Some (s\<lparr>taken := taken s @ [take (umtu u) b], tx_pc := XWrite (wrap u (take (umtu u) b))\<rparr>)"
  by (simp add: tx_read_def Encode_wrap Let_def)

text \<open>
  An answer, said without the code: a datagram that was sent from the relay's port by the
  relay's host, an IPv4 address and its IPv4-in-IPv6 form being the same host, and whose
  bytes, as far as they fit the buffer, are two reserved bytes, fragment 0, an address type,
  an address of that type, a port, and the payload.
\<close>

definition same_host :: "ip \<Rightarrow> ip \<Rightarrow> bool" where
  "same_host a b \<longleftrightarrow> a = b \<or> a = v4_prefix @ b \<and> length b = 4 \<or> b = v4_prefix @ a \<and> length a = 4"

definition relay_answer :: "uflow \<Rightarrow> (ip \<times> nat) option \<times> bytes \<Rightarrow> bytes \<Rightarrow> bool" where
  "relay_answer u m p \<longleftrightarrow> (\<exists>sender b. m = (Some (sender, snd (relay u)), b) \<and> same_host sender (fst (relay u)) \<and>
     (\<exists>r1 r2 atyp a h l. take (umtu u + 22) b = [r1, r2, 0, atyp] @ a @ [h, l] @ p \<and> well_formed atyp a))"

text \<open>The payloads of the answers among the datagrams of a list, in order.\<close>

inductive relay_answers :: "uflow \<Rightarrow> ((ip \<times> nat) option \<times> bytes) list \<Rightarrow> bytes list \<Rightarrow> bool" for u where
  none: "relay_answers u [] []"
| answer: "relay_answer u m p \<Longrightarrow> relay_answers u ms ps \<Longrightarrow> relay_answers u (m # ms) (p # ps)"
| junk: "\<forall>p. \<not> relay_answer u m p \<Longrightarrow> relay_answers u ms ps \<Longrightarrow> relay_answers u (m # ms) ps"

lemma mapped_iff: "take 12 x = v4_prefix \<and> y = drop 12 x \<longleftrightarrow> x = v4_prefix @ y"
  by (metis append_take_drop_id append_eq_conv_conj length_v4_prefix)

lemma ip_equal_same_host: "ip_equal a b \<longleftrightarrow> same_host a b"
proof (cases "length a = length b")
  case True
  have "a \<noteq> v4_prefix @ b" by (rule notI, drule arg_cong [where f = length]) (simp add: True)
  moreover have "b \<noteq> v4_prefix @ a" by (rule notI, drule arg_cong [where f = length]) (simp add: True)
  ultimately show ?thesis using True by (simp add: ip_equal_def same_host_def)
next
  case False
  then have "a \<noteq> b" by blast
  moreover have "ip_equal a b \<longleftrightarrow> length a = 4 \<and> length b = 16 \<and> b = v4_prefix @ a \<or>
      length a = 16 \<and> length b = 4 \<and> a = v4_prefix @ b"
    unfolding ip_equal_def mapped_iff [symmetric] by (simp add: False) (argo?)
  moreover have "length a = 4 \<and> length b = 16 \<and> b = v4_prefix @ a \<longleftrightarrow> b = v4_prefix @ a \<and> length a = 4"
    "length a = 16 \<and> length b = 4 \<and> a = v4_prefix @ b \<longleftrightarrow> a = v4_prefix @ b \<and> length b = 4"
    by (rule iffI; simp)+
  ultimately show ?thesis unfolding same_host_def by argo
qed

lemma relay_payload_total: "relay_payload u from b \<noteq> None"
  using DecodeUDPDatagram_total [of b] by (auto simp: relay_payload_def split: option.splits sum.splits)

lemma decodes_iff:
  "(\<exists>a q. DecodeUDPDatagram d = Some (Inr (a, q, p))) \<longleftrightarrow>
     (\<exists>r1 r2 atyp a h l. d = [r1, r2, 0, atyp] @ a @ [h, l] @ p \<and> well_formed atyp a)"
proof
  assume "\<exists>a q. DecodeUDPDatagram d = Some (Inr (a, q, p))"
  then show "\<exists>r1 r2 atyp a h l. d = [r1, r2, 0, atyp] @ a @ [h, l] @ p \<and> well_formed atyp a"
    using DecodeUDPDatagram_InrD by blast
next
  assume "\<exists>r1 r2 atyp a h l. d = [r1, r2, 0, atyp] @ a @ [h, l] @ p \<and> well_formed atyp a"
  then obtain r1 r2 atyp a h l where d: "d = [r1, r2, 0, atyp] @ a @ [h, l] @ p" and w: "well_formed atyp a" by blast
  show "\<exists>a q. DecodeUDPDatagram d = Some (Inr (a, q, p))" unfolding d DecodeUDPDatagram_ok [OF w] by blast
qed

lemma relay_payload_decodes:
  "relay_payload u from d = Some (Some p) \<longleftrightarrow>
     (\<exists>fip. from = Some (fip, snd (relay u)) \<and> ip_equal fip (fst (relay u))) \<and>
     (\<exists>a q. DecodeUDPDatagram d = Some (Inr (a, q, p)))"
  by (auto simp: relay_payload_def split: option.splits sum.splits if_splits bind_splits)

lemma relay_payload_answer:
  "relay_payload u from (take (umtu u + 22) b) = Some (Some p) \<longleftrightarrow> relay_answer u (from, b) p"
proof -
  have "(\<exists>fip. from = Some (fip, P) \<and> S fip) \<and> Q b \<longleftrightarrow>
      (\<exists>sender b'. (from, b) = (Some (sender, P), b') \<and> S sender \<and> Q b')" for P S Q
    by auto
  then show ?thesis
    unfolding relay_payload_decodes decodes_iff relay_answer_def ip_equal_same_host .
qed

text \<open>What the code makes of a datagram, and what a goroutine still has to write.\<close>

definition delivers :: "uflow \<Rightarrow> (ip \<times> nat) option \<times> bytes \<Rightarrow> bytes list" where
  "delivers u m = (case relay_payload u (fst m) (take (umtu u + 22) (snd m)) of
     Some (Some p) \<Rightarrow> [p] | _ \<Rightarrow> [])"

fun pending :: "xpc \<Rightarrow> bytes list" where
  "pending (XWrite b) = [b]"
| "pending _ = []"

lemma delivers_cases: "delivers u m = [] \<or> (\<exists>p. delivers u m = [p])"
  by (auto simp: delivers_def split: option.splits)

lemma delivers_answer: "delivers u m = [p] \<longleftrightarrow> relay_answer u m p"
  by (cases m) (auto simp: delivers_def relay_payload_answer [symmetric] split: option.splits)

lemma delivers_answers: "relay_answers u ms (concat (map (delivers u) ms))"
proof (induction ms)
  case (Cons m ms)
  show ?case
  proof (cases "\<exists>p. relay_answer u m p")
    case True
    then obtain p where "relay_answer u m p" by blast
    with Cons delivers_answer [of u m p] show ?thesis by (simp add: relay_answers.answer)
  next
    case False
    then have "delivers u m = []" using delivers_answer delivers_cases by metis
    with Cons False show ?thesis by (simp add: relay_answers.junk)
  qed
qed (simp add: relay_answers.none)

text \<open>So the answers are determined by the datagrams.\<close>

lemma answers_unique: "relay_answers u ms ps \<Longrightarrow> ps = concat (map (delivers u) ms)"
proof (induction rule: relay_answers.induct)
  case (answer m p ms ps)
  then show ?case using delivers_answer [of u m p] by simp
next
  case (junk m ms ps)
  then have "delivers u m \<noteq> [p]" for p using delivers_answer by blast
  then have "delivers u m = []" using delivers_cases [of u m] by blast
  then show ?case using junk by simp
qed simp

text \<open>A list of outputs that is complete while its goroutine runs and a prefix afterwards.\<close>

definition follows :: "xpc \<Rightarrow> bytes list \<Rightarrow> bytes list \<Rightarrow> bool" where
  "follows pc out spec \<longleftrightarrow> (if pc = XExit then prefix out spec else spec = out @ pending pc)"

definition sent_ok :: "uflow \<Rightarrow> upipe \<Rightarrow> bool" where
  "sent_ok u s \<longleftrightarrow> map (take (umtu u)) (app_sent s) = taken s @ map (take (umtu u)) (app_in s) \<and>
     follows (tx_pc s) (to_relay s) (map (wrap u) (taken s))"

definition given_ok :: "uflow \<Rightarrow> upipe \<Rightarrow> bool" where
  "given_ok u s \<longleftrightarrow> (\<exists>got. sock_got s = got @ sock_in s \<and>
     follows (rx_pc s) (to_app s) (concat (map (delivers u) got)))"

text \<open>The deadline of a read is a minute after the last datagram, or later.\<close>

definition deadline_ok :: "upipe \<Rightarrow> bool" where
  "deadline_ok s \<longleftrightarrow> tx_seen s \<le> uclock s \<and> rx_seen s \<le> uclock s \<and>
     (tx_pc s = XRead \<longrightarrow> tx_seen s + 60000 \<le> tx_deadline s) \<and>
     (rx_pc s = XRead \<longrightarrow> rx_seen s + 60000 \<le> rx_deadline s)"

definition closed_ok :: "upipe \<Rightarrow> bool" where
  "closed_ok s \<longleftrightarrow> (ushut s \<longrightarrow> app_closed s) \<and> (ushut s \<longleftrightarrow> assoc_closed s) \<and>
     (tx_pc s = XExit \<longrightarrow> ushut s) \<and> (rx_pc s = XExit \<longrightarrow> ushut s) \<and> (ctrl_done s \<longrightarrow> ushut s) \<and>
     (ureturned s \<longrightarrow> tx_pc s = XExit \<and> rx_pc s = XExit)"

lemma rx_read_eq:
  "rx_read u from b s = Some (case delivers u (from, b) of [] \<Rightarrow> rx_loop s | p # _ \<Rightarrow> s\<lparr>rx_pc := XWrite p\<rparr>)"
proof -
  obtain r where r: "relay_payload u from (take (umtu u + 22) b) = Some r"
    using relay_payload_total by blast
  then show ?thesis by (auto simp: rx_read_def delivers_def split: option.splits)
qed

lemma ushutdown_frame [simp]:
  "app_in (ushutdown s) = app_in s" "app_sent (ushutdown s) = app_sent s" "sock_in (ushutdown s) = sock_in s"
  "sock_got (ushutdown s) = sock_got s" "taken (ushutdown s) = taken s" "to_relay (ushutdown s) = to_relay s"
  "to_app (ushutdown s) = to_app s" "tx_pc (ushutdown s) = tx_pc s" "rx_pc (ushutdown s) = rx_pc s"
  "ctrl_done (ushutdown s) = ctrl_done s" "ureturned (ushutdown s) = ureturned s" "ushut (ushutdown s)"
  "uclock (ushutdown s) = uclock s" "tx_seen (ushutdown s) = tx_seen s" "rx_seen (ushutdown s) = rx_seen s"
  "tx_deadline (ushutdown s) = tx_deadline s" "rx_deadline (ushutdown s) = rx_deadline s"
  by (simp_all add: ushutdown_def)

lemma follows_exit: "follows pc out spec \<Longrightarrow> follows XExit out spec"
  by (auto simp: follows_def split: if_splits)

lemma sent_frame:
  "sent_ok u s \<Longrightarrow> app_sent s' = app_sent s \<Longrightarrow> app_in s' = app_in s \<Longrightarrow> taken s' = taken s \<Longrightarrow>
   to_relay s' = to_relay s \<Longrightarrow> tx_pc s' = tx_pc s \<or> tx_pc s' = XExit \<Longrightarrow> sent_ok u s'"
  by (auto simp: sent_ok_def dest: follows_exit)

lemma given_frame:
  "given_ok u s \<Longrightarrow> sock_got s' = sock_got s \<Longrightarrow> sock_in s' = sock_in s \<Longrightarrow> to_app s' = to_app s \<Longrightarrow>
   rx_pc s' = rx_pc s \<or> rx_pc s' = XExit \<Longrightarrow> given_ok u s'"
  by (auto simp: given_ok_def dest: follows_exit)

lemma sent_step: assumes "ustep u s s'" and "sent_ok u s" shows "sent_ok u s'"
  using assms(1)
proof cases
  case (tx_data b bs t)
  with assms(2) show ?thesis by (auto simp: sent_ok_def tx_read_eq follows_def)
next
  case (tx_sent d)
  with assms(2) show ?thesis by (auto simp: sent_ok_def tx_loop_def follows_def)
next
  case (rx_data orig b bs t)
  then have t: "t = (case delivers u (orig, b) of [] \<Rightarrow> rx_loop (s\<lparr>sock_in := bs\<rparr>) | p # _ \<Rightarrow> (s\<lparr>sock_in := bs\<rparr>)\<lparr>rx_pc := XWrite p\<rparr>)"
    by (simp add: rx_read_eq)
  with assms(2) show ?thesis
    by (intro sent_frame [OF assms(2)]) (auto simp: rx_data(1) t rx_loop_def split: list.splits)
next
  case (app_sends b)
  with assms(2) show ?thesis by (auto simp: sent_ok_def follows_def)
qed (intro sent_frame [OF assms(2)]; simp add: tx_exit_def rx_exit_def rx_loop_def)+

lemma given_step: assumes "ustep u s s'" and "given_ok u s" shows "given_ok u s'"
  using assms(1)
proof cases
  case (tx_data b bs t)
  with assms(2) show ?thesis by (intro given_frame [OF assms(2)]) (auto simp: tx_read_eq)
next
  case (rx_data orig b bs t)
  then have t: "t = (case delivers u (orig, b) of [] \<Rightarrow> rx_loop (s\<lparr>sock_in := bs\<rparr>) | p # _ \<Rightarrow> (s\<lparr>sock_in := bs\<rparr>)\<lparr>rx_pc := XWrite p\<rparr>)"
    by (simp add: rx_read_eq)
  from assms(2) obtain got where got: "sock_got s = got @ sock_in s" "follows (rx_pc s) (to_app s) (concat (map (delivers u) got))"
    by (auto simp: given_ok_def)
  have "sock_got s' = (got @ [(orig, b)]) @ sock_in s'"
    using got rx_data(4) by (auto simp: rx_data(1) t rx_loop_def split: list.splits)
  moreover have "follows (rx_pc s') (to_app s') (concat (map (delivers u) (got @ [(orig, b)])))"
    using got(2) rx_data(2) delivers_cases [of u "(orig, b)"] by (auto simp: rx_data(1) t rx_loop_def follows_def)
  ultimately show ?thesis unfolding given_ok_def by blast
next
  case (rx_given p)
  with assms(2) show ?thesis by (auto simp: given_ok_def rx_loop_def follows_def)
next
  case (sock_gets m)
  with assms(2) show ?thesis by (auto simp: given_ok_def)
qed (intro given_frame [OF assms(2)]; simp add: tx_exit_def rx_exit_def tx_loop_def)+

lemma closed_step: assumes "ustep u s s'" and "closed_ok s" shows "closed_ok s'"
  using assms(1)
proof cases
  case (tx_data b bs t)
  with assms(2) show ?thesis by (auto simp: closed_ok_def tx_read_eq)
next
  case (rx_data orig b bs t)
  then show ?thesis
    using assms(2) by (auto simp: closed_ok_def rx_read_eq rx_loop_def split: list.splits)
qed (use assms(2) in \<open>auto simp: closed_ok_def upipe_defs\<close>)

lemma deadline_step: assumes "ustep u s s'" and "deadline_ok s" shows "deadline_ok s'"
  using assms(1)
proof cases
  case (tx_data b bs t)
  with assms(2) show ?thesis by (auto simp: deadline_ok_def tx_read_eq)
next
  case (rx_data orig b bs t)
  with assms(2) show ?thesis
    by (auto simp: deadline_ok_def rx_read_eq rx_loop_def udpIdleTimeout_ms_def split: list.splits)
qed (use assms(2) in \<open>auto simp: deadline_ok_def tx_exit_def rx_exit_def tx_loop_def rx_loop_def udpIdleTimeout_ms_def\<close>)

lemma reach_ok: "ureach u s \<Longrightarrow> sent_ok u s \<and> given_ok u s \<and> closed_ok s \<and> deadline_ok s"
proof (induction rule: ureach.induct)
  case (init now)
  show ?case by (simp add: upipe_init_def sent_ok_def given_ok_def closed_ok_def follows_def deadline_ok_def
      udpIdleTimeout_ms_def)
next
  case (step s s')
  then show ?case using sent_step given_step closed_step deadline_step by blast
qed

subsection \<open>Ending\<close>

definition relay_down :: "upipe \<Rightarrow> bool" where
  "relay_down s \<longleftrightarrow> ushut s \<and> closed_ok s"

text \<open>The goroutines' own steps: the program counters, the end of the watcher, the return.\<close>

definition relay_own :: "upipe \<Rightarrow> upipe \<Rightarrow> bool" where
  "relay_own s s' \<longleftrightarrow> (tx_pc s', rx_pc s', ctrl_done s', ureturned s') \<noteq> (tx_pc s, rx_pc s, ctrl_done s, ureturned s)"

definition relay_load :: "upipe \<Rightarrow> nat" where
  "relay_load s = (if tx_pc s = XExit then 0 else 1) + (if rx_pc s = XExit then 0 else 1) +
     (if ctrl_done s then 0 else 1) + (if ureturned s then 0 else 1)"

definition relay_ended :: "upipe \<Rightarrow> bool" where
  "relay_ended s \<longleftrightarrow> ureturned s \<and> ctrl_done s"

lemma down_closed: "relay_down s \<Longrightarrow> app_closed s \<and> assoc_closed s"
  by (auto simp: relay_down_def closed_ok_def)

lemma relay_sinks:
  assumes "relay_down s" and "ustep u s s'"
  shows "ushut s' \<and> (relay_own s s' \<longrightarrow> relay_load s' < relay_load s) \<and> (\<not> relay_own s s' \<longrightarrow> relay_load s' = relay_load s)"
  using assms(2) down_closed [OF assms(1)] assms(1)
  by cases (auto simp: relay_own_def relay_load_def relay_down_def tx_exit_def rx_exit_def)

lemma relay_progress:
  assumes "relay_down s" and "\<not> relay_ended s"
  shows "\<exists>s'. ustep u s s' \<and> relay_own s s'"
proof -
  note c = down_closed [OF assms(1)]
  have tx: "ustep u s (tx_exit s)" if "tx_pc s \<noteq> XExit"
    using that c by (cases "tx_pc s") (auto intro: ustep.tx_error ustep.tx_failed)
  have rx: "ustep u s (rx_exit s)" if "rx_pc s \<noteq> XExit"
    using that c by (cases "rx_pc s") (auto intro: ustep.rx_error ustep.rx_failed)
  consider "tx_pc s \<noteq> XExit" | "rx_pc s \<noteq> XExit" | "\<not> ctrl_done s"
    | "tx_pc s = XExit" "rx_pc s = XExit" "\<not> ureturned s"
    using assms(2) by (auto simp: relay_ended_def)
  then show ?thesis
  proof cases
    case 1
    then show ?thesis using tx by (intro exI [of _ "tx_exit s"]) (simp add: relay_own_def tx_exit_def)
  next
    case 2
    then show ?thesis using rx by (intro exI [of _ "rx_exit s"]) (simp add: relay_own_def rx_exit_def)
  next
    case 3
    then show ?thesis
      using ustep.ctrl_end [of s u] c by (intro exI [of _ "(ushutdown s)\<lparr>ctrl_done := True\<rparr>"]) (simp add: relay_own_def)
  next
    case 4
    then show ?thesis
      using ustep.join [of s u] by (intro exI [of _ "(ushutdown s)\<lparr>ureturned := True\<rparr>"]) (simp add: relay_own_def)
  qed
qed

interpretation udp_relay: draining "ustep u" relay_own relay_down relay_ended relay_load for u
proof unfold_locales
  fix s s'
  assume d: "relay_down s" and st: "ustep u s s'"
  show "relay_down s'" using relay_sinks [OF d st] closed_step [OF st] d by (simp add: relay_down_def)
  show "relay_own s s' \<Longrightarrow> relay_load s' < relay_load s" using relay_sinks [OF d st] by blast
  show "\<not> relay_own s s' \<Longrightarrow> relay_load s' \<le> relay_load s" using relay_sinks [OF d st] by simp
qed (rule relay_progress)

text \<open>
  A run: the app sends a datagram every half minute and gets no answer; after a minute the
  other direction's deadline ends the flow.
\<close>

definition dns_flow :: uflow where
  "dns_flow = \<lparr>relay = ([127, 0, 0, 1], 1080), udst = [8, 8, 8, 8], uport = 53, umtu = 1500\<rparr>"

definition sends :: "uflow \<Rightarrow> bytes \<Rightarrow> upipe \<Rightarrow> upipe" where
  "sends u b s = tx_loop (s\<lparr>app_sent := app_sent s @ [b], taken := taken s @ [take (umtu u) b],
     to_relay := to_relay s @ [wrap u (take (umtu u) b)], tx_seen := uclock s\<rparr>)"

lemma sends_reach:
  assumes "ureach u s" and "tx_pc s = XRead" and "app_in s = []" and "\<not> app_closed s" and "\<not> assoc_closed s"
  shows "ureach u (sends u b s)"
proof -
  let ?s1 = "s\<lparr>app_in := app_in s @ [b], app_sent := app_sent s @ [b]\<rparr>"
  let ?s2 = "?s1\<lparr>app_in := [], taken := taken s @ [take (umtu u) b], tx_pc := XWrite (wrap u (take (umtu u) b)),
      tx_seen := uclock s\<rparr>"
  have 1: "ureach u ?s1" using assms(1) ustep.app_sends by (rule ureach.step)
  have "ustep u ?s1 ?s2"
    using ustep.tx_data [of ?s1 b "[]" u "?s1\<lparr>app_in := [], taken := taken s @ [take (umtu u) b],
      tx_pc := XWrite (wrap u (take (umtu u) b))\<rparr>"] by (simp add: assms tx_read_eq)
  with 1 have 2: "ureach u ?s2" by (rule ureach.step)
  have "ustep u ?s2 (tx_loop (?s2\<lparr>to_relay := to_relay ?s2 @ [wrap u (take (umtu u) b)]\<rparr>))"
    by (rule ustep.tx_sent) (simp_all add: assms)
  with 2 have "ureach u (tx_loop (?s2\<lparr>to_relay := to_relay ?s2 @ [wrap u (take (umtu u) b)]\<rparr>))" by (rule ureach.step)
  also have "tx_loop (?s2\<lparr>to_relay := to_relay ?s2 @ [wrap u (take (umtu u) b)]\<rparr>) = sends u b s"
    using assms(3) by (simp add: tx_loop_def sends_def)
  finally show ?thesis .
qed

definition half_minute :: "upipe \<Rightarrow> upipe" where "half_minute s = s\<lparr>uclock := uclock s + 30000\<rparr>"

lemma half_minute_reach: "ureach u s \<Longrightarrow> ureach u (half_minute s)"
  unfolding half_minute_def by (rule ureach.step, assumption, rule ustep.utick) simp

definition busy_flow :: upipe where
  "busy_flow = sends dns_flow [1] (half_minute (sends dns_flow [1] (half_minute (sends dns_flow [1] (upipe_init 0)))))"

lemma busy_flow_reach:
  "ureach dns_flow busy_flow"
  "tx_pc busy_flow = XRead" "rx_pc busy_flow = XRead" "uclock busy_flow = 60000" "tx_deadline busy_flow = 120000"
  "rx_deadline busy_flow = 60000" "tx_seen busy_flow = 60000" "rx_seen busy_flow = 0" "length (to_relay busy_flow) = 3" "\<not> ushut busy_flow"
  "\<not> app_failed busy_flow" "\<not> sock_failed busy_flow" "\<not> ctrl_ended busy_flow" "\<not> app_closed busy_flow" "\<not> assoc_closed busy_flow"
proof -
  let ?a = "sends dns_flow [1] (upipe_init 0)"
  let ?b = "sends dns_flow [1] (half_minute ?a)"
  have 1: "ureach dns_flow ?a" by (rule sends_reach [OF ureach.init]) (simp_all add: upipe_init_def)
  have 2: "ureach dns_flow ?b"
    by (rule sends_reach [OF half_minute_reach [OF 1]]) (simp_all add: half_minute_def sends_def tx_loop_def upipe_init_def)
  show "ureach dns_flow busy_flow" unfolding busy_flow_def
    by (rule sends_reach [OF half_minute_reach [OF 2]]) (simp_all add: half_minute_def sends_def tx_loop_def upipe_init_def)
qed (simp_all add: busy_flow_def half_minute_def sends_def tx_loop_def upipe_init_def udpIdleTimeout_ms_def)

text \<open>
  Another run: a datagram of another program on the device arrives, then the relay's answer,
  from the IPv4-in-IPv6 form of its address; the first is dropped, the second given to the app.
\<close>

definition spoof_msg :: "(ip \<times> nat) option \<times> bytes" where
  "spoof_msg = (Some ([127, 0, 0, 1], 9999), [0, 0, 0, 1, 8, 8, 8, 8, 0, 53, 66])"

definition answer_msg :: "(ip \<times> nat) option \<times> bytes" where
  "answer_msg = (Some (v4_prefix @ [127, 0, 0, 1], 1080), [0, 0, 0, 1, 8, 8, 8, 8, 0, 53, 7])"

lemma demo_msgs:
  "delivers dns_flow spoof_msg = []" "delivers dns_flow answer_msg = [[7]]"
  by (simp_all add: delivers_def relay_payload_def spoof_msg_def answer_msg_def dns_flow_def ip_equal_def
      DecodeUDPDatagram_def go_at_def go_slice_def uint16_at_def)

lemma skips_reach:
  assumes "ureach u s" and "rx_pc s = XRead" and "\<not> assoc_closed s" and "sock_in s = m # ms" and "delivers u m = []"
  shows "ureach u ((rx_loop (s\<lparr>sock_in := ms\<rparr>))\<lparr>rx_seen := uclock s\<rparr>)"
proof (rule ureach.step [OF assms(1)])
  show "ustep u s ((rx_loop (s\<lparr>sock_in := ms\<rparr>))\<lparr>rx_seen := uclock s\<rparr>)"
    using assms by (cases m) (auto intro!: ustep.rx_data simp: rx_read_eq)
qed

lemma takes_reach:
  assumes "ureach u s" and "rx_pc s = XRead" and "\<not> assoc_closed s" and "sock_in s = m # ms" and "delivers u m = [p]"
  shows "ureach u (s\<lparr>sock_in := ms, rx_pc := XWrite p, rx_seen := uclock s\<rparr>)"
proof (rule ureach.step [OF assms(1)])
  show "ustep u s (s\<lparr>sock_in := ms, rx_pc := XWrite p, rx_seen := uclock s\<rparr>)"
    using assms ustep.rx_data [of s "fst m" "snd m" ms u "s\<lparr>sock_in := ms, rx_pc := XWrite p\<rparr>"]
    by (cases m) (simp add: rx_read_eq)
qed

lemma answered_flow: "\<exists>s. ureach dns_flow s \<and> rx_pc s = XRead \<and> sock_in s = [] \<and>
    sock_got s = [spoof_msg, answer_msg] \<and> to_app s = [[7]]"
proof -
  define s1 where "s1 = (upipe_init 0)\<lparr>sock_in := [spoof_msg], sock_got := [spoof_msg]\<rparr>"
  define s2 where "s2 = s1\<lparr>sock_in := [spoof_msg, answer_msg], sock_got := [spoof_msg, answer_msg]\<rparr>"
  define s3 where "s3 = (rx_loop (s2\<lparr>sock_in := [answer_msg]\<rparr>))\<lparr>rx_seen := uclock s2\<rparr>"
  define s4 where "s4 = s3\<lparr>sock_in := [], rx_pc := XWrite [7], rx_seen := uclock s3\<rparr>"
  define s5 where "s5 = rx_loop (s4\<lparr>to_app := to_app s4 @ [[7]]\<rparr>)"
  note defs = s5_def s4_def s3_def s2_def s1_def rx_loop_def upipe_init_def
  have 1: "ureach dns_flow s1"
    using ureach.step [OF ureach.init ustep.sock_gets [of dns_flow "upipe_init 0" spoof_msg]]
    by (simp add: s1_def upipe_init_def)
  have 2: "ureach dns_flow s2"
    using ureach.step [OF 1 ustep.sock_gets [of dns_flow s1 answer_msg]] by (simp add: s2_def s1_def upipe_init_def)
  have 3: "ureach dns_flow s3" unfolding s3_def
    by (rule skips_reach [OF 2, of spoof_msg]) (simp_all add: demo_msgs s2_def s1_def upipe_init_def)
  have 4: "ureach dns_flow s4" unfolding s4_def
    by (rule takes_reach [OF 3, of answer_msg]) (simp_all add: demo_msgs defs)
  have "ureach dns_flow s5" unfolding s5_def
    by (rule ureach.step [OF 4], rule ustep.rx_given) (simp_all add: defs)
  then show ?thesis by (intro exI [of _ s5]) (simp add: defs)
qed

subsection \<open>Properties\<close>

text \<open>
  C6: the app gets the relay's answers, all of them and nothing else. An answer is a datagram
  from the relay's own port and host (for IPv4 in either of its two forms) that is a well
  formed, unfragmented SOCKS5 datagram as far as it fits the buffer of \<open>mtu + 22\<close> bytes. In
  every reachable state the datagrams given to the app are, in order, the payloads of the
  answers among the datagrams read from the socket, while the goroutine runs all of them but
  the one in its hands. So no other sender on the device can put a datagram into the flow,
  and no answer is lost.
\<close>

theorem udp_replies_only_from_relay:
  assumes "ureach u s"
  shows "\<exists>got ps. sock_got s = got @ sock_in s \<and> relay_answers u got ps \<and>
    prefix (to_app s) ps \<and>
    (rx_pc s \<noteq> XExit \<longrightarrow> ps = to_app s @ pending (rx_pc s)) \<and>
    (\<forall>p \<in> set (to_app s). \<exists>m \<in> set got. relay_answer u m p)"
proof -
  obtain got where got: "sock_got s = got @ sock_in s" and f: "follows (rx_pc s) (to_app s) (concat (map (delivers u) got))"
    using reach_ok [OF assms] by (auto simp: given_ok_def)
  have p: "prefix (to_app s) (concat (map (delivers u) got))"
    using f by (auto simp: follows_def split: if_splits)
  have "\<exists>m \<in> set got. relay_answer u m q" if q: "q \<in> set (to_app s)" for q
  proof -
    from q set_mono_prefix [OF p] obtain m where m: "m \<in> set got" "q \<in> set (delivers u m)" by auto
    with delivers_cases [of u m] have "delivers u m = [q]" by auto
    with m(1) delivers_answer show ?thesis by blast
  qed
  with got f p delivers_answers [of u got] show ?thesis
    by (intro exI [of _ got] exI [of _ "concat (map (delivers u) got)"]) (simp add: follows_def split: if_splits)
qed

lemma udp_replies_only_from_relay_witness:
  "\<exists>s. ureach dns_flow s \<and> sock_got s = [spoof_msg, answer_msg] \<and> to_app s = [[7]] \<and>
     relay_answers dns_flow [spoof_msg, answer_msg] [[7]]"
proof -
  obtain s where s: "ureach dns_flow s" "rx_pc s = XRead" "sock_in s = []" "sock_got s = [spoof_msg, answer_msg]"
    "to_app s = [[7]]" using answered_flow by blast
  from udp_replies_only_from_relay [OF s(1)] s(2-5) have "relay_answers dns_flow [spoof_msg, answer_msg] [[7]]" by auto
  with s show ?thesis by blast
qed

text \<open>
  C11: what the app sends reaches the relay wrapped for its own destination. The datagrams
  written to the relay are, in order, the wrapped forms of the first of the app's datagrams,
  each cut to the buffer of \<open>mtu\<close> bytes, none missing but the one in the goroutine's hands and
  those still unread while it runs; each decodes to the flow's destination, its port and the
  cut payload. Datagrams of at most \<open>mtu\<close> bytes go out whole; a longer one (the netstack
  delivers reassembled fragments) loses its tail silently.
\<close>

theorem udp_datagrams_sent:
  assumes "ureach u s" and "wf_ip (udst u)"
  shows "\<exists>ps. prefix ps (map (take (umtu u)) (app_sent s)) \<and> to_relay s = map (wrap u) ps \<and>
    (tx_pc s \<noteq> XExit \<longrightarrow> map (wrap u) (map (take (umtu u)) (app_sent s)) =
       to_relay s @ pending (tx_pc s) @ map (wrap u) (map (take (umtu u)) (app_in s))) \<and>
    ((\<forall>b \<in> set (app_sent s). length b \<le> umtu u) \<longrightarrow> prefix ps (app_sent s)) \<and>
    (\<forall>p. DecodeUDPDatagram (wrap u p) = Some (Inr (ip_norm (udst u), uport u mod 65536, p)))"
proof -
  have t: "map (take (umtu u)) (app_sent s) = taken s @ map (take (umtu u)) (app_in s)"
    and f: "follows (tx_pc s) (to_relay s) (map (wrap u) (taken s))"
    using reach_ok [OF assms(1)] by (auto simp: sent_ok_def)
  from f have "prefix (to_relay s) (map (wrap u) (taken s))" by (auto simp: follows_def split: if_splits)
  then obtain n where "to_relay s = map (wrap u) (take n (taken s))"
    by (metis take_map append_eq_conv_conj prefix_def)
  moreover have "prefix (take n (taken s)) (map (take (umtu u)) (app_sent s))"
    unfolding t using take_is_prefix prefix_prefix by blast
  moreover have "(\<forall>b \<in> set (app_sent s). length b \<le> umtu u) \<longrightarrow> map (take (umtu u)) (app_sent s) = app_sent s"
    by (simp add: map_idI)
  moreover have "DecodeUDPDatagram (wrap u p) = Some (Inr (ip_norm (udst u), uport u mod 65536, p))" for p
    using Decode_Encode [OF assms(2)] by (simp add: wrap_def EncodeUDPDatagram_eq)
  ultimately show ?thesis
    using f by (intro exI [of _ "take n (taken s)"]) (auto simp: t follows_def simp del: map_map)
qed

lemma udp_datagrams_sent_witness:
  "\<exists>p. length (to_relay busy_flow) = 3 \<and> to_relay busy_flow = map (wrap dns_flow) p \<and> prefix p (app_sent busy_flow) \<and>
     DecodeUDPDatagram (wrap dns_flow [1]) = Some (Inr ([8, 8, 8, 8], 53, [1]))"
proof -
  have "wf_ip (udst dns_flow)" by (simp add: dns_flow_def wf_ip_def)
  moreover have "\<forall>b \<in> set (app_sent busy_flow). length b \<le> umtu dns_flow"
    by (simp add: busy_flow_def half_minute_def sends_def tx_loop_def upipe_init_def dns_flow_def)
  moreover have "ip_norm (udst dns_flow) = [8, 8, 8, 8]" "uport dns_flow mod 65536 = 53"
    by (simp_all add: dns_flow_def ip_norm_def To4_def)
  ultimately show ?thesis
    using udp_datagrams_sent [OF busy_flow_reach(1)] busy_flow_reach(9) by metis
qed

text \<open>
  C17: a UDP flow that is shut down ends. From every reachable state in which the flow is
  down, the goroutines take at most 4 more steps of their own in any run, and within 4 steps
  the relay has returned and the watcher of the control connection has ended; a relay that
  has returned has closed both sides.
\<close>

theorem udp_relay_drains:
  assumes "ureach u s"
  shows "(ushut s \<longrightarrow> (\<forall>ss. run (ustep u) s ss \<longrightarrow> own_steps relay_own s ss \<le> 4) \<and>
      (\<exists>ss. run (ustep u) s ss \<and> length ss \<le> 4 \<and> relay_ended (last (s # ss)))) \<and>
    (ureturned s \<longrightarrow> app_closed s \<and> assoc_closed s)"
proof -
  have ok: "closed_ok s" using reach_ok [OF assms] by blast
  have "relay_load s \<le> 4" by (simp add: relay_load_def)
  then have "(\<forall>ss. run (ustep u) s ss \<longrightarrow> own_steps relay_own s ss \<le> 4) \<and>
      (\<exists>ss. run (ustep u) s ss \<and> length ss \<le> 4 \<and> relay_ended (last (s # ss)))" if "relay_down s"
    using udp_relay.own_steps_bounded [OF _ that] udp_relay.can_end [OF that, of u] by (meson le_trans)
  moreover have "ushut s \<Longrightarrow> relay_down s" using ok by (simp add: relay_down_def)
  moreover have "ureturned s \<longrightarrow> app_closed s \<and> assoc_closed s" using ok by (auto simp: closed_ok_def)
  ultimately show ?thesis by blast
qed

lemma udp_relay_drains_witness:
  "\<exists>s ss. run (ustep dns_flow) s ss \<and> ushut s \<and> relay_ended (last (s # ss))"
proof -
  let ?s = "rx_exit busy_flow"
  have "ustep dns_flow busy_flow ?s" by (rule ustep.rx_error) (simp_all add: busy_flow_reach)
  with busy_flow_reach(1) have "ureach dns_flow ?s" by (rule ureach.step)
  moreover have "ushut ?s" by (simp add: rx_exit_def)
  ultimately show ?thesis using udp_relay_drains [of dns_flow ?s] by blast
qed

text \<open>
  C36: why a UDP flow is torn down. A step that shuts the flow down has one of these causes:
  the app's connection was closed or failed, the socket failed, the proxy ended the control
  connection, the app has sent nothing for a minute, or no datagram has come to the socket
  for a minute (from the last one read, or from the start). So a flow with a datagram in each
  direction every minute is not cut; but one direction is not enough: a flow whose app has
  just sent is shut down when nothing has come back for a minute.
\<close>

theorem udp_teardown_causes:
  "(\<forall>s s'. ureach u s \<and> ustep u s s' \<and> \<not> ushut s \<and> ushut s' \<longrightarrow>
      app_closed s \<or> app_failed s \<or> sock_failed s \<or> ctrl_ended s \<or>
      tx_pc s = XRead \<and> tx_seen s + 60000 \<le> uclock s \<or> rx_pc s = XRead \<and> rx_seen s + 60000 \<le> uclock s) \<and>
   (\<exists>s s'. ureach dns_flow s \<and> ustep dns_flow s s' \<and> \<not> ushut s \<and> ushut s' \<and>
      \<not> app_closed s \<and> \<not> app_failed s \<and> \<not> sock_failed s \<and> \<not> ctrl_ended s \<and>
      tx_seen s = uclock s \<and> tx_deadline s = uclock s + udpIdleTimeout_ms \<and> length (to_relay s) = 3)"
proof (intro conjI allI impI)
  fix s s'
  assume a: "ureach u s \<and> ustep u s s' \<and> \<not> ushut s \<and> ushut s'"
  then have c: "\<not> assoc_closed s" "tx_pc s \<noteq> XExit" using reach_ok [of u s] by (auto simp: closed_ok_def)
  have d: "tx_pc s = XRead \<longrightarrow> tx_seen s + 60000 \<le> tx_deadline s" "rx_pc s = XRead \<longrightarrow> rx_seen s + 60000 \<le> rx_deadline s"
    using a reach_ok [of u s] by (auto simp: deadline_ok_def)
  from a have "ustep u s s'" by blast
  then have "app_closed s \<or> app_failed s \<or> sock_failed s \<or> ctrl_ended s \<or>
      tx_pc s = XRead \<and> tx_deadline s \<le> uclock s \<or> rx_pc s = XRead \<and> rx_deadline s \<le> uclock s"
    using a c by cases (auto simp: tx_read_eq rx_read_eq tx_loop_def rx_loop_def split: list.splits)
  with d show "app_closed s \<or> app_failed s \<or> sock_failed s \<or> ctrl_ended s \<or>
      tx_pc s = XRead \<and> tx_seen s + 60000 \<le> uclock s \<or> rx_pc s = XRead \<and> rx_seen s + 60000 \<le> uclock s"
    by linarith
next
  have "ustep dns_flow busy_flow (rx_exit busy_flow)"
    by (rule ustep.rx_error) (simp_all add: busy_flow_reach)
  then show "\<exists>s s'. ureach dns_flow s \<and> ustep dns_flow s s' \<and> \<not> ushut s \<and> ushut s' \<and>
      \<not> app_closed s \<and> \<not> app_failed s \<and> \<not> sock_failed s \<and> \<not> ctrl_ended s \<and>
      tx_seen s = uclock s \<and> tx_deadline s = uclock s + udpIdleTimeout_ms \<and> length (to_relay s) = 3"
    using busy_flow_reach by (intro exI [of _ busy_flow] exI [of _ "rx_exit busy_flow"])
      (simp add: rx_exit_def udpIdleTimeout_ms_def)
qed

lemma udp_teardown_causes_witness:
  "\<nexists>s'. ustep dns_flow (upipe_init 0) s' \<and> ushut s'"
proof
  assume "\<exists>s'. ustep dns_flow (upipe_init 0) s' \<and> ushut s'"
  then obtain s' where "ustep dns_flow (upipe_init 0) s'" "ushut s'" by blast
  with udp_teardown_causes [of dns_flow] ureach.init [of dns_flow 0] have
    "app_closed (upipe_init 0) \<or> app_failed (upipe_init 0) \<or> sock_failed (upipe_init 0) \<or> ctrl_ended (upipe_init 0) \<or>
     tx_seen (upipe_init 0) + 60000 \<le> uclock (upipe_init 0) \<or> rx_seen (upipe_init 0) + 60000 \<le> uclock (upipe_init 0) \<or>
     ushut (upipe_init 0)" by metis
  then show False by (simp add: upipe_init_def)
qed

end
