(* ===== verification/Json_Text.thy ===== *)
theory Json_Text
  imports Net_HostPort Codec
begin

text \<open>
  JSON texts as Go's \<open>encoding/json\<close> writes them for what the program marshals: integers,
  strings, arrays and objects, with \<open>"\<close>, \<open>\\<close>, control characters and the characters special to
  HTML escaped (texts are taken as ASCII). A reader for the same subset serves as the
  specification: it gives back the value.
\<close>

datatype json =
    JInt int
  | JStr string
  | JArr "json list"
  | JObj "(string \<times> json) list"

subsection \<open>Writing\<close>

definition backslash :: char where "backslash = char_of (92 :: nat)"
definition quotation :: char where "quotation = char_of (34 :: nat)"

text \<open>The two-character escapes: the control character and the letter that stands for it.\<close>

definition short_escape :: "nat \<Rightarrow> nat option" where
  "short_escape n =
     (if n = 34 then Some 34 else if n = 92 then Some 92 else if n = 8 then Some 98 else if n = 12 then Some 102
      else if n = 10 then Some 110 else if n = 13 then Some 114 else if n = 9 then Some 116 else None)"

definition long_escape :: "nat \<Rightarrow> bool" where
  "long_escape n \<longleftrightarrow> n < 32 \<or> n = 38 \<or> n = 60 \<or> n = 62"

definition escape :: "char \<Rightarrow> string" where
  "escape c =
     (let n = of_char c :: nat in
      case short_escape n of
        Some m \<Rightarrow> [backslash, char_of m]
      | None \<Rightarrow>
          (if long_escape n then backslash # ''u00'' @ [hex_char (n div 16), hex_char (n mod 16)] else [c]))"

definition quote_rest :: "string \<Rightarrow> string" where
  "quote_rest s = concat (map escape s) @ [quotation]"

fun marshal :: "json \<Rightarrow> string"
  and marshal_elems :: "json list \<Rightarrow> string"
  and marshal_fields :: "(string \<times> json) list \<Rightarrow> string"
where
  "marshal (JInt i) = int_string i"
| "marshal (JStr s) = quotation # quote_rest s"
| "marshal (JArr []) = ''[]''"
| "marshal (JArr (v # vs)) = ''['' @ marshal v @ marshal_elems vs"
| "marshal (JObj []) = ''{}''"
| "marshal (JObj ((k, v) # kvs)) = CHR ''{'' # quotation # quote_rest k @ '':'' @ marshal v @ marshal_fields kvs"
| "marshal_elems [] = '']''"
| "marshal_elems (v # vs) = '','' @ marshal v @ marshal_elems vs"
| "marshal_fields [] = ''}''"
| "marshal_fields ((k, v) # kvs) = CHR '','' # quotation # quote_rest k @ '':'' @ marshal v @ marshal_fields kvs"

subsection \<open>Reading\<close>

definition short_unescape :: "nat \<Rightarrow> nat option" where
  "short_unescape m =
     (if m = 34 then Some 34 else if m = 92 then Some 92 else if m = 98 then Some 8 else if m = 102 then Some 12
      else if m = 110 then Some 10 else if m = 114 then Some 13 else if m = 116 then Some 9 else None)"

text \<open>After the opening quotation mark: the text up to the closing one, and the rest.\<close>

fun unquote :: "string \<Rightarrow> (string \<times> string) option" where
  "unquote [] = None"
| "unquote (c # r) =
     (if c = quotation then Some ([], r)
      else if c \<noteq> backslash then map_option (apfst (Cons c)) (unquote r)
      else
        (case r of
           [] \<Rightarrow> None
         | d # r1 \<Rightarrow>
             (case short_unescape (of_char d) of
                Some n \<Rightarrow> map_option (apfst (Cons (char_of n))) (unquote r1)
              | None \<Rightarrow>
                  (case r1 of
                     z1 # z2 # h # l # r2 \<Rightarrow>
                       (case (hex_val h, hex_val l) of
                          (Some x, Some y) \<Rightarrow>
                            (if [d, z1, z2] = ''u00'' then map_option (apfst (Cons (char_of (16 * x + y)))) (unquote r2)
                             else None)
                        | _ \<Rightarrow> None)
                   | _ \<Rightarrow> None))))"

definition read_digits :: "string \<Rightarrow> (nat \<times> string) option" where
  "read_digits s =
     (let ds = takeWhile is_digit s in if ds = [] then None else Some (dec_value_from 0 ds, dropWhile is_digit s))"

definition read_int :: "string \<Rightarrow> (int \<times> string) option" where
  "read_int s =
     (case s of
        [] \<Rightarrow> None
      | c # r \<Rightarrow>
          (if c = CHR ''-'' then map_option (apfst (\<lambda>n. - int n)) (read_digits r)
           else map_option (apfst int) (read_digits s)))"

text \<open>The fuel bounds the nesting and the number of elements; the length of the text is enough.\<close>

fun read_value :: "nat \<Rightarrow> string \<Rightarrow> (json \<times> string) option"
  and read_elems :: "nat \<Rightarrow> string \<Rightarrow> (json list \<times> string) option"
  and read_field :: "nat \<Rightarrow> string \<Rightarrow> ((string \<times> json) \<times> string) option"
  and read_fields :: "nat \<Rightarrow> string \<Rightarrow> ((string \<times> json) list \<times> string) option"
where
  "read_value 0 s = None"
| "read_value (Suc n) s =
     (case s of
        [] \<Rightarrow> None
      | c # r \<Rightarrow>
          (if c = quotation then map_option (apfst JStr) (unquote r)
           else if c = CHR ''['' then
             (if take 1 r = '']'' then Some (JArr [], drop 1 r)
              else do { (v, r1) \<leftarrow> read_value n r; (vs, r2) \<leftarrow> read_elems n r1; Some (JArr (v # vs), r2) })
           else if c = CHR ''{'' then
             (if take 1 r = ''}'' then Some (JObj [], drop 1 r)
              else do { (kv, r1) \<leftarrow> read_field n r; (kvs, r2) \<leftarrow> read_fields n r1; Some (JObj (kv # kvs), r2) })
           else map_option (apfst JInt) (read_int s)))"
| "read_elems 0 s = None"
| "read_elems (Suc n) s =
     (if take 1 s = '']'' then Some ([], drop 1 s)
      else if take 1 s = '','' then
        do { (v, r1) \<leftarrow> read_value n (drop 1 s); (vs, r2) \<leftarrow> read_elems n r1; Some (v # vs, r2) }
      else None)"
| "read_field 0 s = None"
| "read_field (Suc n) s =
     (if take 1 s = [quotation] then
        do { (k, r1) \<leftarrow> unquote (drop 1 s);
             if take 1 r1 = '':'' then do { (v, r2) \<leftarrow> read_value n (drop 1 r1); Some ((k, v), r2) } else None }
      else None)"
| "read_fields 0 s = None"
| "read_fields (Suc n) s =
     (if take 1 s = ''}'' then Some ([], drop 1 s)
      else if take 1 s = '','' then
        do { (kv, r1) \<leftarrow> read_field n (drop 1 s); (kvs, r2) \<leftarrow> read_fields n r1; Some (kv # kvs, r2) }
      else None)"

definition read_json :: "string \<Rightarrow> json option" where
  "read_json s = (case read_value (length s) s of Some (v, []) \<Rightarrow> Some v | _ \<Rightarrow> None)"

subsection \<open>Round trip\<close>

lemma short_escape_back: "short_escape n = Some m \<Longrightarrow> short_unescape m = Some n"
  by (auto simp: short_escape_def short_unescape_def split: if_splits)

lemma short_escape_range: "short_escape n = Some m \<Longrightarrow> m < 256"
  by (auto simp: short_escape_def split: if_splits)

lemma char_eq_iff: "c = char_of n \<longleftrightarrow> of_char c = n" if "n < 256" for c and n :: nat
  using that by (metis char_of_char of_char_of mod_less)

lemma unquote_escape: "unquote (escape c @ s) = map_option (apfst (Cons c)) (unquote s)"
proof -
  let ?n = "of_char c :: nat"
  consider (short) m where "short_escape ?n = Some m"
    | (long) "short_escape ?n = None" "long_escape ?n"
    | (plain) "short_escape ?n = None" "\<not> long_escape ?n" by fastforce
  then show ?thesis
  proof cases
    case (short m)
    then have "escape c = [backslash, char_of m]" by (simp add: escape_def Let_def)
    moreover have "short_unescape (of_char (char_of m :: char)) = Some ?n"
      using short_escape_back [OF short] short_escape_range [OF short] by simp
    moreover have "backslash \<noteq> quotation" by (simp add: backslash_def quotation_def)
    ultimately show ?thesis by simp
  next
    case long
    then have n: "?n < 256" "?n div 16 < 16" by (auto simp: long_escape_def)
    have "escape c = backslash # ''u00'' @ [hex_char (?n div 16), hex_char (?n mod 16)]"
      using long by (simp add: escape_def Let_def)
    moreover have "backslash \<noteq> quotation" by (simp add: backslash_def quotation_def)
    moreover have "short_unescape (of_char CHR ''u'') = None" by (simp add: short_unescape_def)
    ultimately show ?thesis using n by simp
  next
    case plain
    then have "?n \<noteq> 34" "?n \<noteq> 92" by (auto simp: short_escape_def split: if_splits)
    then have "c \<noteq> quotation" "c \<noteq> backslash" by (auto simp: quotation_def backslash_def)
    moreover have "escape c = [c]" using plain by (simp add: escape_def Let_def)
    ultimately show ?thesis by simp
  qed
qed

lemma unquote_quote: "unquote (quote_rest s @ rest) = Some (s, rest)"
proof (induction s)
  case (Cons c s)
  have "quote_rest (c # s) @ rest = escape c @ quote_rest s @ rest" by (simp add: quote_rest_def)
  with Cons show ?case by (simp only: unquote_escape) simp
qed (simp add: quote_rest_def)

interpretation json_string: prefix_codec quote_rest unquote "\<lambda>_. True"
  by unfold_locales (simp add: unquote_quote)

text \<open>What may follow a value: nothing that continues a number.\<close>

definition ends :: "string \<Rightarrow> bool" where
  "ends rest \<longleftrightarrow> takeWhile is_digit rest = []"

lemma ends_Cons [simp]: "ends (c # rest) \<longleftrightarrow> \<not> is_digit c"
  by (simp add: ends_def)

lemma ends_Nil [simp]: "ends []"
  by (simp add: ends_def)

lemma punctuation [simp]: "\<not> is_digit CHR '',''" "\<not> is_digit CHR '']''" "\<not> is_digit CHR ''}''"
  by (simp_all add: is_digit_def)

lemma ends_elems [simp]: "ends (marshal_elems vs @ rest)"
  by (cases vs) simp_all

lemma ends_fields [simp]: "ends (marshal_fields kvs @ rest)"
proof (cases kvs)
  case (Cons kv kvs')
  then show ?thesis by (cases kv) simp
qed simp

lemma read_digits_dec: "ends rest \<Longrightarrow> read_digits (dec_string n @ rest) = Some (n, rest)"
proof -
  assume "ends rest"
  then have "takeWhile is_digit (dec_string n @ rest) = dec_string n" "dropWhile is_digit (dec_string n @ rest) = rest"
    using dec_string_digits by (auto simp: takeWhile_append dropWhile_append ends_def takeWhile_eq_Nil_iff dropWhile_eq_self_iff)
  then show ?thesis by (simp add: read_digits_def)
qed

lemma dec_string_hd: "is_digit (hd (dec_string n @ rest))" "hd (dec_string n @ rest) \<noteq> CHR ''-''"
  using dec_string_digits [of "hd (dec_string n)" n] digit_plain(4) by (auto simp: hd_append)

lemma read_int_string: "ends rest \<Longrightarrow> read_int (int_string i @ rest) = Some (i, rest)"
proof (cases "i < 0")
  case False
  moreover assume "ends rest"
  moreover obtain c r where c: "dec_string (nat i) @ rest = c # r" by (cases "dec_string (nat i) @ rest") auto
  moreover have "c \<noteq> CHR ''-''" using dec_string_hd(2) [of "nat i" rest] c by simp
  ultimately show ?thesis
    using read_digits_dec [of rest "nat i"] by (simp add: read_int_def int_string_def)
qed (simp add: read_int_def int_string_def read_digits_dec)

lemma quotation_neq [simp]:
  "quotation \<noteq> CHR ''-''" "quotation \<noteq> CHR ''[''" "quotation \<noteq> CHR ''{''" "quotation \<noteq> CHR '']''" "quotation \<noteq> CHR ''}''"
  "CHR ''-'' \<noteq> quotation" "CHR ''['' \<noteq> quotation" "CHR ''{'' \<noteq> quotation"
  by code_simp+

lemma digit_neq_quotation: "is_digit c \<Longrightarrow> c \<noteq> quotation"
proof
  have "\<not> is_digit quotation" by code_simp
  moreover assume "is_digit c" "c = quotation"
  ultimately show False by simp
qed

lemma int_string_first: "\<exists>c r. int_string i = c # r \<and> (c = CHR ''-'' \<or> is_digit c)"
proof (cases "i < 0")
  case False
  obtain c r where "dec_string (nat i) = c # r" by (cases "dec_string (nat i)") auto
  moreover from this have "is_digit c" using dec_string_digits [of c "nat i"] by simp
  ultimately show ?thesis using False by (simp add: int_string_def)
qed (simp add: int_string_def)

lemma number_first:
  "c = CHR ''-'' \<or> is_digit c \<Longrightarrow> c \<noteq> quotation \<and> c \<noteq> CHR ''['' \<and> c \<noteq> CHR ''{'' \<and> c \<noteq> CHR '']''"
  using digit_neq_quotation [of c] digit_plain(2,3) [of c] by (auto simp: is_digit_def [of "CHR ''{''"])

lemma marshal_first: "take 1 (marshal v @ rest) \<noteq> '']''" "marshal v \<noteq> []"
proof -
  have "\<exists>c r. marshal v = c # r \<and> c \<noteq> CHR '']''"
  proof (cases v)
    case (JInt i)
    with int_string_first [of i] number_first show ?thesis by fastforce
  next
    case (JArr vs)
    then show ?thesis by (cases vs) auto
  next
    case (JObj kvs)
    then show ?thesis by (cases kvs) auto
  qed simp
  then show "take 1 (marshal v @ rest) \<noteq> '']''" "marshal v \<noteq> []" by auto
qed

lemma read_value_int: "ends rest \<Longrightarrow> read_value (Suc n) (int_string i @ rest) = Some (JInt i, rest)"
proof -
  assume "ends rest"
  obtain c r where c: "int_string i = c # r" "c = CHR ''-'' \<or> is_digit c" using int_string_first by blast
  have "read_int (c # r @ rest) = Some (i, rest)" using read_int_string [OF \<open>ends rest\<close>, of i] c(1) by simp
  with c number_first [OF c(2)] show ?thesis by simp
qed

lemma read_field_quote:
  "read_value n s = Some (v, rest) \<Longrightarrow>
   read_field (Suc n) (quotation # quote_rest k @ CHR '':'' # s) = Some ((k, v), rest)"
  by (simp add: unquote_quote)

lemma read_marshal:
  "ends rest \<Longrightarrow> length (marshal v) \<le> n \<Longrightarrow> read_value n (marshal v @ rest) = Some (v, rest)"
  "length (marshal_elems vs) \<le> n \<Longrightarrow> read_elems n (marshal_elems vs @ rest) = Some (vs, rest)"
  "length (marshal_fields kvs) \<le> n \<Longrightarrow> read_fields n (marshal_fields kvs @ rest) = Some (kvs, rest)"
proof (induction v and vs and kvs arbitrary: n rest and n rest and n rest
    rule: marshal_marshal_elems_marshal_fields.induct)
  case (1 i)
  then obtain m where "n = Suc m" using marshal_first(2) [of "JInt i"] by (cases n) auto
  with 1 read_value_int show ?case by simp
next
  case (2 s)
  then obtain m where "n = Suc m" by (cases n) auto
  then show ?case by (simp add: unquote_quote)
next
  case 3
  then obtain m where "n = Suc m" by (cases n) auto
  then show ?case by simp
next
  case (4 v vs)
  then obtain m where m: "n = Suc m" by (cases n) auto
  with 4 have "read_value m (marshal v @ marshal_elems vs @ rest) = Some (v, marshal_elems vs @ rest)"
    "read_elems m (marshal_elems vs @ rest) = Some (vs, rest)" by simp_all
  with m marshal_first(1) [of v "marshal_elems vs @ rest"] show ?case
    by simp
next
  case 5
  then obtain m where "n = Suc m" by (cases n) auto
  then show ?case by simp
next
  case (6 k v kvs)
  then obtain p m where p: "n = Suc p" "p = Suc m" by (cases n; cases "n - 1") auto
  have "read_value m (marshal v @ marshal_fields kvs @ rest) = Some (v, marshal_fields kvs @ rest)"
    by (rule 6(1)) (use 6 p in auto)
  from read_field_quote [OF this, of k] have f: "read_field p (quotation # quote_rest k @ CHR '':'' #
      marshal v @ marshal_fields kvs @ rest) = Some ((k, v), marshal_fields kvs @ rest)" by (simp only: p(2))
  have "read_fields p (marshal_fields kvs @ rest) = Some (kvs, rest)" by (rule 6(2)) (use 6 p in auto)
  with f p(1) show ?case by simp
next
  case 7
  then obtain m where "n = Suc m" by (cases n) auto
  then show ?case by simp
next
  case (8 v vs)
  then obtain m where m: "n = Suc m" by (cases n) auto
  with 8 have "read_value m (marshal v @ marshal_elems vs @ rest) = Some (v, marshal_elems vs @ rest)"
    "read_elems m (marshal_elems vs @ rest) = Some (vs, rest)" by simp_all
  with m show ?case by simp
next
  case 9
  then obtain m where "n = Suc m" by (cases n) auto
  then show ?case by simp
next
  case (10 k v kvs)
  then obtain p m where p: "n = Suc p" "p = Suc m" by (cases n; cases "n - 1") auto
  have "read_value m (marshal v @ marshal_fields kvs @ rest) = Some (v, marshal_fields kvs @ rest)"
    by (rule 10(1)) (use 10 p in auto)
  from read_field_quote [OF this, of k] have f: "read_field p (quotation # quote_rest k @ CHR '':'' #
      marshal v @ marshal_fields kvs @ rest) = Some ((k, v), marshal_fields kvs @ rest)" by (simp only: p(2))
  have "read_fields p (marshal_fields kvs @ rest) = Some (kvs, rest)" by (rule 10(2)) (use 10 p in auto)
  with f p(1) show ?case by simp
qed

interpretation json_text: codec marshal read_json "\<lambda>_. True"
  by unfold_locales (use read_marshal(1) [of "[]"] in \<open>simp add: read_json_def\<close>)

end
