(* ===== verification/Reports.thy ===== *)
theory Reports
  imports Engine_State Json_Text
begin

text \<open>
  The two reports of \<open>go/engine.go\<close>: \<open>StatsLine\<close>, a line of counters with the traffic in
  megabytes, and \<open>Diagnostics\<close>, a JSON snapshot. What they read of the netstack (established
  and connected TCP endpoints, queued packets) is an argument. The megabytes go through
  \<open>float64\<close>: conversion and division round to 53 bits, printing with one digit rounds once more,
  each time to the nearest value and halves to even.
\<close>

definition channelSize :: nat where "channelSize = 4096"

record stack_stats =
  currentEstablished :: u64
  currentConnected :: u64
  numQueued :: nat

subsection \<open>Megabytes\<close>

text \<open>The integer nearest to \<open>n / d\<close>, halves to even.\<close>

definition round_even :: "nat \<Rightarrow> nat \<Rightarrow> nat" where
  "round_even n d =
     (let q = n div d; r = n mod d in if 2 * r < d \<or> 2 * r = d \<and> even q then q else Suc q)"

text \<open>\<open>float64(x)\<close>: for a 64-bit \<open>x\<close> the last 11 bits at most are rounded away; the value is an integer.\<close>

definition float_shift :: "nat \<Rightarrow> nat" where
  "float_shift x = (case find (\<lambda>k. x < 2 ^ (53 + k)) [0..<11] of Some k \<Rightarrow> k | None \<Rightarrow> 11)"

definition float64 :: "nat \<Rightarrow> nat" where
  "float64 x = round_even x (2 ^ float_shift x) * 2 ^ float_shift x"

text \<open>
  The quotient of a float \<open>f > 0\<close> by \<open>10^6\<close>: scaled by the least power of two that gives 53
  bits before the point, and rounded to an integer; the quotient is \<open>m / 2^k\<close>.
\<close>

definition div_scale :: "nat \<Rightarrow> nat" where
  "div_scale f = (case find (\<lambda>k. 2 ^ 52 * 10 ^ 6 \<le> f * 2 ^ k) [0..<73] of Some k \<Rightarrow> k | None \<Rightarrow> 0)"

definition mega :: "nat \<Rightarrow> nat \<times> nat" where
  "mega f = (round_even (f * 2 ^ div_scale f) (10 ^ 6), div_scale f)"

text \<open>\<open>%.1f\<close>: the tenths, and their text.\<close>

definition mb_tenths :: "u64 \<Rightarrow> nat" where
  "mb_tenths x = (case mega (float64 (unat x)) of (m, k) \<Rightarrow> round_even (10 * m) (2 ^ k))"

definition mb_text :: "u64 \<Rightarrow> string" where
  "mb_text x = dec_string (mb_tenths x div 10) @ ''.'' @ dec_string (mb_tenths x mod 10)"

lemma round_even_bounds:
  assumes "0 < d"
  shows "2 * (round_even n d * d) \<le> 2 * n + d" "2 * n \<le> 2 * (round_even n d * d) + d"
proof -
  have n: "n = n div d * d + n mod d" "n mod d < d" using assms by auto
  have "round_even n d = n div d \<and> 2 * (n mod d) \<le> d \<or> round_even n d = Suc (n div d) \<and> d \<le> 2 * (n mod d)"
    by (auto simp: round_even_def Let_def)
  then have "2 * (round_even n d * d) \<le> 2 * n + d \<and> 2 * n \<le> 2 * (round_even n d * d) + d"
  proof (elim disjE conjE)
    assume "round_even n d = n div d" and r: "2 * (n mod d) \<le> d"
    then have "round_even n d * d = n div d * d" by simp
    with r n show ?thesis by linarith
  next
    assume "round_even n d = Suc (n div d)" and r: "d \<le> 2 * (n mod d)"
    then have "round_even n d * d = n div d * d + d" by simp
    with r n show ?thesis by linarith
  qed
  then show "2 * (round_even n d * d) \<le> 2 * n + d" "2 * n \<le> 2 * (round_even n d * d) + d" by auto
qed

lemma find_upt_le: "find P [0..<n] = Some k \<Longrightarrow> P k \<and> k < n"
  by (auto simp: find_Some_iff)

lemma float_shift_le: "float_shift x \<le> 11"
  by (auto simp: float_shift_def split: option.split dest: find_upt_le)

lemma float64_small: "x < 2 ^ 53 \<Longrightarrow> float64 x = x"
proof -
  assume "x < 2 ^ 53"
  then have "find (\<lambda>k. x < 2 ^ (53 + k)) [0..<11] = Some 0"
    unfolding find_Some_iff by (intro exI [of _ 0]) simp
  then have "float_shift x = 0" by (simp add: float_shift_def)
  then show ?thesis by (simp add: float64_def round_even_def)
qed

lemma float64_bounds: "2 * float64 x \<le> 2 * x + 2048" "2 * x \<le> 2 * float64 x + 2048"
proof -
  have p: "(2 :: nat) ^ float_shift x \<le> 2048"
    using power_increasing [OF float_shift_le [of x], of "2 :: nat"] by simp
  show "2 * float64 x \<le> 2 * x + 2048" "2 * x \<le> 2 * float64 x + 2048"
    using round_even_bounds [of "2 ^ float_shift x" x] p by (auto simp: float64_def)
qed

lemma div_scale_ok:
  assumes "0 < f"
  shows "2 ^ 52 * 10 ^ 6 \<le> f * 2 ^ div_scale f"
proof -
  have "2 ^ 52 * 10 ^ 6 \<le> f * 2 ^ 72" using assms by (cases f) auto
  then have "find (\<lambda>k. 2 ^ 52 * 10 ^ 6 \<le> f * 2 ^ k) [0..<73] \<noteq> None"
    unfolding find_None_iff by (auto simp del: power_numeral intro: exI [of _ 72])
  then obtain k where "find (\<lambda>k. 2 ^ 52 * 10 ^ 6 \<le> f * 2 ^ k) [0..<73] = Some k" by blast
  with find_upt_le [OF this] show ?thesis by (simp add: div_scale_def)
qed

text \<open>The printed tenths are off by at most half a tenth and the two roundings before.\<close>

lemma mega_bounds:
  assumes "0 < f"
  obtains m k where "mega f = (m, k)" and "2 * (m * 10 ^ 6) \<le> 2 * (f * 2 ^ k) + 10 ^ 6"
    "2 * (f * 2 ^ k) \<le> 2 * (m * 10 ^ 6) + 10 ^ 6" "2 ^ 52 * 10 ^ 6 \<le> f * 2 ^ k"
  using round_even_bounds [of "10 ^ 6" "f * 2 ^ div_scale f"] div_scale_ok [OF assms]
  by (intro that [of "round_even (f * 2 ^ div_scale f) (10 ^ 6)" "div_scale f"]) (auto simp: mega_def)

lemma tenths_bounds:
  fixes f m t P c :: nat
  assumes "2 * (m * 10 ^ 6) \<le> 2 * (f * P) + 10 ^ 6" and "2 * (f * P) \<le> 2 * (m * 10 ^ 6) + 10 ^ 6"
    and "2 * (t * P) \<le> 2 * (10 * m) + P" and "2 * (10 * m) \<le> 2 * (t * P) + P"
    and "500000 < P * Suc c"
  shows "t * 100000 \<le> f + 50000 + c" and "f \<le> t * 100000 + 50000 + c"
proof -
  show "t * 100000 \<le> f + 50000 + c"
  proof (rule ccontr)
    assume "\<not> t * 100000 \<le> f + 50000 + c"
    then have "P * (f + 50000 + Suc c) \<le> P * (t * 100000)" by (intro mult_le_mono2) simp
    then have "f * P + 50000 * P + P * Suc c \<le> 100000 * (t * P)" by (simp add: algebra_simps)
    with assms show False by simp
  qed
  show "f \<le> t * 100000 + 50000 + c"
  proof (rule ccontr)
    assume "\<not> f \<le> t * 100000 + 50000 + c"
    then have "P * (t * 100000 + 50000 + Suc c) \<le> P * f" by (intro mult_le_mono2) simp
    then have "100000 * (t * P) + 50000 * P + P * Suc c \<le> f * P" by (simp add: algebra_simps)
    with assms show False by simp
  qed
qed

lemma mb_tenths_bounds:
  assumes "0 < float64 (unat x)" and "\<And>P. 2 ^ 52 * 10 ^ 6 \<le> float64 (unat x) * P \<Longrightarrow> 500000 < P * Suc c"
  shows "mb_tenths x * 100000 \<le> float64 (unat x) + 50000 + c \<and> float64 (unat x) \<le> mb_tenths x * 100000 + 50000 + c"
proof -
  obtain m k where m: "mega (float64 (unat x)) = (m, k)"
    "2 * (m * 10 ^ 6) \<le> 2 * (float64 (unat x) * 2 ^ k) + 10 ^ 6"
    "2 * (float64 (unat x) * 2 ^ k) \<le> 2 * (m * 10 ^ 6) + 10 ^ 6"
    "2 ^ 52 * 10 ^ 6 \<le> float64 (unat x) * 2 ^ k" by (rule mega_bounds [OF assms(1)])
  have t: "mb_tenths x = round_even (10 * m) (2 ^ k)" using m(1) by (simp add: mb_tenths_def)
  show ?thesis unfolding t
    using tenths_bounds [OF m(2,3) round_even_bounds [of "2 ^ k" "10 * m"] assms(2) [OF m(4)]] by simp
qed

lemma abs_int_le: "a \<le> b + c \<Longrightarrow> b \<le> a + c \<Longrightarrow> \<bar>int a - int b\<bar> \<le> int c" for a b c :: nat
  by linarith

subsection \<open>The line\<close>

definition u64_text :: "u64 \<Rightarrow> string" where "u64_text x = dec_string (unat x)"

definition StatsLine :: "stack_stats \<Rightarrow> nat \<Rightarrow> Engine \<Rightarrow> string" where
  "StatsLine st cacheLen e =
     ''tcpConns='' @ int_string (activeConns e) @ '' udpConns='' @ int_string (activeUDPConns e) @
     '' gvisorEstab='' @ u64_text (currentEstablished st) @ '' gvisorConn='' @ u64_text (currentConnected st) @
     '' chanQueued='' @ dec_string (numQueued st) @ ''/'' @ dec_string channelSize @
     '' txMB='' @ mb_text (txBytes e) @ '' rxMB='' @ mb_text (rxBytes e) @
     '' cacheEntries='' @ dec_string cacheLen @ '' dialFails='' @ u64_text (socksDialFails e) @
     '' quicRej='' @ u64_text (quicRejects e) @ '' zombies='' @ u64_text (zombieKills e)"

subsection \<open>The snapshot\<close>

definition json_u64 :: "u64 \<Rightarrow> json" where "json_u64 x = JInt (uint x)"

definition conn_json :: "connDiag \<Rightarrow> json" where
  "conn_json c = JObj [(''dst'', JStr (Dst c)), (''ageSec'', JInt (AgeSec c)),
     (''txIdleSec'', JInt (TxIdleSec c)), (''rxIdleSec'', JInt (RxIdleSec c))]"

text \<open>A Go map is marshaled in the order of its keys.\<close>

definition snapshot_json :: "int \<Rightarrow> stack_stats \<Rightarrow> u64 list \<Rightarrow> nat \<Rightarrow> Engine \<Rightarrow> json" where
  "snapshot_json now st order cacheLen e =
     JObj [(''cacheLen'', JInt (int cacheLen)), (''chanQueued'', JInt (int (numQueued st))),
       (''conns'', JArr (map conn_json (diag_conns now e order []))), (''dialFails'', json_u64 (socksDialFails e)),
       (''gvisorEstab'', json_u64 (currentEstablished st)), (''lastRxSec'', JInt (go_div (now - elastRxMs e) 1000)),
       (''quicRejects'', json_u64 (quicRejects e)), (''rxBytes'', json_u64 (rxBytes e)),
       (''tcpConns'', JInt (activeConns e)), (''txBytes'', json_u64 (txBytes e)),
       (''udpConns'', JInt (activeUDPConns e)), (''zombieKills'', json_u64 (zombieKills e))]"

definition Diagnostics :: "int \<Rightarrow> stack_stats \<Rightarrow> u64 list \<Rightarrow> nat \<Rightarrow> Engine \<Rightarrow> string" where
  "Diagnostics now st order cacheLen e = marshal (snapshot_json now st order cacheLen e)"

text \<open>The fields of an object, and the rows of the connection table, by name.\<close>

fun field :: "string \<Rightarrow> json \<Rightarrow> json option" where
  "field k (JObj kvs) = map_of kvs k"
| "field k _ = None"

fun number :: "json option \<Rightarrow> int option" where
  "number (Some (JInt i)) = Some i"
| "number _ = None"

fun characters :: "json option \<Rightarrow> string option" where
  "characters (Some (JStr s)) = Some s"
| "characters _ = None"

text \<open>Destination, age, and time since the last upload and download payload, in seconds.\<close>

definition row :: "json \<Rightarrow> (string \<times> int \<times> int \<times> int) option" where
  "row v = do { d \<leftarrow> characters (field ''dst'' v); a \<leftarrow> number (field ''ageSec'' v);
     t \<leftarrow> number (field ''txIdleSec'' v); r \<leftarrow> number (field ''rxIdleSec'' v); Some (d, a, t, r) }"

fun rows :: "json option \<Rightarrow> (string \<times> int \<times> int \<times> int) option list" where
  "rows (Some (JArr vs)) = map row vs"
| "rows _ = []"

text \<open>The row a tracked connection should have.\<close>

definition conn_row :: "int \<Rightarrow> trackedConn \<Rightarrow> string \<times> int \<times> int \<times> int" where
  "conn_row now tc = (dst tc, go_div (now - createdMs tc) 1000, go_div (now - lastTxMs tc) 1000, go_div (now - lastRxMs tc) 1000)"

lemma row_conn: "row (conn_json c) = Some (Dst c, AgeSec c, TxIdleSec c, RxIdleSec c)"
  by (simp add: row_def conn_json_def)

lemma diag_rows:
  assumes "set order \<subseteq> dom (conns e)" and "length acc \<le> 200"
  shows "map (row \<circ> conn_json) (diag_conns now e order acc) =
    map (row \<circ> conn_json) acc @ take (200 - length acc) (map (\<lambda>i. Some (conn_row now (tcs e (the (conns e i))))) order)"
  using assms
proof (induction order arbitrary: acc)
  case (Cons i order)
  then obtain p where p: "conns e i = Some p" by auto
  show ?case
  proof (cases "length acc < 200")
    case True
    then obtain n where "200 - length acc = Suc n" "n = 200 - Suc (length acc)"
      by (metis Suc_diff_Suc)
    with True p Cons show ?thesis by (auto simp: Let_def row_conn conn_row_def)
  qed (use p Cons in simp)
qed simp

subsection \<open>Properties\<close>

text \<open>
  C39: the megabytes are right. For traffic below 2^53 bytes the printed tenths of a megabyte
  are the nearest ones (within 50000 bytes), although two floating-point roundings lie in
  between; for larger 64-bit counters they are within 53100 bytes.
\<close>

theorem megabytes_accurate:
  "\<bar>int (mb_tenths x * 100000) - int (unat x)\<bar> \<le> (if unat x < 2 ^ 53 then 50000 else 53100)"
proof (cases "unat x < 2 ^ 53")
  case True
  then have f: "float64 (unat x) = unat x" by (rule float64_small)
  show ?thesis
  proof (cases "unat x = 0")
    case True
    then have "mb_tenths x = 0" by (simp add: mb_tenths_def mega_def float64_small round_even_def)
    with True show ?thesis by simp
  next
    case False
    have "500000 < P * Suc 0" if "2 ^ 52 * 10 ^ 6 \<le> float64 (unat x) * P" for P
    proof (rule ccontr)
      assume "\<not> 500000 < P * Suc 0"
      then have "unat x * P \<le> unat x * 500000" by (intro mult_le_mono2) simp
      with that True f show False by simp
    qed
    from mb_tenths_bounds [of x 0, OF _ this] f False
    have "mb_tenths x * 100000 \<le> unat x + 50000" "unat x \<le> mb_tenths x * 100000 + 50000" by simp_all
    from abs_int_le [OF this] True show ?thesis by simp
  qed
next
  case False
  note b = float64_bounds [of "unat x"]
  have x: "unat x < 2 ^ 64" using unsigned_less [of x] by simp
  have "500000 < P * Suc 2049" if "2 ^ 52 * 10 ^ 6 \<le> float64 (unat x) * P" for P
  proof (rule ccontr)
    assume "\<not> 500000 < P * Suc 2049"
    then have "P \<le> 243" by simp
    then have "float64 (unat x) * P \<le> (2 ^ 64 + 1024) * 243"
      using b x by (intro mult_le_mono) simp_all
    with that show False by simp
  qed
  from mb_tenths_bounds [of x 2049, OF _ this] b False
  have "mb_tenths x * 100000 \<le> unat x + 53100" "unat x \<le> mb_tenths x * 100000 + 53100" by simp_all
  from abs_int_le [OF this] False show ?thesis by simp
qed

text \<open>
  C38: the diagnostics can be read. Whatever the state of the engine and the destinations in
  its table, the text is JSON, and a reader finds under each name the right number: the flows
  (\<open>tcpConns\<close>, \<open>udpConns\<close>), the netstack's established endpoints and queued packets, the bytes
  of both directions, the seconds since the last download packet, the size of the cache, the
  failed dials, the rejected QUIC packets and the zombies; and in the table \<open>conns\<close> one row
  for each of the first 200 connections the iteration meets, which are all when at most 200
  are tracked, with its destination, its age and how long each direction has been idle, in
  seconds.
\<close>

theorem diagnostics_readable:
  assumes "enumerates order (conns e)"
  shows "\<exists>j. read_json (Diagnostics now st order cacheLen e) = Some j \<and>
    number (field ''tcpConns'' j) = Some (activeConns e) \<and> number (field ''udpConns'' j) = Some (activeUDPConns e) \<and>
    number (field ''gvisorEstab'' j) = Some (uint (currentEstablished st)) \<and>
    number (field ''chanQueued'' j) = Some (int (numQueued st)) \<and>
    number (field ''txBytes'' j) = Some (uint (txBytes e)) \<and> number (field ''rxBytes'' j) = Some (uint (rxBytes e)) \<and>
    number (field ''lastRxSec'' j) = Some (go_div (now - elastRxMs e) 1000) \<and>
    number (field ''cacheLen'' j) = Some (int cacheLen) \<and>
    number (field ''dialFails'' j) = Some (uint (socksDialFails e)) \<and>
    number (field ''quicRejects'' j) = Some (uint (quicRejects e)) \<and>
    number (field ''zombieKills'' j) = Some (uint (zombieKills e)) \<and>
    rows (field ''conns'' j) = take 200 (map (\<lambda>i. Some (conn_row now (tcs e (the (conns e i))))) order) \<and>
    length (rows (field ''conns'' j)) = min 200 (card (dom (conns e)))"
proof (rule exI [of _ "snapshot_json now st order cacheLen e"], intro conjI)
  let ?c = "field ''conns'' (snapshot_json now st order cacheLen e)"
  have "?c = Some (JArr (map conn_json (diag_conns now e order [])))" by (simp add: snapshot_json_def)
  then have "rows ?c = map (row \<circ> conn_json) (diag_conns now e order [])" by simp
  with diag_rows [of order e "[]" now] assms
  show R: "rows ?c = take 200 (map (\<lambda>i. Some (conn_row now (tcs e (the (conns e i))))) order)"
    by (simp add: enumerates_def)
  have "length order = card (dom (conns e))"
    using assms by (metis distinct_card enumerates_def)
  then show "length (rows ?c) = min 200 (card (dom (conns e)))" by (simp only: R length_take length_map min.commute)
  show "read_json (Diagnostics now st order cacheLen e) = Some (snapshot_json now st order cacheLen e)"
    by (simp add: Diagnostics_def json_text.roundtrip)
qed (simp_all add: snapshot_json_def json_u64_def)

lemma diagnostics_readable_witness:
  "\<exists>j. read_json (Diagnostics 5000 \<lparr>currentEstablished = 2, currentConnected = 2, numQueued = 0\<rparr> [1, 2] 7 demo_engine) = Some j \<and>
     number (field ''gvisorEstab'' j) = Some 2 \<and> number (field ''cacheLen'' j) = Some 7 \<and>
     rows (field ''conns'' j) = [Some ([], 4, 5, 5), Some ([], 4, 5, 5)]"
proof -
  have c: "conns demo_engine = [1 \<mapsto> 0, 2 \<mapsto> 1]" "tcs demo_engine = (\<lambda>p. zero_tc\<lparr>app := 10 + p, createdMs := 1000\<rparr>)"
    by (simp_all add: demo_engine_def new_engine_def trackConn_def trackUDPConn_def)
  have d: "dom (conns demo_engine) = {2, 1}" by (simp add: c)
  then have e: "enumerates [1, 2] (conns demo_engine)" by (auto simp only: enumerates_def d) simp_all
  have r: "take 200 (map (\<lambda>i. Some (conn_row 5000 (tcs demo_engine (the (conns demo_engine i))))) [1, 2]) =
      [Some ([], 4, 5, 5), Some ([], 4, 5, 5)]"
    by (simp add: c conn_row_def zero_tc_def go_div_def)
  from diagnostics_readable [OF e, of 5000 "\<lparr>currentEstablished = 2, currentConnected = 2, numQueued = 0\<rparr>" 7]
  show ?thesis unfolding r by auto
qed

end
