(* ===== verification/Facade.thy ===== *)
theory Facade
  imports Tun_Loop Reports
begin

text \<open>
  The public API of \<open>go/teapod_tun2socks.go\<close>. \<open>TeapodTun2socks\<close> holds a pointer to the
  current engine and one to its hook; engines it has dropped live on while goroutines use
  them. Engines are numbered in the order they were created, and a hook by the engine that
  owns it. \<open>Start\<close> launches a goroutine that runs \<open>Engine.Start\<close> some time later
  (\<open>to_start\<close>), and \<open>Stop\<close> calls \<open>Engine.Stop\<close> after it released the mutex, as do the read
  loops (\<open>to_stop\<close>): the step relation interleaves these with every other call.
\<close>

record TeapodTun2socks =
  t_engine :: "nat option"
  t_hook :: "nat option"
  engines :: "Engine list"
  to_start :: "nat list"
  to_stop :: "nat list"

record start_args =
  a_tunFD :: int
  a_mtu :: int
  a_socksHost :: string
  a_socksPort :: int
  a_socksUsername :: string
  a_socksPassword :: string
  a_allowICMP :: bool
  a_blockQuic :: bool
  a_capacity :: int
  a_ttl :: int
  a_validator :: "UIDValidatorFunc option"

subsection \<open>The code\<close>

definition NewTeapodTun2socks :: TeapodTun2socks where
  "NewTeapodTun2socks = \<lparr>t_engine = None, t_hook = None, engines = [], to_start = [], to_stop = []\<rparr>"

definition args_config :: "start_args \<Rightarrow> engine_config" where
  "args_config a = \<lparr>cfg_tunFD = a_tunFD a, cfg_host = a_socksHost a, cfg_port = a_socksPort a,
     cfg_user = a_socksUsername a, cfg_pass = a_socksPassword a\<rparr>"

definition api_Start :: "new_outcomes \<Rightarrow> start_args \<Rightarrow> TeapodTun2socks \<Rightarrow> string \<times> TeapodTun2socks" where
  "api_Start env a t =
     (if t_engine t \<noteq> None then (''teapod-tun2socks already started'', t)
      else
        (let h = SetValidator (a_validator a) (NewEngineHook (a_capacity a) (a_ttl a)) in
         case NewEngine env (args_config a) (a_mtu a) (a_allowICMP a) (a_blockQuic a) h of
           (Inl err, _) \<Rightarrow> (''engine creation failed: '' @ error_text err, t)
         | (Inr e, _) \<Rightarrow>
             (let p = length (engines t) in
              ([], t\<lparr>engines := engines t @ [e], t_hook := Some p, t_engine := Some p,
                     to_start := to_start t @ [p]\<rparr>))))"

definition api_Stop :: "TeapodTun2socks \<Rightarrow> TeapodTun2socks" where
  "api_Stop t =
     (let t' = t\<lparr>t_engine := None, t_hook := None\<rparr> in
      case t_engine t of None \<Rightarrow> t' | Some p \<Rightarrow> t'\<lparr>to_stop := to_stop t @ [p]\<rparr>)"

definition api_IsRunning :: "TeapodTun2socks \<Rightarrow> bool" where
  "api_IsRunning t = (case t_engine t of None \<Rightarrow> False | Some p \<Rightarrow> IsRunning (engines t ! p))"

definition CacheSize :: "TeapodTun2socks \<Rightarrow> int" where
  "CacheSize t = (case t_hook t of None \<Rightarrow> 0 | Some p \<Rightarrow> int (CacheLen (hook (engines t ! p))))"

definition api_SetLogEnabled :: "bool \<Rightarrow> TeapodTun2socks \<Rightarrow> TeapodTun2socks" where
  "api_SetLogEnabled b t =
     (case t_hook t of None \<Rightarrow> t
      | Some p \<Rightarrow> t\<lparr>engines := (engines t)[p := (engines t ! p)\<lparr>hook := SetLogEnabled b (hook (engines t ! p))\<rparr>]\<rparr>)"

definition GetActiveConnections :: "TeapodTun2socks \<Rightarrow> int" where
  "GetActiveConnections t = (case t_engine t of None \<Rightarrow> 0 | Some p \<Rightarrow> ActiveConns (engines t ! p))"

text \<open>The counters are unsigned, the API is signed: the conversion \<open>int64(x)\<close> is \<open>sint\<close>.\<close>

definition GetUploadBytes :: "TeapodTun2socks \<Rightarrow> int" where
  "GetUploadBytes t = (case t_engine t of None \<Rightarrow> 0 | Some p \<Rightarrow> sint (txBytes (engines t ! p)))"

definition GetDownloadBytes :: "TeapodTun2socks \<Rightarrow> int" where
  "GetDownloadBytes t = (case t_engine t of None \<Rightarrow> 0 | Some p \<Rightarrow> sint (rxBytes (engines t ! p)))"

definition GetLastRxActivityMs :: "TeapodTun2socks \<Rightarrow> int" where
  "GetLastRxActivityMs t = (case t_engine t of None \<Rightarrow> 0 | Some p \<Rightarrow> LastRxMs (engines t ! p))"

definition cache_len :: "TeapodTun2socks \<Rightarrow> nat" where
  "cache_len t = (case t_hook t of None \<Rightarrow> 0 | Some p \<Rightarrow> CacheLen (hook (engines t ! p)))"

definition GetStatsLine :: "stack_stats \<Rightarrow> TeapodTun2socks \<Rightarrow> string" where
  "GetStatsLine st t = (case t_engine t of None \<Rightarrow> [] | Some p \<Rightarrow> StatsLine st (cache_len t) (engines t ! p))"

definition GetDiagnostics :: "int \<Rightarrow> stack_stats \<Rightarrow> u64 list \<Rightarrow> TeapodTun2socks \<Rightarrow> string" where
  "GetDiagnostics now st order t =
     (case t_engine t of None \<Rightarrow> [] | Some p \<Rightarrow> Diagnostics now st order (cache_len t) (engines t ! p))"

definition ForceCloseAllConnections :: "u64 list \<Rightarrow> u64 list \<Rightarrow> TeapodTun2socks \<Rightarrow> int \<times> TeapodTun2socks" where
  "ForceCloseAllConnections tcp_order udp_order t =
     (case t_engine t of None \<Rightarrow> (0, t)
      | Some p \<Rightarrow>
          (case CloseAllConnections tcp_order udp_order (engines t ! p) of
             (n, e) \<Rightarrow> (int n, t\<lparr>engines := (engines t)[p := e]\<rparr>)))"

text \<open>
  The goroutines' parts. What engines do between \<open>Start\<close> and \<open>Stop\<close> is any change that
  leaves the life cycle alone; a read error makes the read loop of a running engine launch a
  \<open>Stop\<close>.
\<close>

definition same_life :: "Engine \<Rightarrow> Engine \<Rightarrow> bool" where
  "same_life e e' \<longleftrightarrow> running e' = running e \<and> stop_closed e' = stop_closed e \<and> cancelled e' = cancelled e \<and>
     tun_closed e' = tun_closed e \<and> stack_closed e' = stack_closed e"

inductive tstep :: "TeapodTun2socks \<Rightarrow> TeapodTun2socks \<Rightarrow> bool" where
  start: "tstep t (snd (api_Start env a t))"
| stop: "tstep t (api_Stop t)"
| set_log: "tstep t (api_SetLogEnabled b t)"
| force_close: "tstep t (snd (ForceCloseAllConnections o1 o2 t))"
| run_start: "to_start t = ps @ p # qs \<Longrightarrow> Start (engines t ! p) = Some e \<Longrightarrow>
     tstep t (t\<lparr>engines := (engines t)[p := e], to_start := ps @ qs\<rparr>)"
| start_refused: "to_start t = ps @ p # qs \<Longrightarrow> Start (engines t ! p) = None \<Longrightarrow>
     tstep t (t\<lparr>to_start := ps @ qs\<rparr>)"
| run_stop: "to_stop t = ps @ p # qs \<Longrightarrow> Stop (engines t ! p) = Some e \<Longrightarrow>
     tstep t (t\<lparr>engines := (engines t)[p := e], to_stop := ps @ qs\<rparr>)"
| read_error: "p < length (engines t) \<Longrightarrow> running (engines t ! p) \<Longrightarrow>
     tstep t (t\<lparr>engines := (engines t)[p := read_failed (engines t ! p)], to_stop := to_stop t @ [p]\<rparr>)"
| work: "p < length (engines t) \<Longrightarrow> same_life (engines t ! p) e \<Longrightarrow>
     tstep t (t\<lparr>engines := (engines t)[p := e]\<rparr>)"

inductive treach :: "TeapodTun2socks \<Rightarrow> bool" where
  init: "treach NewTeapodTun2socks"
| step: "treach t \<Longrightarrow> tstep t t' \<Longrightarrow> treach t'"

subsection \<open>Phases of an engine\<close>

text \<open>
  An engine waits for its goroutine, then runs, then is stopped with everything released: the
  three phases exclude each other and an engine never goes back.
\<close>

definition fresh :: "Engine \<Rightarrow> bool" where "fresh e \<longleftrightarrow> \<not> running e \<and> \<not> stop_closed e"
definition up :: "Engine \<Rightarrow> bool" where "up e \<longleftrightarrow> running e \<and> \<not> stop_closed e"
definition stopped :: "Engine \<Rightarrow> bool" where
  "stopped e \<longleftrightarrow> \<not> running e \<and> stop_closed e \<and> cancelled e \<and> tun_closed e \<and> stack_closed e"

definition phase_ok :: "bool \<Rightarrow> Engine \<Rightarrow> bool" where
  "phase_ok waiting e \<longleftrightarrow> (if waiting then fresh e else up e \<or> stopped e)"

definition facade_ok :: "TeapodTun2socks \<Rightarrow> bool" where
  "facade_ok t \<longleftrightarrow> t_hook t = t_engine t \<and> distinct (to_start t) \<and>
     (\<forall>p. t_engine t = Some p \<or> p \<in> set (to_start t) \<or> p \<in> set (to_stop t) \<longrightarrow> p < length (engines t)) \<and>
     (\<forall>p < length (engines t). phase_ok (p \<in> set (to_start t)) (engines t ! p))"

lemmas phase_defs = phase_ok_def fresh_def up_def stopped_def

lemma facade_okD:
  assumes "facade_ok t"
  shows "t_hook t = t_engine t" "distinct (to_start t)"
    "t_engine t = Some p \<Longrightarrow> p < length (engines t)" "p \<in> set (to_start t) \<Longrightarrow> p < length (engines t)"
    "p \<in> set (to_stop t) \<Longrightarrow> p < length (engines t)"
    "p < length (engines t) \<Longrightarrow> phase_ok (p \<in> set (to_start t)) (engines t ! p)"
  using assms by (auto simp: facade_ok_def)

lemma phase_same: "same_life e e' \<Longrightarrow> phase_ok w e' = phase_ok w e"
  by (simp add: same_life_def phase_defs)

lemma phase_Stop: "phase_ok w e \<Longrightarrow> Stop e = Some e' \<Longrightarrow> phase_ok w e' \<and> (up e \<longrightarrow> stopped e') \<and> (\<not> up e \<longrightarrow> e' = e)"
  by (auto simp: phase_defs Stop_def Let_def split: if_splits)

lemma phase_Start: "phase_ok True e \<Longrightarrow> \<exists>e'. Start e = Some e' \<and> phase_ok False e' \<and> up e'"
  by (auto simp: phase_defs Start_def)

lemma new_fresh: "fresh ((new_engine m a q h)\<lparr>config := cfg\<rparr>)"
  by (simp add: fresh_def new_engine_def)

lemma phase_read_failed: "phase_ok w (read_failed e) = phase_ok w e"
  by (simp add: phase_defs read_failed_def)

text \<open>Replacing an engine by one in an allowed phase.\<close>

lemma facade_update:
  assumes "facade_ok t" and "p < length (engines t) \<Longrightarrow> phase_ok (p \<in> set ss) e"
    and "distinct ss" and "set ss \<subseteq> set (to_start t)" and "set (to_start t) \<subseteq> insert p (set ss)"
    and "set ts \<subseteq> insert p (set (to_stop t))" and "p \<in> set ts \<Longrightarrow> p < length (engines t)"
  shows "facade_ok (t\<lparr>engines := (engines t)[p := e], to_start := ss, to_stop := ts\<rparr>)"
proof -
  have "phase_ok (q \<in> set ss) ((engines t)[p := e] ! q)" if "q < length (engines t)" for q
  proof (cases "q = p")
    case False
    with assms(4,5) have "q \<in> set ss \<longleftrightarrow> q \<in> set (to_start t)" by blast
    with False facade_okD(6) [OF assms(1) that] show ?thesis by simp
  qed (use that assms(2) in simp)
  then show ?thesis using facade_okD [OF assms(1)] assms(3-7) by (auto simp: facade_ok_def)
qed

lemma NewEngine_Inr:
  "NewEngine env cfg m allow quic h = (Inr e, r) \<longleftrightarrow>
     nic_error env = None \<and> dup_error env = None \<and> nonblock_error env = None \<and>
     e = (new_engine m allow quic h)\<lparr>config := cfg\<rparr> \<and> r = \<lparr>stack_open = True, fd_open = True, ctx_live = True\<rparr>"
  by (auto simp: NewEngine_def Let_def split: option.splits)

lemma NewEngine_Inl:
  "NewEngine env cfg m allow quic h = (Inl err, r) \<Longrightarrow>
     (nic_error env \<noteq> None \<or> dup_error env \<noteq> None \<or> nonblock_error env \<noteq> None) \<and>
     r = \<lparr>stack_open = False, fd_open = False, ctx_live = False\<rparr>"
  by (auto simp: NewEngine_def Let_def split: option.splits)

definition new_hook :: "start_args \<Rightarrow> EngineHook" where
  "new_hook a = SetValidator (a_validator a) (NewEngineHook (a_capacity a) (a_ttl a))"

text \<open>The two outcomes of \<open>api_Start\<close>.\<close>

lemma api_Start_cases:
  obtains (refused) msg where "api_Start env a t = (msg, t)" "msg \<noteq> []"
      "t_engine t \<noteq> None \<or> nic_error env \<noteq> None \<or> dup_error env \<noteq> None \<or> nonblock_error env \<noteq> None"
  | (ok) "t_engine t = None" "nic_error env = None" "dup_error env = None" "nonblock_error env = None"
      "api_Start env a t = ([], t\<lparr>engines := engines t @
           [(new_engine (a_mtu a) (a_allowICMP a) (a_blockQuic a) (new_hook a))\<lparr>config := args_config a\<rparr>],
         t_hook := Some (length (engines t)), t_engine := Some (length (engines t)),
         to_start := to_start t @ [length (engines t)]\<rparr>)"
proof (cases "t_engine t")
  case (Some p)
  then show ?thesis by (intro refused) (auto simp: api_Start_def)
next
  case None
  obtain res r where n: "NewEngine env (args_config a) (a_mtu a) (a_allowICMP a) (a_blockQuic a) (new_hook a) = (res, r)" by fastforce
  show ?thesis
  proof (cases res)
    case (Inl err)
    with n NewEngine_Inl None show ?thesis
      by (intro refused) (auto simp: api_Start_def new_hook_def Let_def)
  next
    case (Inr e)
    note n' = n [unfolded Inr, unfolded NewEngine_Inr]
    from n Inr None n' show ?thesis
      by (intro ok) (simp_all add: api_Start_def new_hook_def [symmetric] Let_def)
  qed
qed

lemma facade_step:
  assumes "tstep t t'" and ok: "facade_ok t"
  shows "facade_ok t'"
  using assms(1)
proof cases
  case (start env a)
  show ?thesis
  proof (cases rule: api_Start_cases [of env a t])
    case (refused msg)
    with start ok show ?thesis by simp
  next
    case ok
    have "phase_ok (p \<in> set (to_start t')) (engines t' ! p)" if "p < length (engines t')" for p
      using that facade_okD(4,6) [OF assms(2)]
      by (cases "p = length (engines t)") (auto simp: start ok(5) nth_append phase_ok_def new_fresh)
    then show ?thesis
      using facade_okD [OF assms(2)] by (fastforce simp: facade_ok_def start ok(5))
  qed
next
  case stop
  with ok show ?thesis by (cases "t_engine t") (auto simp: facade_ok_def api_Stop_def Let_def)
next
  case (set_log b)
  show ?thesis
  proof (cases "t_hook t")
    case (Some p)
    let ?e = "(engines t ! p)\<lparr>hook := SetLogEnabled b (hook (engines t ! p))\<rparr>"
    have "phase_ok w ?e = phase_ok w (engines t ! p)" for w by (rule phase_same) (simp add: same_life_def)
    moreover have "t_engine t = Some p" using Some facade_okD(1) [OF ok] by simp
    ultimately show ?thesis
      using facade_update [OF ok, of p "to_start t" ?e "to_stop t"] facade_okD(2-6) [OF ok] Some
      by (simp add: set_log api_SetLogEnabled_def subset_insertI)
  qed (use ok set_log in \<open>simp add: api_SetLogEnabled_def\<close>)
next
  case (force_close o1 o2)
  show ?thesis
  proof (cases "t_engine t")
    case (Some p)
    let ?e = "snd (CloseAllConnections o1 o2 (engines t ! p))"
    have "phase_ok w ?e = phase_ok w (engines t ! p)" for w
      by (rule phase_same) (simp add: same_life_def CloseAllConnections_def fold_close_conn Let_def)
    with facade_update [OF ok, of p "to_start t" ?e "to_stop t"] facade_okD [OF ok] Some show ?thesis
      by (auto simp: force_close ForceCloseAllConnections_def subset_insertI split: prod.split)
  qed (use ok force_close in \<open>simp add: ForceCloseAllConnections_def\<close>)
next
  case (run_start ps p qs e)
  have p: "p < length (engines t)" "p \<notin> set (ps @ qs)" "distinct (ps @ qs)"
    using facade_okD(2,4) [OF ok] run_start(2) by auto
  have "phase_ok True (engines t ! p)" using facade_okD(4,6) [OF ok, of p] run_start(2) by auto
  with run_start(3) have e: "phase_ok False e" using phase_Start by fastforce
  have "facade_ok (t\<lparr>engines := (engines t)[p := e], to_start := ps @ qs, to_stop := to_stop t\<rparr>)"
    by (rule facade_update [OF ok]) (use p run_start(2) e in auto)
  then show ?thesis by (simp add: run_start(1))
next
  case (start_refused ps p qs)
  have "phase_ok True (engines t ! p)" using facade_okD(4,6) [OF ok, of p] start_refused(2) by auto
  with start_refused(3) phase_Start show ?thesis by fastforce
next
  case (run_stop ps p qs e)
  have "p < length (engines t)" using facade_okD(5) [OF ok] run_stop(2) by auto
  moreover have "phase_ok (p \<in> set (to_start t)) e"
    using phase_Stop [OF facade_okD(6) [OF ok calculation] run_stop(3)] by blast
  ultimately have "facade_ok (t\<lparr>engines := (engines t)[p := e], to_start := to_start t, to_stop := ps @ qs\<rparr>)"
    by (intro facade_update [OF ok]) (use facade_okD(2) [OF ok] run_stop(2) in auto)
  then show ?thesis by (simp add: run_stop(1))
next
  case (read_error p)
  with facade_update [OF ok, of p "to_start t" "read_failed (engines t ! p)" "to_stop t @ [p]"] facade_okD [OF ok]
  show ?thesis by (auto simp: phase_read_failed)
next
  case (work p e)
  with facade_update [OF ok, of p "to_start t" e "to_stop t"] facade_okD [OF ok] show ?thesis
    by (simp add: phase_same subset_insertI)
qed

lemma facade_reach: "treach t \<Longrightarrow> facade_ok t"
  by (induction rule: treach.induct)
    (auto simp: facade_step, simp add: facade_ok_def NewTeapodTun2socks_def)

text \<open>A stopped engine, and an engine nobody points to any more, stay as they are.\<close>

lemma engines_step:
  assumes "tstep t t'" and "facade_ok t" and "p < length (engines t)"
  shows "p < length (engines t') \<and>
    (running (engines t' ! p) = running (engines t ! p) \<or> p \<in> set (to_start t) \<or> p \<in> set (to_stop t)) \<and>
    (stopped (engines t ! p) \<longrightarrow> stopped (engines t' ! p))"
  using assms(1)
proof cases
  case (start env a)
  with assms(3) show ?thesis by (cases rule: api_Start_cases [of env a t]) (auto simp: nth_append)
next
  case stop
  with assms(3) show ?thesis by (cases "t_engine t") (auto simp: api_Stop_def Let_def)
next
  case (set_log b)
  with assms(3) show ?thesis
    by (cases "t_hook t"; cases "the (t_hook t) = p") (auto simp: api_SetLogEnabled_def stopped_def)
next
  case (force_close o1 o2)
  with assms(3) show ?thesis
    by (cases "t_engine t"; cases "the (t_engine t) = p")
      (auto simp: ForceCloseAllConnections_def CloseAllConnections_def fold_close_conn Let_def stopped_def)
next
  case (run_start ps q qs e)
  then have "fresh (engines t ! q)" using facade_okD(4,6) [OF assms(2), of q] by (auto simp: phase_ok_def)
  with run_start assms(3) show ?thesis by (cases "p = q") (auto simp: fresh_def stopped_def)
next
  case (run_stop ps q qs e)
  then show ?thesis using assms(3) by (cases "p = q") (auto simp: Stop_def Let_def stopped_def split: if_splits)
next
  case (read_error q)
  with assms(3) show ?thesis by (cases "p = q") (auto simp: read_failed_def stopped_def)
next
  case (work q e)
  with assms(3) show ?thesis by (cases "p = q") (auto simp: same_life_def stopped_def)
qed (use assms(3) in simp)

lemma stopped_stays: "tstep\<^sup>*\<^sup>* t t' \<Longrightarrow> facade_ok t \<Longrightarrow> p < length (engines t) \<Longrightarrow> stopped (engines t ! p) \<Longrightarrow>
  facade_ok t' \<and> p < length (engines t') \<and> stopped (engines t' ! p)"
proof (induction rule: rtranclp_induct)
  case (step t' t'')
  then show ?case using facade_step engines_step by blast
qed simp

text \<open>An engine is abandoned when it runs while neither the facade nor a \<open>Stop\<close> under way has it.\<close>

definition abandoned :: "nat \<Rightarrow> TeapodTun2socks \<Rightarrow> bool" where
  "abandoned p t \<longleftrightarrow> p < length (engines t) \<and> running (engines t ! p) \<and> t_engine t \<noteq> Some p \<and>
     p \<notin> set (to_start t) \<and> p \<notin> set (to_stop t)"

lemma abandoned_step:
  assumes "tstep t t'" and "facade_ok t" and "abandoned p t" and "spawned_stops (engines t' ! p) = spawned_stops (engines t ! p)"
  shows "abandoned p t'"
proof -
  have p: "p < length (engines t)" "p \<notin> set (to_start t)" "p \<notin> set (to_stop t)" "t_engine t \<noteq> Some p"
    using assms(3) by (auto simp: abandoned_def)
  have r: "p < length (engines t')" "running (engines t' ! p)"
    using engines_step [OF assms(1,2) p(1)] assms(3) p by (auto simp: abandoned_def)
  have "t_engine t' \<noteq> Some p \<and> p \<notin> set (to_start t') \<and> p \<notin> set (to_stop t')"
    using assms(1)
  proof cases
    case (start env a)
    with p show ?thesis by (cases rule: api_Start_cases [of env a t]) auto
  next
    case stop
    with p show ?thesis by (cases "t_engine t") (auto simp: api_Stop_def Let_def)
  next
    case (set_log b)
    with p show ?thesis by (cases "t_hook t") (auto simp: api_SetLogEnabled_def)
  next
    case (force_close o1 o2)
    with p show ?thesis by (cases "t_engine t") (auto simp: ForceCloseAllConnections_def split: prod.split)
  next
    case (read_error q)
    with p assms(4) show ?thesis by (cases "p = q") (auto simp: read_failed_def)
  qed (use p in auto)
  with r show ?thesis by (simp add: abandoned_def)
qed

subsection \<open>A start and a stop in quick succession\<close>

definition demo_args :: start_args where
  "demo_args = \<lparr>a_tunFD = 5, a_mtu = 1500, a_socksHost = ''127.0.0.1'', a_socksPort = 1080,
     a_socksUsername = ''user'', a_socksPassword = ''secret'', a_allowICMP = False, a_blockQuic = True, a_capacity = 100, a_ttl = 60, a_validator = None\<rparr>"

definition no_errors :: new_outcomes where
  "no_errors = \<lparr>nic_error = None, dup_error = None, nonblock_error = None\<rparr>"

definition demo_new :: Engine where
  "demo_new = (new_engine 1500 False True (new_hook demo_args))\<lparr>config := args_config demo_args\<rparr>"

lemma demo_new_life: "\<not> running demo_new" "\<not> stop_closed demo_new"
  by (simp_all add: demo_new_def new_engine_def)

lemma demo_Start: "t_engine t = None \<Longrightarrow> api_Start no_errors demo_args t =
    ([], t\<lparr>engines := engines t @ [demo_new], t_hook := Some (length (engines t)),
       t_engine := Some (length (engines t)), to_start := to_start t @ [length (engines t)]\<rparr>)"
  by (cases rule: api_Start_cases [of no_errors demo_args t])
    (auto simp: no_errors_def demo_new_def demo_args_def)

definition started :: "Engine \<Rightarrow> TeapodTun2socks" where
  "started e = \<lparr>t_engine = Some 0, t_hook = Some 0, engines = [e], to_start = [], to_stop = []\<rparr>"

lemma started_reach: "treach ((started demo_new)\<lparr>to_start := [0]\<rparr>)" "treach (started (demo_new\<lparr>running := True\<rparr>))"
proof -
  have "tstep NewTeapodTun2socks (snd (api_Start no_errors demo_args NewTeapodTun2socks))" by (rule tstep.start)
  from treach.step [OF treach.init this] show 1: "treach ((started demo_new)\<lparr>to_start := [0]\<rparr>)"
    by (simp add: demo_Start NewTeapodTun2socks_def started_def)
  have "tstep ((started demo_new)\<lparr>to_start := [0]\<rparr>) (((started demo_new)\<lparr>to_start := [0]\<rparr>)
     \<lparr>engines := (engines ((started demo_new)\<lparr>to_start := [0]\<rparr>))[0 := demo_new\<lparr>running := True\<rparr>], to_start := [] @ []\<rparr>)"
    by (rule tstep.run_start) (simp_all add: started_def Start_def demo_new_life)
  from treach.step [OF 1 this] show "treach (started (demo_new\<lparr>running := True\<rparr>))" by (simp add: started_def)
qed

definition leaked :: TeapodTun2socks where
  "leaked = \<lparr>t_engine = None, t_hook = None, engines = [demo_new\<lparr>running := True\<rparr>], to_start = [], to_stop = []\<rparr>"

lemma leaked_reach: "treach leaked" "abandoned 0 leaked"
proof -
  let ?t1 = "\<lparr>t_engine = None, t_hook = None, engines = [demo_new], to_start = [0], to_stop = [0]\<rparr>"
  let ?t2 = "?t1\<lparr>to_stop := []\<rparr>"
  have "tstep ((started demo_new)\<lparr>to_start := [0]\<rparr>) (api_Stop ((started demo_new)\<lparr>to_start := [0]\<rparr>))" by (rule tstep.stop)
  from treach.step [OF started_reach(1) this] have 1: "treach ?t1" by (simp add: api_Stop_def started_def)
  have "tstep ?t1 (?t1\<lparr>engines := (engines ?t1)[0 := demo_new], to_stop := [] @ []\<rparr>)"
    by (rule tstep.run_stop) (simp_all add: Stop_def demo_new_life)
  from treach.step [OF 1 this] have 2: "treach ?t2" by simp
  have "tstep ?t2 (?t2\<lparr>engines := (engines ?t2)[0 := demo_new\<lparr>running := True\<rparr>], to_start := [] @ []\<rparr>)"
    by (rule tstep.run_start) (simp_all add: Start_def demo_new_life)
  from treach.step [OF 2 this] show "treach leaked" by (simp add: leaked_def)
  show "abandoned 0 leaked" by (simp add: abandoned_def leaked_def)
qed

subsection \<open>Properties\<close>

text \<open>
  C8: the life cycle is safe. However the API calls, the launched goroutines, the read loops'
  own stops and the work of the engines interleave: every engine is waiting for its start, or
  runs, or is stopped with everything released; no \<open>Stop\<close> ever closes a stop channel twice,
  which would panic, and no launched \<open>Start\<close> finds its engine running; the facade's two
  pointers always belong together.
\<close>

theorem facade_lifecycle:
  assumes "treach t"
  shows "t_hook t = t_engine t \<and>
    (\<forall>p < length (engines t). if p \<in> set (to_start t) then fresh (engines t ! p)
       else up (engines t ! p) \<or> stopped (engines t ! p)) \<and>
    (\<forall>p \<in> set (to_start t). Start (engines t ! p) \<noteq> None) \<and>
    (\<forall>p \<in> set (to_stop t). Stop (engines t ! p) \<noteq> None)"
proof -
  note ok = facade_reach [OF assms]
  have ph: "phase_ok (p \<in> set (to_start t)) (engines t ! p)" if "p < length (engines t)" for p
    using facade_okD(6) [OF ok that] .
  have "Start (engines t ! p) \<noteq> None" if "p \<in> set (to_start t)" for p
    using phase_Start ph [OF facade_okD(4) [OF ok that]] that by fastforce
  moreover have "Stop (engines t ! p) \<noteq> None" if "p \<in> set (to_stop t)" for p
    using ph [OF facade_okD(5) [OF ok that]] by (auto simp: phase_defs Stop_def Let_def split: if_splits)
  ultimately show ?thesis using facade_okD(1) [OF ok] ph by (auto simp: phase_ok_def split: if_splits)
qed

lemma facade_lifecycle_witness: "up (engines (started (demo_new\<lparr>running := True\<rparr>)) ! 0)"
  using facade_lifecycle [OF started_reach(2)] by (auto simp: started_def stopped_def)

text \<open>
  C24: stopping works, if the engine has started. After \<open>Stop\<close> the facade is empty and a
  \<open>Stop\<close> of the engine is under way; when its turn comes and the launched \<open>Start\<close> has
  run, the engine is stopped (loops told, context cancelled, descriptor and netstack closed)
  and stays so in every later state; if \<open>Start\<close> has not run yet, the \<open>Stop\<close> does nothing.
\<close>

theorem facade_Stop_effect:
  assumes "treach t" and "t_engine t = Some p"
  shows "t_engine (api_Stop t) = None \<and> p \<in> set (to_stop (api_Stop t)) \<and>
    (\<forall>t1 e. treach t1 \<and> p \<in> set (to_stop t1) \<and> Stop (engines t1 ! p) = Some e \<longrightarrow>
       (if p \<in> set (to_start t1) then e = engines t1 ! p
        else stopped e \<and> (\<forall>t2 t3. t2 = t1\<lparr>engines := (engines t1)[p := e], to_stop := remove1 p (to_stop t1)\<rparr> \<and>
          tstep\<^sup>*\<^sup>* t2 t3 \<longrightarrow> stopped (engines t3 ! p))))"
proof (intro conjI allI impI)
  show "t_engine (api_Stop t) = None" "p \<in> set (to_stop (api_Stop t))"
    using assms(2) by (simp_all add: api_Stop_def Let_def)
  fix t1 e
  assume a: "treach t1 \<and> p \<in> set (to_stop t1) \<and> Stop (engines t1 ! p) = Some e"
  then have ok: "facade_ok t1" and p: "p < length (engines t1)" and st: "Stop (engines t1 ! p) = Some e"
    using facade_reach facade_okD(5) by blast+
  note ph = phase_Stop [OF facade_okD(6) [OF ok p] st]
  show "if p \<in> set (to_start t1) then e = engines t1 ! p
        else stopped e \<and> (\<forall>t2 t3. t2 = t1\<lparr>engines := (engines t1)[p := e], to_stop := remove1 p (to_stop t1)\<rparr> \<and>
          tstep\<^sup>*\<^sup>* t2 t3 \<longrightarrow> stopped (engines t3 ! p))"
  proof (cases "p \<in> set (to_start t1)")
    case True
    with ph facade_okD(6) [OF ok p] show ?thesis by (auto simp: phase_defs)
  next
    case False
    then have s: "stopped e" using ph facade_okD(6) [OF ok p] by (auto simp: phase_ok_def)
    have "facade_ok (t1\<lparr>engines := (engines t1)[p := e], to_stop := remove1 p (to_stop t1)\<rparr>)"
      using facade_update [OF ok, of p "to_start t1" e "remove1 p (to_stop t1)"] ph facade_okD(2) [OF ok] p
      by (simp add: subset_insertI set_remove1_subset subset_insertI2)
    with s False p show ?thesis using stopped_stays by fastforce
  qed
qed

lemma facade_Stop_effect_witness:
  "t_engine (api_Stop (started (demo_new\<lparr>running := True\<rparr>))) = None \<and>
   0 \<in> set (to_stop (api_Stop (started (demo_new\<lparr>running := True\<rparr>))))"
  using facade_Stop_effect [OF started_reach(2), of 0] by (simp add: started_def)

text \<open>
  C25: a quick start and stop leaks a running engine. The API calls \<open>Start\<close>, \<open>Stop\<close> can
  reach a state in which nothing is under way, the facade reports not running, and the engine
  runs: its \<open>Start\<close> ran after its \<open>Stop\<close>. Such an engine is out of reach: whatever happens,
  it stays abandoned until one of its own reads fails.
\<close>

theorem early_stop_leaks:
  "(\<exists>t. treach t \<and> abandoned 0 t \<and> \<not> api_IsRunning t \<and> to_start t = [] \<and> to_stop t = []) \<and>
   (\<forall>p t t'. treach t \<and> abandoned p t \<and> tstep t t' \<and>
      spawned_stops (engines t' ! p) = spawned_stops (engines t ! p) \<longrightarrow> abandoned p t')"
proof
  show "\<exists>t. treach t \<and> abandoned 0 t \<and> \<not> api_IsRunning t \<and> to_start t = [] \<and> to_stop t = []"
    using leaked_reach by (intro exI [of _ leaked]) (simp add: leaked_def api_IsRunning_def)
qed (use abandoned_step facade_reach in blast)

lemma early_stop_leaks_witness: "abandoned 0 (api_Stop leaked)"
proof -
  have "spawned_stops (engines (api_Stop leaked) ! 0) = spawned_stops (engines leaked ! 0)"
    by (simp add: api_Stop_def leaked_def)
  then show ?thesis using early_stop_leaks leaked_reach tstep.stop [of leaked] by blast
qed

text \<open>
  C26: \<open>Start\<close> succeeds or changes nothing. It reports the empty string exactly when no engine
  was held and the set-up succeeded; then there is one more engine, not running yet, with
  the given MTU, switches and validator, an empty cache of the given capacity whose TTL is the
  given number of seconds (in nanoseconds, if that fits 64 bits), reading the given descriptor and dialling
  the proxy at the given host and port with the given credentials, and a \<open>Start\<close> of it under
  way. On every error the facade is unchanged and the set-up has released all it acquired.
\<close>

theorem facade_Start_exact:
  assumes "api_Start env a t = (msg, t')" and "NewEngine env (args_config a) (a_mtu a) (a_allowICMP a) (a_blockQuic a) (new_hook a) = (res, r)"
  shows "(msg = [] \<longleftrightarrow> t_engine t = None \<and> (\<exists>e. res = Inr e)) \<and>
    (msg \<noteq> [] \<longrightarrow> t' = t) \<and>
    (msg = [] \<longrightarrow> (\<exists>e. engines t' = engines t @ [e] \<and> t_engine t' = Some (length (engines t)) \<and>
       to_start t' = to_start t @ [length (engines t)] \<and> to_stop t' = to_stop t \<and> \<not> api_IsRunning t' \<and> fresh e \<and>
       mtu e = a_mtu a \<and> allowICMP e = a_allowICMP a \<and> blockQuic e = a_blockQuic a \<and>
       validator (hook e) = a_validator a \<and> CacheLen (hook e) = 0 \<and>
       capacity (hcache (hook e)) = a_capacity a \<and>
       (\<bar>a_ttl a\<bar> \<le> 9223372036 \<longrightarrow> ttl (hcache (hook e)) = a_ttl a * 1000000000) \<and>
       cfg_tunFD (config e) = a_tunFD a \<and> cfg_host (config e) = a_socksHost a \<and> cfg_port (config e) = a_socksPort a \<and>
       cfg_user (config e) = a_socksUsername a \<and> cfg_pass (config e) = a_socksPassword a)) \<and>
    (\<forall>err. res = Inl err \<longrightarrow> \<not> stack_open r \<and> \<not> fd_open r \<and> \<not> ctx_live r)"
proof -
  have L: "\<forall>err. res = Inl err \<longrightarrow> \<not> stack_open r \<and> \<not> fd_open r \<and> \<not> ctx_live r"
    using NewEngine_Inl assms(2) by fastforce
  have R: "(\<exists>e. res = Inr e) \<longleftrightarrow> nic_error env = None \<and> dup_error env = None \<and> nonblock_error env = None"
    using assms(2) NewEngine_Inl [of env] NewEngine_Inr [of env] by (cases res) auto
  show ?thesis
  proof (cases rule: api_Start_cases [of env a t])
    case (refused m)
    with assms(1) L R show ?thesis by auto
  next
    case ok
    have "validator (new_hook a) = a_validator a" "CacheLen (new_hook a) = 0"
      "capacity (hcache (new_hook a)) = a_capacity a" "ttl (hcache (new_hook a)) = ttl_duration (a_ttl a)"
      by (simp_all add: new_hook_def SetValidator_def NewEngineHook_def CacheLen_def NewLRUCache_def Len_def)
    moreover have "\<bar>a_ttl a\<bar> \<le> 9223372036 \<Longrightarrow> ttl_duration (a_ttl a) = a_ttl a * 1000000000"
      unfolding ttl_duration_exact by linarith
    ultimately show ?thesis
      using ok assms(1) L R by (auto simp: api_IsRunning_def IsRunning_def fresh_def new_engine_def args_config_def)
  qed
qed

lemma facade_Start_exact_witness:
  "\<exists>t'. api_Start no_errors demo_args NewTeapodTun2socks = ([], t') \<and> \<not> api_IsRunning t' \<and> to_start t' = [0] \<and>
     cfg_host (config (last (engines t'))) = ''127.0.0.1'' \<and> capacity (hcache (hook (last (engines t')))) = 100 \<and>
     ttl (hcache (hook (last (engines t')))) = 60000000000"
proof -
  have a: "api_Start no_errors demo_args NewTeapodTun2socks = ([], (started demo_new)\<lparr>to_start := [0]\<rparr>)"
    by (simp add: demo_Start NewTeapodTun2socks_def started_def)
  have d: "a_capacity demo_args = 100" "a_ttl demo_args = 60" "a_socksHost demo_args = ''127.0.0.1''"
    by (simp_all add: demo_args_def)
  from facade_Start_exact [OF a surjective_pairing] show ?thesis
    unfolding a d by (auto simp: NewTeapodTun2socks_def)
qed

end
