(* ===== verification/Spec2Isabelle.thy ===== *)
theory Spec2Isabelle
  imports Tun_Loop Forwarders Pipe_TCP Pipe_UDP Facade
begin

text \<open>
  A model of the Go engine of teapod-tun2socks (\<open>src/go\<close>), an Android VPN engine: it reads the
  packets of all apps from a TUN device, filters some, hands the rest to a userspace TCP/IP
  stack (gVisor), asks a Kotlin callback for each new flow whether the app may use the tunnel,
  and carries allowed flows to a SOCKS5 proxy.

  \<^bold>\<open>Parts and how they interact.\<close> The public API (\<open>teapod_tun2socks.go\<close>) creates an engine with
  its validation hook, launches it and stops it. The engine (\<open>engine.go\<close>) runs two TUN loops:
  \<open>tunReadLoop\<close> filters packets with the classifiers and answers of \<open>icmp_reject.go\<close> and injects
  the rest into the netstack; \<open>tunWriteLoop\<close> writes the netstack's packets back. The netstack
  calls the forwarders once per flow; their handlers ask the hook (\<open>engine_hook.go\<close>: an LRU
  cache, \<open>connection.go\<close>, in front of the callback), dial the proxy (\<open>socks5.go\<close>), enter the flow
  in the engine's tables and run its data pipe, \<open>pipeConnections\<close> or \<open>pipeUDP\<close>.

  \<^bold>\<open>Theories.\<close>
  \<^item> \<open>Prelude\<close>: Go's bytes and words, checked slice accesses (\<open>None\<close> is a panic), big-endian
    integers, decimal text. \<open>Codec\<close>: the locales of encoders: \<open>text_form\<close> (read back up to a
    normal form), \<open>codec\<close>, \<open>prefix_codec\<close> (on a stream).
  \<^item> \<open>Net_IP\<close>, \<open>Net_IP_Text\<close>, \<open>Net_HostPort\<close>: what the program uses of Go's \<open>net\<close> package:
    \<open>To4\<close>, \<open>To16\<close>, \<open>Equal\<close>, \<open>String\<close>, \<open>ParseIP\<close>, \<open>SplitHostPort\<close>, \<open>ResolveUDPAddr\<close>; the address
    text interprets \<open>text_form\<close>.
  \<^item> \<open>Conn_Key\<close>: \<open>ConnectionKey\<close>, \<open>NewConnectionKey\<close>, \<open>String\<close>, \<open>itoa\<close> of \<open>connection.go\<close>.
  \<^item> \<open>LRU_Cache\<close>: the cache of \<open>connection.go\<close>, map and list of pointers as in the code, with its
    refinement to a recency list. \<open>Engine_Hook\<close>: \<open>engine_hook.go\<close>, one call and the interleaving
    of many.
  \<^item> \<open>Checksum\<close>, \<open>Packet_Filter\<close>, \<open>ICMP_Reject\<close>: \<open>icmp_reject.go\<close> and the ICMP classifiers of
    \<open>engine.go\<close>.
  \<^item> \<open>Engine_State\<close>: the \<open>Engine\<close> struct, \<open>NewEngine\<close>, \<open>Start\<close>, \<open>Stop\<close>, tables, counters,
    \<open>CloseAllConnections\<close>, \<open>idleVerdict\<close>. \<open>Tun_Loop\<close>: both TUN loops.
  \<^item> \<open>Socks5_Datagram\<close>, \<open>Socks5_Client\<close>, \<open>Socks5_Associate\<close>: \<open>socks5.go\<close>; the datagrams interpret
    \<open>codec\<close>, the CONNECT request and the credentials \<open>prefix_codec\<close>.
  \<^item> \<open>Forwarders\<close>: the forwarder callbacks, \<open>handleTCPForwarder\<close> and \<open>handleUDPForwarder\<close>.
  \<^item> \<open>Draining\<close>: the locale of a teardown that always ends; \<open>Pipe_TCP\<close> (\<open>pipeConnections\<close>) and
    \<open>Pipe_UDP\<close> (\<open>pipeUDP\<close>) interpret it.
  \<^item> \<open>Json_Text\<close>: JSON as \<open>encoding/json\<close> writes it, with a reader; strings interpret
    \<open>prefix_codec\<close>, values \<open>codec\<close>. \<open>Reports\<close>: \<open>StatsLine\<close> and \<open>Diagnostics\<close> of \<open>engine.go\<close>.
  \<^item> \<open>Facade\<close>: \<open>teapod_tun2socks.go\<close>.

  \<^bold>\<open>State and operations.\<close> Structs are records with the code's field names (prefixed where two
  structs share one); pointers are numbers into heaps (\<open>heap\<close> of the cache, \<open>tcs\<close> of the engine,
  \<open>engines\<close> of the API). Sequential code is a function from state to state. Concurrent code is
  an inductive step relation in which each atomic operation, blocking call or critical section
  is one step, with a program counter per goroutine: \<open>vstep\<close> (validation), \<open>fstep\<close> (handlers),
  \<open>pstep\<close> and \<open>ustep\<close> (pipes), \<open>tstep\<close> (API). Some steps are coarser than that: \<open>Stop\<close> (its
  compare-and-swap, the closes and the wait for the loops), \<open>CloseAllConnections\<close> (its two locked
  snapshots and the closes), \<open>handle_err\<close> of the TCP pipe (clock, the two loads, the verdict, the
  counter and the shutdown), and a read with the stamp and deadlines that go with it.
  \<open>seen\<close> in the TCP pipe, \<open>tx_seen\<close> and \<open>rx_seen\<close> in the UDP relay and the lists of what arrived are
  history for the properties, not variables of the code. Properties are proved for every reachable state,
  by rule induction over invariants. Counters are \<open>64 word\<close> where Go uses \<open>uint64\<close>;
  \<open>activeConns\<close> and \<open>activeUDPConns\<close> are integers whose bounds are proved.

  \<^bold>\<open>What the lemmas show.\<close> Safety of the path of a flow: packets that should be filtered are
  not injected (\<open>Tun_Loop\<close>; in IPv6 as far as at most 7 extension headers hide them), a flow is only carried with the consent of the callback given for
  exactly its addresses within the TTL (\<open>Engine_Hook\<close>, \<open>Forwarders\<close>), to exactly its
  destination (\<open>Socks5_Client\<close>), and answers come from the proxy's relay only (\<open>Pipe_UDP\<close>).
  Data: both byte streams of a TCP flow and the datagrams of a UDP flow arrive intact and in
  order (datagrams cut to the buffers), an end of stream is passed on as a half-close, and
  a flow is torn down only for the causes the theorems list. Resources: the caps and counters are exact under every interleaving, errors close
  what they opened, tables hold exactly the running flows, flows that are shut down end within
  a bounded number of their own steps, and an engine goes through its life cycle without a
  double close. The lemmas at the end of this theory tie the engine's loops and
  handlers to the public API's view of an engine. Formats: the ICMP answers are well formed with
  verifying checksums, the SOCKS5 messages and the diagnostics read back, the megabytes of the
  statistics are right. No modelled function panics on any input, except where a theorem says
  when (\<open>shouldBlockICMP\<close> on 40-byte IPv6 packets, a second \<open>Stop\<close> after a restart, the read
  loop with a negative buffer length).

  \<^bold>\<open>Bounds and fuel.\<close> The only fuel is the code's own: at most 8 headers in
  \<open>ipv6TransportHeader\<close>; the JSON reader's fuel is the length of its text.
  \<open>internetChecksum\<close> equals the RFC 1071 sum up to 131074 bytes, far more than the 1500 or so of an answer. A pipe that is down takes at most 9 (TCP) or 4 (UDP) own
  steps. The tables are exact until the 64-bit id counter has wrapped.

  \<^bold>\<open>Parameters.\<close> Code outside the repository is an argument: the Kotlin callback (any function,
  replaced at any time), the network and the proxy (any bytes, failures of any write or
  deadline call), the resolver, the port the kernel binds, the outcomes of the calls that set
  an engine up, the netstack (what it reads, when it calls the forwarders), the clock, and the
  order in which Go iterates over maps. What a \<open>Read\<close>, \<open>Write\<close> or \<open>CloseWrite\<close> may return is stated
  with the rules of \<open>pstep\<close> and \<open>ustep\<close> (\<open>may_read\<close>: a connection closed locally returns an error
  or end of stream and no data; a write fails only on a failed or closed connection or at its
  deadline), as \<open>net\<close> and the netstack document it.

  \<^bold>\<open>Not modelled.\<close> gVisor's protocol options and the packets it produces; log lines; the
  buffer pool; the Kotlin side, the tests and the build scripts. A read that times out during
  a dial is a failed read. \<open>int\<close> is taken to be wide enough for the API's 64-bit arguments and
  \<open>mtu + 4\<close> not to wrap; a buffer too large to allocate is not a panic here. \<open>json.Marshal\<close> cannot
  fail on the values of \<open>Diagnostics\<close>, so the branch for its error is left out. A handler that
  panics is recovered by its \<open>defer\<close> and closes nothing, so the claims that connections are closed are
  about the other endings.
\<close>

subsection \<open>The engine's goroutines under the public API\<close>

text \<open>
  \<open>Facade\<close> lets an engine do any work that leaves its life cycle alone. The steps of the other
  theories are such work.
\<close>

lemma same_life_refl [simp]: "same_life e e"
  by (simp add: same_life_def)

lemma same_life_trans: "same_life e e1 \<Longrightarrow> same_life e1 e2 \<Longrightarrow> same_life e e2"
  by (simp add: same_life_def)

lemma handle_packet_life:
  "handle_packet ok pkt e = Some e' \<Longrightarrow> same_life e e' \<and> spawned_stops e' = spawned_stops e"
  by (auto simp: handle_packet_eq apply_verdict_def Let_def answer_def write_tun_def InjectInbound_def same_life_def
      split: verdict.splits option.splits if_splits)

text \<open>A run of the read loop is work, with the \<open>Stop\<close> it may launch at its end.\<close>

lemma read_loop_life:
  "read_loop evs e = Some (r, e') \<Longrightarrow> OtherStop \<notin> set evs \<Longrightarrow>
   \<exists>e1. same_life e e1 \<and> spawned_stops e1 = spawned_stops e \<and> (e' = e1 \<or> running e1 \<and> e' = read_failed e1)"
proof (induction evs e arbitrary: r e' rule: read_loop.induct)
  case (1 e)
  then show ?case by (intro exI [of _ e]) (auto simp: read_failed_def split: if_splits)
next
  case (3 evs e)
  then show ?case by (intro exI [of _ e]) (auto simp: read_failed_def split: if_splits)
next
  case (4 pkt ok evs e)
  show ?case
  proof (cases "stop_closed e \<or> tun_closed e")
    case True
    with 4(2) have "e' = e \<or> e' = read_failed e" by (simp split: if_splits)
    moreover have "\<not> running e \<Longrightarrow> read_failed e = e" by (simp add: read_failed_def)
    ultimately show ?thesis using same_life_refl by blast
  next
    case False
    then obtain e1 where e1: "handle_packet ok (take (nat (mtu e + 4)) pkt) e = Some e1" "read_loop evs e1 = Some (r, e')"
      using 4(2) by (auto simp: handle_packet_eq)
    have "OtherStop \<notin> set evs" using 4(3) by simp
    from 4(1) [OF _ _ e1 this] False obtain e2 where e2: "same_life e1 e2" "spawned_stops e2 = spawned_stops e1"
      "e' = e2 \<or> running e2 \<and> e' = read_failed e2" by blast
    moreover have "same_life e e2" "spawned_stops e2 = spawned_stops e"
      using handle_packet_life [OF e1(1)] same_life_trans [of e e1 e2] e2(1,2) by simp_all
    ultimately show ?thesis by blast
  qed
qed simp

lemma tunWriteLoop_life: "same_life e (tunWriteLoop pkts e)"
proof (induction pkts e rule: tunWriteLoop.induct)
  case (2 b ok nowMs pkts e)
  have "same_life e (write_packet b ok nowMs e)" by (simp add: write_packet_def same_life_def)
  with 2 same_life_trans show ?case by simp
qed simp

lemma validate_flow_life: "validate_flow n1 n2 f s = (b, s') \<Longrightarrow> same_life (eng s) (eng s')"
  by (auto simp: validate_flow_def same_life_def split: prod.splits)

lemmas engine_ops = goto_def on_engine_def add_udp_def add_tcp_def dial_failed_def complete_def take_id_def close_conn_def
  trackConn_def untrackConn_def trackUDPConn_def untrackUDPConn_def

lemma fstep_life: "fstep cl s s' \<Longrightarrow> same_life (eng s) (eng s') \<or> Stop (eng s) = Some (eng s')"
proof (induction rule: fstep.cases)
  case close_all
  then show ?case
    by (simp add: on_engine_def CloseAllConnections_def fold_close_conn same_life_def Let_def)
qed (auto simp: engine_ops same_life_def dest: validate_flow_life)

text \<open>
  The engine a successful \<open>Start\<close> creates is one the flow handlers can begin with, dialling the
  proxy \<open>Start\<close> was given.
\<close>

lemma api_Start_reaches:
  assumes "api_Start env a t = ([], t')"
  shows "\<exists>s. freach (NewSOCKS5Client (a_socksHost a) (a_socksPort a) (a_socksUsername a) (a_socksPassword a)) s \<and>
    eng s = last (engines t')"
proof (cases rule: api_Start_cases [of env a t])
  case (refused msg)
  with assms show ?thesis by simp
next
  case ok
  let ?e = "(new_engine (a_mtu a) (a_allowICMP a) (a_blockQuic a) (NewEngineHook (a_capacity a) (a_ttl a)))\<lparr>config := args_config a\<rparr>"
  let ?s = "on_engine (\<lambda>e. e\<lparr>hook := SetValidator (a_validator a) (hook e)\<rparr>) (finit ?e)"
  have "client_of (args_config a) = NewSOCKS5Client (a_socksHost a) (a_socksPort a) (a_socksUsername a) (a_socksPassword a)"
    by (simp add: client_of_def args_config_def)
  then have "freach (NewSOCKS5Client (a_socksHost a) (a_socksPort a) (a_socksUsername a) (a_socksPassword a)) ?s"
    by (metis freach.step freach.init fstep.set_validator)
  moreover have "eng ?s = last (engines t')"
    using assms ok by (auto simp: on_engine_def finit_def new_engine_def new_hook_def)
  ultimately show ?thesis by blast
qed

end
